(* ===== verification/Go_Prelude.thy ===== *)
theory Go_Prelude
  imports Main "HOL-Library.Word" "HOL-Library.Multiset"
begin

text \<open>
  Shared vocabulary of the development: the machine types of the Go programs (bytes, 64-bit
  integers, byte slices), error values, decimal printing as done by \<open>fmt\<close>, and the generic
  facts on lists, folds and words that the component theories use.

  Conventions.  A Go \<open>[]byte\<close> or the contents of a Go string that is scanned byte by byte is a
  list of \<open>8 word\<close>; a name (an id, a path, a flag value) is an Isabelle \<open>string\<close>, whose
  characters are bytes as well.  A Go \<open>int\<close> that only accumulates is the \<open>64 word\<close> it is on the
  supported platforms, so additions wrap; a Go \<open>int\<close> that is compared and subtracted is an
  \<open>int\<close>, and a separate theorem shows that the code never leaves the 64-bit range.
\<close>

section \<open>Machine types\<close>

type_synonym byte = "8 word"
type_synonym bytes = "byte list"
type_synonym go_int = "64 word"
type_synonym u64 = "64 word"

definition int64_range :: "int \<Rightarrow> bool" where
  "int64_range n \<longleftrightarrow> - (2 ^ 63) \<le> n \<and> n < 2 ^ 63"

text \<open>Two's complement wrap-around of a result that may have left the 64-bit range.\<close>

definition wrap64 :: "int \<Rightarrow> int" where
  "wrap64 n = (n + 2 ^ 63) mod 2 ^ 64 - 2 ^ 63"

lemma wrap64_id [simp]: "int64_range n \<Longrightarrow> wrap64 n = n"
  by (simp add: int64_range_def wrap64_def)

lemma wrap64_range: "int64_range (wrap64 n)"
proof -
  have "0 \<le> (n + 2 ^ 63) mod 2 ^ 64" and "(n + 2 ^ 63) mod 2 ^ 64 < (2 ^ 64 :: int)" by simp_all
  then show ?thesis by (auto simp: int64_range_def wrap64_def)
qed

abbreviation nl :: byte where "nl \<equiv> 10"
abbreviation cr :: byte where "cr \<equiv> 13"

named_theorems go_defs "definitions that the component proofs unfold together"

section \<open>Decimal printing\<close>

text \<open>
  \<open>fmt.Sprintf("%d", n)\<close>: the decimal digits of \<open>n\<close>, most significant first, with a leading
  minus sign for negative numbers.
\<close>

fun show_nat :: "nat \<Rightarrow> string" where
  "show_nat n = (if n < 10 then [char_of (48 + n)] else show_nat (n div 10) @ [char_of (48 + n mod 10)])"

declare show_nat.simps [simp del]

definition show_int :: "int \<Rightarrow> string" where
  "show_int n = (if n < 0 then CHR ''-'' # show_nat (nat (- n)) else show_nat (nat n))"

definition read_nat :: "string \<Rightarrow> nat" where
  "read_nat = foldl (\<lambda>a c. a * 10 + (of_char c - 48)) 0"

lemma of_char_digit [simp]: "d < 10 \<Longrightarrow> (of_char (char_of (48 + d) :: char) :: nat) = 48 + d"
  by simp

lemma read_nat_show_nat: "read_nat (show_nat n) = n"
proof (induction n rule: show_nat.induct)
  case (1 n)
  show ?case
  proof (cases "n < 10")
    case True
    then show ?thesis by (subst show_nat.simps) (simp add: read_nat_def)
  next
    case False
    with "1.IH" have "read_nat (show_nat (n div 10)) = n div 10" by simp
    with False show ?thesis by (subst show_nat.simps) (simp add: read_nat_def)
  qed
qed

lemma show_nat_inject [simp]: "show_nat m = show_nat n \<longleftrightarrow> m = n"
  by (metis read_nat_show_nat)

lemma show_nat_digits: "c \<in> set (show_nat n) \<Longrightarrow> \<exists>d < (10::nat). c = char_of (48 + d)"
proof (induction n rule: show_nat.induct)
  case (1 n)
  show ?case
  proof (cases "n < 10")
    case True
    with "1.prems" show ?thesis by (subst (asm) show_nat.simps) auto
  next
    case False
    from "1.prems" have "c \<in> set (show_nat (n div 10)) \<or> c = char_of (48 + n mod 10)"
      using False by (subst (asm) show_nat.simps) auto
    then show ?thesis
    proof
      assume "c \<in> set (show_nat (n div 10))"
      with False "1.IH" show ?thesis by simp
    next
      assume "c = char_of (48 + n mod 10)"
      then show ?thesis by (intro exI [of _ "n mod 10"]) simp
    qed
  qed
qed

lemma minus_notin_show_nat: "CHR ''-'' \<notin> set (show_nat n)"
proof
  assume "CHR ''-'' \<in> set (show_nat n)"
  then obtain d :: nat where "d < 10" and c: "CHR ''-'' = char_of (48 + d)"
    using show_nat_digits by blast
  from c have "(of_char (CHR ''-'') :: nat) = of_char (char_of (48 + d) :: char)" by (rule arg_cong)
  with \<open>d < 10\<close> show False by simp
qed

lemma show_int_inject [simp]: "show_int m = show_int n \<longleftrightarrow> m = n"
proof
  assume eq: "show_int m = show_int n"
  have head: "CHR ''-'' # xs \<noteq> show_nat k" for xs k
    using minus_notin_show_nat [of k] by (metis list.set_intros(1))
  show "m = n"
    using eq head head [symmetric] by (auto simp: show_int_def split: if_splits)
qed simp

section \<open>Generic facts\<close>

lemma take_Suc_drop: "i < length xs \<Longrightarrow> xs ! i # drop (Suc i) xs = drop i xs"
  by (simp add: Cons_nth_drop_Suc)

lemma of_nat_add_word [simp]: "(of_nat (m + n) :: 'a::len word) = of_nat m + of_nat n"
  by simp

lemma sint_of_nat_small: "n < 2 ^ 63 \<Longrightarrow> sint (of_nat n :: 64 word) = int n"
  by (simp add: signed_of_nat signed_take_bit_int_eq_self)

lemma fold_const [simp]: "fold (\<lambda>_ s. s) xs s = s"
  by (induction xs) auto

section \<open>Maximal runs\<close>

text \<open>
  The maximal runs of elements that do not satisfy \<open>p\<close>, in order: what \<open>strings.FieldsFunc\<close>
  returns, and what a word counter counts.
\<close>

function field_runs :: "('a \<Rightarrow> bool) \<Rightarrow> 'a list \<Rightarrow> 'a list list" where
  "field_runs p [] = []"
| "field_runs p (x # xs) =
     (if p x then field_runs p xs
      else (x # takeWhile (\<lambda>y. \<not> p y) xs) # field_runs p (dropWhile (\<lambda>y. \<not> p y) xs))"
  by pat_completeness auto
termination
  by (relation "measure (\<lambda>(p, xs). length xs)") (auto simp: le_imp_less_Suc length_dropWhile_le)

lemma filter_takeWhile: "filter p (takeWhile p xs) = takeWhile p xs"
  by (induction xs) auto

lemma filter_split_while: "takeWhile p xs @ filter p (dropWhile p xs) = filter p xs"
  by (induction xs) auto

lemma concat_field_runs: "concat (field_runs p xs) = filter (\<lambda>y. \<not> p y) xs"
  by (induction p xs rule: field_runs.induct) (simp_all add: filter_split_while)

lemma field_runs_nonempty: "f \<in> set (field_runs p xs) \<Longrightarrow> f \<noteq> []"
  by (induction p xs rule: field_runs.induct) (auto split: if_splits)

lemma field_runs_clean: "f \<in> set (field_runs p xs) \<Longrightarrow> y \<in> set f \<Longrightarrow> \<not> p y"
  by (induction p xs rule: field_runs.induct) (auto split: if_splits dest: set_takeWhileD)

lemma field_runs_all_clean: "xs \<noteq> [] \<Longrightarrow> \<forall>x \<in> set xs. \<not> p x \<Longrightarrow> field_runs p xs = [xs]"
proof (cases xs)
  case (Cons x ys)
  moreover assume "\<forall>x \<in> set xs. \<not> p x"
  ultimately have "takeWhile (\<lambda>y. \<not> p y) ys = ys" "dropWhile (\<lambda>y. \<not> p y) ys = []" "\<not> p x"
    by (simp_all add: takeWhile_eq_all_conv dropWhile_eq_Nil_conv)
  then show ?thesis by (simp only: Cons field_runs.simps if_False)
qed simp

lemma field_runs_append_sep: "p y \<Longrightarrow> field_runs p (xs @ y # ys) = field_runs p xs @ field_runs p ys"
proof (induction p xs rule: field_runs.induct)
  case (2 p x xs)
  show ?case
  proof (cases "p x")
    case True
    with 2 show ?thesis by simp
  next
    case False
    have t: "takeWhile (\<lambda>z. \<not> p z) (xs @ y # ys) = takeWhile (\<lambda>z. \<not> p z) xs"
      and d: "dropWhile (\<lambda>z. \<not> p z) (xs @ y # ys) = dropWhile (\<lambda>z. \<not> p z) xs @ y # ys"
      using "2.prems" by (induction xs) auto
    from False "2.IH"(2) "2.prems" show ?thesis by (simp add: t d)
  qed
qed simp

lemma field_runs_snoc_sep: "p y \<Longrightarrow> field_runs p (xs @ [y]) = field_runs p xs"
  using field_runs_append_sep [of p y xs "[]"] by simp

text \<open>
  Rejoining the runs with one separator and splitting again gives the same runs.
\<close>

lemma field_runs_join:
  assumes "p s" and "\<forall>f \<in> set fs. f \<noteq> [] \<and> (\<forall>x \<in> set f. \<not> p x)"
  shows "field_runs p (concat (map (\<lambda>f. f @ [s]) fs)) = fs"
  using assms(2)
proof (induction fs)
  case (Cons f fs)
  then have "field_runs p (f @ s # concat (map (\<lambda>f. f @ [s]) fs)) = [f] @ fs"
    using field_runs_append_sep [of p s f, OF assms(1)] field_runs_all_clean [of f p] by simp
  then show ?case by simp
qed simp

text \<open>The number of runs, as a scanner with an \<open>in run\<close> flag counts them.\<close>

fun count_runs :: "('a \<Rightarrow> bool) \<Rightarrow> bool \<Rightarrow> 'a list \<Rightarrow> nat" where
  "count_runs p inw [] = 0"
| "count_runs p inw (x # xs) =
     (if p x then count_runs p False xs
      else if inw then count_runs p True xs else Suc (count_runs p True xs))"

lemma count_runs_in_run:
  "count_runs p True xs = count_runs p False (dropWhile (\<lambda>y. \<not> p y) xs)"
  by (induction xs) auto

lemma count_runs_field_runs: "count_runs p False xs = length (field_runs p xs)"
  by (induction p xs rule: field_runs.induct) (simp_all add: count_runs_in_run)

section \<open>Lists of processes\<close>

text \<open>
  A pool of goroutines is a list of program counters, and a step updates one element.  What such an
  update does to a count, to a sum of contributions and to a filtered set.
\<close>

definition number :: "('a \<Rightarrow> bool) \<Rightarrow> 'a list \<Rightarrow> nat" where
  "number P xs = length (filter P xs)"

lemma number_update:
  "i < length xs \<Longrightarrow> number P (xs[i := y]) + of_bool (P (xs ! i)) = number P xs + of_bool (P y)"
proof (induction xs arbitrary: i)
  case (Cons x xs)
  then show ?case by (cases i) (auto simp: number_def)
qed simp

lemma sum_list_update:
  fixes f :: "'a \<Rightarrow> 'b :: comm_monoid_add"
  shows "i < length xs \<Longrightarrow> sum_list (map f (xs[i := y])) + f (xs ! i) = sum_list (map f xs) + f y"
proof (induction xs arbitrary: i)
  case (Cons x xs)
  then show ?case by (cases i) (auto simp: ac_simps)
qed simp

lemma filter_set_update:
  assumes "i < length xs" and "\<not> P (xs ! i)"
  shows "{p \<in> set (xs[i := q]). P p} = {p \<in> set xs. P p} \<union> (if P q then {q} else {})"
proof -
  have "p \<in> set (xs[i := q])" if p: "p \<in> set xs" "P p" for p
  proof -
    obtain j where j: "j < length xs" "xs ! j = p" using p(1) by (auto simp: in_set_conv_nth)
    then have "j \<noteq> i" using assms(2) p(2) by auto
    then show ?thesis using j by (metis length_list_update nth_list_update_neq nth_mem)
  qed
  moreover have "q \<in> set (xs[i := q])" using assms(1) by (rule set_update_memI)
  ultimately show ?thesis using set_update_subset_insert [of xs i q] by auto
qed


section \<open>Programs that come to rest\<close>

text \<open>
  A step relation with a count of the work left: what its users know is that every run ends, and that some run of
  every state leads to one that can make no step.
\<close>

locale measured =
  fixes step :: "'s \<Rightarrow> 's \<Rightarrow> bool" and work :: "'s \<Rightarrow> nat"
  assumes step_work: "step s t \<Longrightarrow> work t < work s"
begin

lemma comes_to_rest: "\<exists>t. rtranclp step s t \<and> (\<nexists>u. step t u)"
proof (induction s rule: measure_induct_rule [where f = work])
  case (less s)
  show ?case
  proof (cases "\<exists>u. step s u")
    case True
    then obtain u where u: "step s u" ..
    from less [OF step_work [OF u]] obtain t where "rtranclp step u t" "\<nexists>v. step t v" by blast
    with u show ?thesis by (meson converse_rtranclp_into_rtranclp)
  qed blast
qed

lemma run_length: "(\<And>i. i < n \<Longrightarrow> step (run i) (run (Suc i))) \<Longrightarrow> work (run n) + n \<le> work (run 0)"
proof (induction n)
  case (Suc n)
  then have "work (run n) + n \<le> work (run 0)" "work (run (Suc n)) < work (run n)" by (simp, simp add: step_work)
  then show ?case by simp
qed simp

lemma no_infinite_run: "\<not> (\<forall>i. step (run i) (run (Suc i)))"
proof
  assume "\<forall>i. step (run i) (run (Suc i))"
  then have "work (run (Suc (work (run 0)))) + Suc (work (run 0)) \<le> work (run 0)" by (intro run_length) simp
  then show False by simp
qed

end

end
