(* ===== verification/Go_Utf8.thy ===== *)
theory Go_Utf8
  imports Go_Prelude
begin

text \<open>
  The part of Go's \<open>unicode/utf8\<close> that the programs use: \<open>utf8.DecodeRune\<close> with its treatment of
  invalid and truncated sequences (the replacement rune with width 1), \<open>utf8.AppendRune\<close>, and the
  rune sequence that a decode loop or a \<open>range\<close> over a string visits.  The lemmas give the width
  bounds that make decode loops terminate, the encode/decode round trip, and that decoding never
  looks across an ASCII byte.
\<close>

section \<open>Decoding\<close>

type_synonym rune = nat

definition rune_error :: rune where
  "rune_error = 0xFFFD"

definition cont :: "byte \<Rightarrow> bool" where
  "cont b \<longleftrightarrow> 0x80 \<le> b \<and> b \<le> 0xBF"

text \<open>The accepted range of the second byte of a multi-byte sequence (\<open>acceptRanges\<close>).\<close>

definition accept2 :: "byte \<Rightarrow> byte \<Rightarrow> bool" where
  "accept2 b0 b1 \<longleftrightarrow>
     (if b0 = 0xE0 then 0xA0 else if b0 = 0xF0 then 0x90 else 0x80) \<le> b1 \<and>
     b1 \<le> (if b0 = 0xED then 0x9F else if b0 = 0xF4 then 0x8F else 0xBF)"

definition low6 :: "byte \<Rightarrow> nat" where
  "low6 b = unat b - 0x80"

fun decode_rune :: "bytes \<Rightarrow> rune \<times> nat" where
  "decode_rune [] = (rune_error, 0)"
| "decode_rune (b0 # bs) =
     (if b0 < 0x80 then (unat b0, 1)
      else if 0xC2 \<le> b0 \<and> b0 \<le> 0xDF then
        (case bs of
           b1 # _ \<Rightarrow> if cont b1 then ((unat b0 - 0xC0) * 64 + low6 b1, 2) else (rune_error, 1)
         | _ \<Rightarrow> (rune_error, 1))
      else if 0xE0 \<le> b0 \<and> b0 \<le> 0xEF then
        (case bs of
           b1 # b2 # _ \<Rightarrow>
             if accept2 b0 b1 \<and> cont b2
             then ((unat b0 - 0xE0) * 4096 + low6 b1 * 64 + low6 b2, 3) else (rune_error, 1)
         | _ \<Rightarrow> (rune_error, 1))
      else if 0xF0 \<le> b0 \<and> b0 \<le> 0xF4 then
        (case bs of
           b1 # b2 # b3 # _ \<Rightarrow>
             if accept2 b0 b1 \<and> cont b2 \<and> cont b3
             then ((unat b0 - 0xF0) * 262144 + low6 b1 * 4096 + low6 b2 * 64 + low6 b3, 4)
             else (rune_error, 1)
         | _ \<Rightarrow> (rune_error, 1))
      else (rune_error, 1))"

lemma decode_rune_width:
  "bs \<noteq> [] \<Longrightarrow> 1 \<le> snd (decode_rune bs) \<and> snd (decode_rune bs) \<le> length bs"
  by (cases bs) (auto split: list.splits)

lemma decode_rune_width_pos [simp]: "0 < snd (decode_rune (b # bs))"
  using decode_rune_width [of "b # bs"] by simp

text \<open>One round of a decode loop shortens the slice; the termination fact of every such loop.\<close>

lemma decode_rune_shrinks:
  "decode_rune (b # bs) = (r, n) \<Longrightarrow> Suc (length bs) - n \<le> length bs"
  using decode_rune_width_pos [of b bs] by (simp del: decode_rune_width_pos)

lemma decode_rune_width_le4: "snd (decode_rune bs) \<le> 4"
  by (cases bs) (auto split: list.splits)

lemma decode_rune_ascii [simp]: "b < 0x80 \<Longrightarrow> decode_rune (b # bs) = (unat b, 1)"
  by simp

declare decode_rune.simps(2) [simp del]

text \<open>
  The runes visited by \<open>for len(s) > 0 { r, size := utf8.DecodeRune(s); ...; s = s[size:] }\<close>.
\<close>

function runes_of :: "bytes \<Rightarrow> rune list" where
  "runes_of [] = []"
| "runes_of (b # bs) =
     (let (r, n) = decode_rune (b # bs) in r # runes_of (drop n (b # bs)))"
  by pat_completeness auto
termination
proof (relation "measure length", goal_cases)
  case 1
  then show ?case by simp
next
  case (2 b bs x r n)
  then have "n = snd (decode_rune (b # bs))" by (metis snd_conv)
  then show ?case using decode_rune_width_pos [of b bs] by simp
qed

text \<open>Induction along a decode loop.\<close>

lemma decode_induct [case_names Nil Cons]:
  assumes "P []"
    and "\<And>b bs. P (drop (snd (decode_rune (b # bs))) (b # bs)) \<Longrightarrow> P (b # bs)"
  shows "P bs"
proof (induction bs rule: runes_of.induct)
  case (2 b bs)
  from "2" [OF refl prod.collapse] show ?case by (rule assms(2))
qed (rule assms(1))

lemma runes_of_Cons:
  "runes_of (b # bs) = fst (decode_rune (b # bs)) # runes_of (drop (snd (decode_rune (b # bs))) (b # bs))"
  by (simp add: case_prod_beta)

lemma runes_of_step:
  "bs \<noteq> [] \<Longrightarrow> runes_of bs = fst (decode_rune bs) # runes_of (drop (snd (decode_rune bs)) bs)"
  by (cases bs) (simp_all only: runes_of_Cons, simp)

lemma length_runes_of: "length (runes_of bs) \<le> length bs"
proof (induction bs rule: decode_induct)
  case (Cons b bs)
  let ?n = "snd (decode_rune (b # bs))"
  have "length (drop ?n (b # bs)) \<le> length bs"
    using decode_rune_width_pos [of b bs] by (simp del: decode_rune_width_pos)
  with Cons show ?case unfolding runes_of_Cons by simp
qed simp

lemma runes_of_ascii: "\<forall>b \<in> set bs. b < 0x80 \<Longrightarrow> runes_of bs = map unat bs"
  by (induction bs) auto

section \<open>Decoding stops at an ASCII byte\<close>

text \<open>
  A sequence cut off by the end of the slice and one cut off by an ASCII byte are the same to the
  decoder: both are invalid, and give the replacement rune with width 1.
\<close>

lemma ascii_not_cont: "b < 0x80 \<Longrightarrow> \<not> cont b"
  by (simp add: cont_def word_le_nat_alt word_less_nat_alt)

lemma ascii_not_accept2: "b < 0x80 \<Longrightarrow> \<not> accept2 b0 b"
proof -
  assume b: "b < 0x80"
  have "\<not> 0xA0 \<le> b" "\<not> 0x90 \<le> b" "\<not> 0x80 \<le> b"
    using b by (simp_all add: word_le_nat_alt word_less_nat_alt)
  then show ?thesis by (simp add: accept2_def)
qed

lemma decode_rune_boundary:
  assumes "b < 0x80" and "xs \<noteq> []"
  shows "decode_rune (xs @ b # ys) = decode_rune xs"
proof -
  note no = ascii_not_cont [OF assms(1)] ascii_not_accept2 [OF assms(1)]
  from assms(2) obtain b0 xs1 where xs: "xs = b0 # xs1" by (cases xs) auto
  consider (z) "xs1 = []" | (o1) b1 where "xs1 = [b1]" | (t) b1 b2 where "xs1 = [b1, b2]"
    | (m) b1 b2 b3 r where "xs1 = b1 # b2 # b3 # r"
    by (metis list.exhaust)
  then show ?thesis
    by cases (auto simp: xs no decode_rune.simps(2) split: list.splits)
qed

lemma runes_of_append_ascii:
  assumes "b < 0x80"
  shows "runes_of (xs @ b # ys) = runes_of xs @ unat b # runes_of ys"
proof (induction xs rule: decode_induct)
  case Nil
  with assms show ?case by simp
next
  case (Cons x xs)
  let ?n = "snd (decode_rune (x # xs))"
  have eq: "decode_rune ((x # xs) @ b # ys) = decode_rune (x # xs)"
    using decode_rune_boundary [OF assms, of "x # xs" ys] by simp
  have le: "?n \<le> length (x # xs)" using decode_rune_width [of "x # xs"] by simp
  have "runes_of ((x # xs) @ b # ys) = fst (decode_rune (x # xs)) # runes_of (drop ?n ((x # xs) @ b # ys))"
    using eq by (subst runes_of_step) simp_all
  also have "drop ?n ((x # xs) @ b # ys) = drop ?n (x # xs) @ b # ys"
    using le unfolding drop_append by simp
  finally show ?case
    by (simp only: Cons runes_of_Cons append_Cons)
qed

section \<open>Encoding and the round trip\<close>

definition valid_rune :: "rune \<Rightarrow> bool" where
  "valid_rune r \<longleftrightarrow> r < 0xD800 \<or> 0xE000 \<le> r \<and> r \<le> 0x10FFFF"

definition encode_rune :: "rune \<Rightarrow> bytes" where
  "encode_rune r =
     (if r < 0x80 then [of_nat r]
      else if r < 0x800 then [of_nat (0xC0 + r div 64), of_nat (0x80 + r mod 64)]
      else if \<not> valid_rune r then [0xEF, 0xBF, 0xBD]
      else if r < 0x10000 then
        [of_nat (0xE0 + r div 4096), of_nat (0x80 + r div 64 mod 64), of_nat (0x80 + r mod 64)]
      else
        [of_nat (0xF0 + r div 262144), of_nat (0x80 + r div 4096 mod 64),
         of_nat (0x80 + r div 64 mod 64), of_nat (0x80 + r mod 64)])"

definition encode_runes :: "rune list \<Rightarrow> bytes" where
  "encode_runes rs = concat (map encode_rune rs)"

lemma encode_runes_simps [simp]:
  "encode_runes [] = []"
  "encode_runes (r # rs) = encode_rune r @ encode_runes rs"
  "encode_runes (xs @ ys) = encode_runes xs @ encode_runes ys"
  by (simp_all add: encode_runes_def)

lemma encode_rune_nonempty [simp]: "encode_rune r \<noteq> []"
  by (simp add: encode_rune_def)

lemma unat_byte [simp]: "n < 256 \<Longrightarrow> unat (of_nat n :: byte) = n"
  by (simp add: unat_of_nat)

text \<open>Tests on bytes as tests on their values.\<close>

lemma cont_unat: "cont b \<longleftrightarrow> 0x80 \<le> unat b \<and> unat b \<le> 0xBF"
  by (simp add: cont_def word_le_nat_alt)

lemma accept2_unat:
  "accept2 b0 b1 \<longleftrightarrow>
     (if unat b0 = 0xE0 then 0xA0 else if unat b0 = 0xF0 then 0x90 else 0x80) \<le> unat b1 \<and>
     unat b1 \<le> (if unat b0 = 0xED then 0x9F else if unat b0 = 0xF4 then 0x8F else 0xBF)"
  by (simp add: accept2_def word_le_nat_alt word_unat_eq_iff)

lemma split_64_2: "r div 4096 * 4096 + r div 64 mod 64 * 64 + r mod 64 = (r :: nat)"
proof -
  have "r div 64 div 64 * 64 + r div 64 mod 64 = r div 64" and "r div 64 * 64 + r mod 64 = r"
    by (simp_all only: div_mult_mod_eq)
  moreover have "r div 64 div 64 = r div 4096" by (simp add: div_mult2_eq [symmetric])
  ultimately show ?thesis by linarith
qed

lemma split_64_3:
  "r div 262144 * 262144 + r div 4096 mod 64 * 4096 + r div 64 mod 64 * 64 + r mod 64 = (r :: nat)"
proof -
  have "r div 4096 div 64 * 64 + r div 4096 mod 64 = r div 4096" by (simp only: div_mult_mod_eq)
  moreover have "r div 4096 div 64 = r div 262144" by (simp add: div_mult2_eq [symmetric])
  ultimately show ?thesis using split_64_2 [of r] by linarith
qed

lemmas byte_tests = word_le_nat_alt word_less_nat_alt cont_unat accept2_unat low6_def

lemma decode_encode_2:
  assumes "0x80 \<le> r" "r < 0x800"
  shows "decode_rune (encode_rune r @ rest) = (r, length (encode_rune r))"
proof -
  from assms have h: "0xC2 \<le> 0xC0 + r div 64" "0xC0 + r div 64 \<le> 0xDF" by auto
  then have b0: "unat (of_nat (0xC0 + r div 64) :: byte) = 0xC0 + r div 64" by (intro unat_byte) auto
  have b1: "unat (of_nat (0x80 + r mod 64) :: byte) = 0x80 + r mod 64"
    using mod_less_divisor [of 64 r] by (intro unat_byte) linarith
  show ?thesis
    using assms h b0 b1
    by (simp del: of_nat_add of_nat_add_word add: encode_rune_def decode_rune.simps(2) byte_tests)
qed

lemma decode_encode_3:
  assumes "0x800 \<le> r" "r < 0x10000" "valid_rune r"
  shows "decode_rune (encode_rune r @ rest) = (r, length (encode_rune r))"
proof -
  let ?q = "r div 4096" and ?m = "r div 64 mod 64" and ?l = "r mod 64"
  have q: "?q \<le> 15" and l: "?l \<le> 63" and m: "?m \<le> 63" using assms by auto
  have b0: "unat (of_nat (0xE0 + ?q) :: byte) = 0xE0 + ?q" using q by (intro unat_byte) linarith
  have b1: "unat (of_nat (0x80 + ?m) :: byte) = 0x80 + ?m" using m by (intro unat_byte) linarith
  have b2: "unat (of_nat (0x80 + ?l) :: byte) = 0x80 + ?l" using l by (intro unat_byte) linarith
  have eq: "?q * 4096 + ?m * 64 + ?l = r" by (rule split_64_2)
  have lo: "?q = 0 \<Longrightarrow> 32 \<le> ?m" using assms(1) eq l by linarith
  have hi: "?q = 13 \<Longrightarrow> ?m \<le> 31" using assms(3) eq l unfolding valid_rune_def by linarith
  have acc: "accept2 (of_nat (0xE0 + ?q)) (of_nat (0x80 + ?m))"
    unfolding accept2_unat b0 b1 using q m lo hi by auto
  have con: "cont (of_nat (0x80 + ?l))"
    unfolding cont_unat b2 using l by simp
  have w: "low6 (of_nat (0x80 + ?m)) = ?m" "low6 (of_nat (0x80 + ?l)) = ?l"
    by (simp_all only: low6_def b1 b2)
  have cls: "\<not> (of_nat (0xE0 + ?q) :: byte) < 0x80" "\<not> (of_nat (0xE0 + ?q) :: byte) \<le> 0xDF"
    "(0xE0 :: byte) \<le> of_nat (0xE0 + ?q)" "(of_nat (0xE0 + ?q) :: byte) \<le> 0xEF"
    unfolding word_le_nat_alt word_less_nat_alt b0 using q by simp_all
  have "encode_rune r = [of_nat (0xE0 + ?q), of_nat (0x80 + ?m), of_nat (0x80 + ?l)]"
    using assms unfolding encode_rune_def by simp
  then show ?thesis
    using acc con w cls eq b0
    by (simp del: of_nat_add of_nat_add_word add: decode_rune.simps(2))
qed

lemma decode_encode_4:
  assumes "0x10000 \<le> r" "r \<le> 0x10FFFF"
  shows "decode_rune (encode_rune r @ rest) = (r, length (encode_rune r))"
proof -
  let ?q = "r div 262144" and ?k = "r div 4096 mod 64" and ?m = "r div 64 mod 64" and ?l = "r mod 64"
  have q: "?q \<le> 4" and l: "?l \<le> 63" and m: "?m \<le> 63" and k: "?k \<le> 63" using assms by auto
  have b0: "unat (of_nat (0xF0 + ?q) :: byte) = 0xF0 + ?q" using q by (intro unat_byte) linarith
  have b1: "unat (of_nat (0x80 + ?k) :: byte) = 0x80 + ?k" using k by (intro unat_byte) linarith
  have b2: "unat (of_nat (0x80 + ?m) :: byte) = 0x80 + ?m" using m by (intro unat_byte) linarith
  have b3: "unat (of_nat (0x80 + ?l) :: byte) = 0x80 + ?l" using l by (intro unat_byte) linarith
  have eq: "?q * 262144 + ?k * 4096 + ?m * 64 + ?l = r" by (rule split_64_3)
  have lo: "?q = 0 \<Longrightarrow> 16 \<le> ?k" using assms(1) eq l m by linarith
  have hi: "?q = 4 \<Longrightarrow> ?k \<le> 15" using assms(2) eq l m by linarith
  have acc: "accept2 (of_nat (0xF0 + ?q)) (of_nat (0x80 + ?k))"
    unfolding accept2_unat b0 b1 using q k lo hi by auto
  have con: "cont (of_nat (0x80 + ?m))" "cont (of_nat (0x80 + ?l))"
    unfolding cont_unat b2 b3 using l m by simp_all
  have w: "low6 (of_nat (0x80 + ?k)) = ?k" "low6 (of_nat (0x80 + ?m)) = ?m" "low6 (of_nat (0x80 + ?l)) = ?l"
    by (simp_all only: low6_def b1 b2 b3)
  have cls: "\<not> (of_nat (0xF0 + ?q) :: byte) < 0x80" "\<not> (of_nat (0xF0 + ?q) :: byte) \<le> 0xDF"
    "\<not> (of_nat (0xF0 + ?q) :: byte) \<le> 0xEF" "(0xF0 :: byte) \<le> of_nat (0xF0 + ?q)"
    "(of_nat (0xF0 + ?q) :: byte) \<le> 0xF4"
    unfolding word_le_nat_alt word_less_nat_alt b0 using q by simp_all
  have "encode_rune r = [of_nat (0xF0 + ?q), of_nat (0x80 + ?k), of_nat (0x80 + ?m), of_nat (0x80 + ?l)]"
    using assms unfolding encode_rune_def by (simp add: valid_rune_def)
  then show ?thesis
    using acc con w cls eq b0
    by (simp del: of_nat_add of_nat_add_word add: decode_rune.simps(2))
qed

lemma decode_encode_rune:
  assumes "valid_rune r"
  shows "decode_rune (encode_rune r @ rest) = (r, length (encode_rune r))"
proof -
  consider (a) "r < 0x80" | (b) "0x80 \<le> r" "r < 0x800" | (c) "0x800 \<le> r" "r < 0x10000"
    | (d) "0x10000 \<le> r" by linarith
  then show ?thesis
  proof cases
    case a
    then show ?thesis by (simp add: encode_rune_def decode_rune.simps(2) word_less_nat_alt)
  qed (use assms decode_encode_2 decode_encode_3 decode_encode_4 in \<open>auto simp: valid_rune_def\<close>)
qed

lemma runes_of_encode_append:
  "valid_rune r \<Longrightarrow> runes_of (encode_rune r @ bs) = r # runes_of bs"
  by (subst runes_of_step) (simp_all add: decode_encode_rune)

lemma runes_of_encode_runes [simp]:
  "\<forall>r \<in> set rs. valid_rune r \<Longrightarrow> runes_of (encode_runes rs) = rs"
  by (induction rs) (simp_all add: runes_of_encode_append)

text \<open>Every decoded rune is a valid one: invalid input decodes to the replacement rune.\<close>

lemma unat_byte_le: "unat (b :: byte) \<le> 255"
  using unsigned_less [of b, where 'a = nat] by simp

lemma valid_3:
  assumes "0xE0 \<le> n" "n \<le> 0xEF" "n = 0xED \<Longrightarrow> k \<le> 31" "k \<le> 63" "l \<le> 63"
  shows "valid_rune ((n - 0xE0) * 4096 + k * 64 + l)"
proof -
  from assms(1) obtain d where n: "n = 0xE0 + d" using le_Suc_ex by blast
  have "d \<le> 12 \<or> d = 13 \<or> 14 \<le> d" by linarith
  then show ?thesis
    using assms unfolding n valid_rune_def by auto
qed

lemma valid_4:
  assumes "0xF0 \<le> n" "n \<le> 0xF4" "n = 0xF0 \<Longrightarrow> 16 \<le> j" "n = 0xF4 \<Longrightarrow> j \<le> 15"
    "j \<le> 63" "k \<le> 63" "l \<le> 63"
  shows "valid_rune ((n - 0xF0) * 262144 + j * 4096 + k * 64 + l)"
proof -
  from assms(1) obtain d where n: "n = 0xF0 + d" using le_Suc_ex by blast
  have "d = 0 \<or> 1 \<le> d \<and> d \<le> 3 \<or> d = 4" using assms(2) n by linarith
  then show ?thesis
    using assms unfolding n valid_rune_def by auto
qed

lemma decode_rune_valid: "valid_rune (fst (decode_rune bs))"
proof (cases bs)
  case Nil
  then show ?thesis by (simp add: valid_rune_def rune_error_def)
next
  case (Cons b0 rest)
  have err: "valid_rune rune_error" by (simp add: valid_rune_def rune_error_def)
  have asc: "b0 < 0x80 \<Longrightarrow> valid_rune (unat b0)"
    by (simp add: valid_rune_def word_less_nat_alt)
  have two: "valid_rune ((unat b0 - 0xC0) * 64 + low6 b1)" if "b0 \<le> 0xDF" "cont b1" for b1
  proof -
    have "unat b0 - 0xC0 \<le> 0x1F" "low6 b1 \<le> 63"
      using that by (auto simp: byte_tests)
    then show ?thesis unfolding valid_rune_def by linarith
  qed
  have three: "valid_rune ((unat b0 - 0xE0) * 4096 + low6 b1 * 64 + low6 b2)"
    if "0xE0 \<le> b0" "b0 \<le> 0xEF" "accept2 b0 b1" "cont b2" for b1 b2
    using that by (intro valid_3) (auto simp: byte_tests split: if_splits)
  have four: "valid_rune ((unat b0 - 0xF0) * 262144 + low6 b1 * 4096 + low6 b2 * 64 + low6 b3)"
    if "0xF0 \<le> b0" "b0 \<le> 0xF4" "accept2 b0 b1" "cont b2" "cont b3" for b1 b2 b3
    using that by (intro valid_4) (auto simp: byte_tests split: if_splits)
  show ?thesis
    unfolding Cons decode_rune.simps(2)
    by (simp add: err asc two three four split: list.split)
qed

lemma runes_of_valid: "r \<in> set (runes_of bs) \<Longrightarrow> valid_rune r"
proof (induction bs rule: decode_induct)
  case (Cons b bs)
  then show ?case
    using decode_rune_valid [of "b # bs"] unfolding runes_of_Cons by auto
qed simp

end
