(* ===== verification/Wc_Lines.thy ===== *)
theory Wc_Lines
  imports Go_Utf8
begin

text \<open>
  \<open>wc-go/processing/line_processors.go\<close>: the three line processors.  Each keeps one counter, its
  \<open>Process\<close> decodes the line with \<open>utf8.DecodeRune\<close> without allocating, and its \<open>Count\<close> reads the
  counter.  The locale \<open>line_processor\<close> is the Go interface \<open>LineProcessor\<close> with the law every
  implementation keeps: a line adds its weight to the counter, whatever was processed before.
\<close>

section \<open>State\<close>

record word_count_processor =
  wc_counter :: go_int

record line_count_processor =
  lc_counter :: go_int

record character_count_processor =
  cc_counter :: go_int

section \<open>Operations\<close>

definition is_space :: "rune \<Rightarrow> bool" where
  "is_space r \<longleftrightarrow> r \<in> {32, 9, 10, 11, 12, 13}"

function word_loop :: "bytes \<Rightarrow> bool \<Rightarrow> go_int \<Rightarrow> go_int" where
  "word_loop [] inWord words = words"
| "word_loop (b # bs) inWord words =
     (let (r, size) = decode_rune (b # bs) in
      if is_space r then word_loop (drop size (b # bs)) False words
      else if \<not> inWord then word_loop (drop size (b # bs)) True (words + 1)
      else word_loop (drop size (b # bs)) inWord words)"
  by pat_completeness auto
termination
  by (relation "measure (\<lambda>(l, i, w). length l)")
    (auto simp: less_Suc_eq_le dest!: sym [of "(_, _)"] dest: decode_rune_shrinks)

definition wc_process :: "word_count_processor \<Rightarrow> bytes \<Rightarrow> word_count_processor" where
  "wc_process p line = p\<lparr>wc_counter := wc_counter p + word_loop line False 0\<rparr>"

definition wc_count :: "word_count_processor \<Rightarrow> go_int" where
  "wc_count p = wc_counter p"

definition lc_process :: "line_count_processor \<Rightarrow> bytes \<Rightarrow> line_count_processor" where
  "lc_process p line = p\<lparr>lc_counter := lc_counter p + 1\<rparr>"

definition lc_count :: "line_count_processor \<Rightarrow> go_int" where
  "lc_count p = lc_counter p"

function char_loop :: "bytes \<Rightarrow> go_int \<Rightarrow> go_int" where
  "char_loop [] n = n"
| "char_loop (b # bs) n =
     (let (_, size) = decode_rune (b # bs) in char_loop (drop size (b # bs)) (n + 1))"
  by pat_completeness auto
termination
  by (relation "measure (\<lambda>(l, c). length l)")
    (auto simp: less_Suc_eq_le dest!: sym [of "(_, _)"] dest: decode_rune_shrinks)

definition cc_process :: "character_count_processor \<Rightarrow> bytes \<Rightarrow> character_count_processor" where
  "cc_process p line = p\<lparr>cc_counter := cc_counter p + char_loop line 0\<rparr>"

definition cc_count :: "character_count_processor \<Rightarrow> go_int" where
  "cc_count p = cc_counter p"

text \<open>An interface value of type \<open>LineProcessor\<close>: one of the implementations, dispatched on.\<close>

datatype line_processor_value =
    WordCount word_count_processor
  | LineCount line_count_processor
  | CharacterCount character_count_processor

fun process_line :: "line_processor_value \<Rightarrow> bytes \<Rightarrow> line_processor_value" where
  "process_line (WordCount p) line = WordCount (wc_process p line)"
| "process_line (LineCount p) line = LineCount (lc_process p line)"
| "process_line (CharacterCount p) line = CharacterCount (cc_process p line)"

fun proc_count :: "line_processor_value \<Rightarrow> go_int" where
  "proc_count (WordCount p) = wc_count p"
| "proc_count (LineCount p) = lc_count p"
| "proc_count (CharacterCount p) = cc_count p"

text \<open>\<open>for _, processor := range lineProcessors { processor.Process(line) }\<close>\<close>

definition run_line :: "line_processor_value list \<Rightarrow> bytes \<Rightarrow> line_processor_value list" where
  "run_line lps line = map (\<lambda>p. process_line p line) lps"

section \<open>The interface and its law\<close>

locale line_processor =
  fixes process :: "'p \<Rightarrow> bytes \<Rightarrow> 'p"
    and cnt :: "'p \<Rightarrow> go_int"
    and weight :: "'p \<Rightarrow> bytes \<Rightarrow> nat"
  assumes count_process: "cnt (process p line) = cnt p + of_nat (weight p line)"
    and weight_process: "weight (process p line) = weight p"
begin

lemma weight_fold: "weight (fold (\<lambda>l p. process p l) ls p) = weight p"
  by (induction ls arbitrary: p) (simp_all add: weight_process)

lemma count_fold:
  "cnt (fold (\<lambda>l p. process p l) ls p) = cnt p + of_nat (sum_list (map (weight p) ls))"
  by (induction ls arbitrary: p) (simp_all add: count_process weight_process)

lemma count_no_overflow:
  "cnt p = of_nat c \<Longrightarrow> c + sum_list (map (weight p) ls) < 2 ^ 63 \<Longrightarrow>
   sint (cnt (fold (\<lambda>l p. process p l) ls p)) = int (c + sum_list (map (weight p) ls))"
  using sint_of_nat_small [of "c + sum_list (map (weight p) ls)"] by (simp add: count_fold)

end

section \<open>What a line weighs\<close>

definition words_in :: "bytes \<Rightarrow> nat" where
  "words_in line = length (field_runs is_space (runes_of line))"

definition chars_in :: "bytes \<Rightarrow> nat" where
  "chars_in line = length (runes_of line)"

lemma word_loop_count_runs:
  "word_loop line inw w = w + of_nat (count_runs is_space inw (runes_of line))"
proof (induction line arbitrary: inw w rule: decode_induct)
  case (Cons b bs)
  then show ?case by (simp add: case_prod_beta)
qed simp

lemma word_loop_words_in: "word_loop line False 0 = of_nat (words_in line)"
  by (simp add: word_loop_count_runs count_runs_field_runs words_in_def)

lemma char_loop_chars_in: "char_loop line c = c + of_nat (chars_in line)"
proof (induction line arbitrary: c rule: decode_induct)
  case (Cons b bs)
  then show ?case by (simp add: case_prod_beta chars_in_def)
qed (simp add: chars_in_def)

fun proc_weight :: "line_processor_value \<Rightarrow> bytes \<Rightarrow> nat" where
  "proc_weight (WordCount p) line = words_in line"
| "proc_weight (LineCount p) line = 1"
| "proc_weight (CharacterCount p) line = chars_in line"

interpretation wc: line_processor wc_process wc_count "\<lambda>_. words_in"
  by unfold_locales (simp_all add: wc_process_def wc_count_def word_loop_words_in)

interpretation lc: line_processor lc_process lc_count "\<lambda>_ _. 1"
  by unfold_locales (simp_all add: lc_process_def lc_count_def)

interpretation cc: line_processor cc_process cc_count "\<lambda>_. chars_in"
  by unfold_locales (simp_all add: cc_process_def cc_count_def char_loop_chars_in)

lemma process_line_weight: "proc_weight (process_line p line) = proc_weight p"
  by (cases p) (auto simp: fun_eq_iff)

interpretation lpv: line_processor process_line proc_count proc_weight
proof
  show "proc_count (process_line p line) = proc_count p + of_nat (proc_weight p line)" for p line
    by (cases p) (simp_all add: wc.count_process lc.count_process cc.count_process)
qed (rule process_line_weight)

text \<open>A list of processors runs each of them over all lines.\<close>

lemma fold_run_line:
  "fold (\<lambda>l ps. run_line ps l) ls lps = map (\<lambda>p. fold (\<lambda>l p. process_line p l) ls p) lps"
  by (induction ls arbitrary: lps) (simp_all add: run_line_def)

end
