(* ===== verification/Go_Scan.thy ===== *)
theory Go_Scan
  imports Go_Prelude
begin

text \<open>
  \<open>bufio.Scanner\<close> with its default split function \<open>ScanLines\<close> and its default buffer: the tokens it
  delivers from a stream, and whether it gives up because a line does not fit its buffer
  (\<open>ErrTooLong\<close>).  \<open>bufio.Writer\<close> with its default buffer, over a file on a disk that may fill up.
\<close>

section \<open>Scanner\<close>

definition max_scan_token :: nat where
  "max_scan_token = 64 * 1024"

definition drop_cr :: "bytes \<Rightarrow> bytes" where
  "drop_cr s = (if s \<noteq> [] \<and> last s = cr then butlast s else s)"

function scan_tokens :: "bytes \<Rightarrow> bytes list \<times> bool" where
  "scan_tokens data =
     (let line = takeWhile (\<lambda>b. b \<noteq> nl) data; rest = dropWhile (\<lambda>b. b \<noteq> nl) data
      in if length line \<ge> max_scan_token then ([], True)
         else if rest \<noteq> [] then (case scan_tokens (tl rest) of (ls, e) \<Rightarrow> (drop_cr line # ls, e))
         else if data = [] then ([], False)
         else ([drop_cr data], False))"
  by pat_completeness auto
termination
proof (relation "measure length", goal_cases)
  case (2 data line rest)
  then have "0 < length rest" "length rest \<le> length data"
    by (simp_all only: length_greater_0_conv length_dropWhile_le) simp
  then have "length (tl rest) < length data" by (simp only: length_tl)
  then show ?case by simp
qed simp

declare scan_tokens.simps [simp del]

lemma scan_tokens_Nil [simp]: "scan_tokens [] = ([], False)"
  by (subst scan_tokens.simps) (simp add: max_scan_token_def)

lemma drop_cr_id: "cr \<notin> set s \<Longrightarrow> drop_cr s = s"
  by (metis drop_cr_def last_in_set)

lemma scan_line:
  assumes "nl \<notin> set l"
  shows "scan_tokens (l @ nl # rest) =
    (if length l < max_scan_token then (drop_cr l # fst (scan_tokens rest), snd (scan_tokens rest)) else ([], True))"
proof -
  have "takeWhile (\<lambda>b. b \<noteq> nl) (l @ nl # rest) = l" "dropWhile (\<lambda>b. b \<noteq> nl) (l @ nl # rest) = nl # rest"
    using assms by (induction l) auto
  then show ?thesis by (subst scan_tokens.simps) (simp add: Let_def case_prod_beta)
qed

text \<open>
  Lines written one after another come back up to the first that is too long, after which nothing
  does.
\<close>

lemma scan_lines:
  assumes "\<forall>l \<in> set ls. nl \<notin> set l \<and> cr \<notin> set l"
  shows "scan_tokens (concat (map (\<lambda>l. l @ [nl]) ls)) =
    (takeWhile (\<lambda>l. length l < max_scan_token) ls, \<exists>l \<in> set ls. max_scan_token \<le> length l)"
  using assms
proof (induction ls)
  case (Cons l ls)
  then show ?case by (auto simp: scan_line drop_cr_id)
qed simp

section \<open>Buffered writer\<close>

record file_writer =
  fw_disk :: bytes
  fw_buf :: bytes
  fw_err :: bool
  fw_space :: nat

definition writer_size :: nat where
  "writer_size = 4096"

text \<open>A write to the file: as much as fits on the disk, and an error when that is not all.\<close>

definition disk_write :: "bytes \<Rightarrow> file_writer \<Rightarrow> file_writer" where
  "disk_write s w =
     w\<lparr>fw_disk := fw_disk w @ take (fw_space w - length (fw_disk w)) s,
       fw_err := fw_err w \<or> fw_space w < length (fw_disk w) + length s\<rparr>"

definition writer_flush :: "file_writer \<Rightarrow> file_writer" where
  "writer_flush w =
     (if fw_err w \<or> fw_buf w = [] then w
      else
        (let w' = disk_write (fw_buf w) w
         in w'\<lparr>fw_buf := drop (fw_space w - length (fw_disk w)) (fw_buf w)\<rparr>))"

text \<open>\<open>WriteString\<close>: with an empty buffer a long string goes to the file directly.\<close>

definition write_string :: "bytes \<Rightarrow> file_writer \<Rightarrow> file_writer" where
  "write_string s w =
     (let room = writer_size - length (fw_buf w) in
      if fw_err w \<or> length s \<le> room then (if fw_err w then w else w\<lparr>fw_buf := fw_buf w @ s\<rparr>)
      else if fw_buf w = [] then disk_write s w
      else
        (let w' = writer_flush (w\<lparr>fw_buf := fw_buf w @ take room s\<rparr>); s' = drop room s in
         if fw_err w' then w'
         else if length s' \<le> writer_size then w'\<lparr>fw_buf := s'\<rparr>
         else disk_write s' w'))"

definition new_writer :: "nat \<Rightarrow> file_writer" where
  "new_writer space = \<lparr>fw_disk = [], fw_buf = [], fw_err = False, fw_space = space\<rparr>"

text \<open>
  What has been written: the disk holds its beginning, as long as the disk has space, and without an
  error the buffer holds all of the rest.
\<close>

definition writer_holds :: "bytes \<Rightarrow> file_writer \<Rightarrow> bool" where
  "writer_holds t w \<longleftrightarrow>
     length (fw_disk w) \<le> fw_space w \<and>
     (if fw_err w then fw_disk w = take (fw_space w) t \<and> fw_space w < length t else fw_disk w @ fw_buf w = t)"

lemma writer_holds_new: "writer_holds [] (new_writer n)"
  by (simp add: writer_holds_def new_writer_def)

lemma disk_write_holds:
  assumes "writer_holds t w" and "fw_buf w = []" and "\<not> fw_err w"
  shows "writer_holds (t @ s) (disk_write s w)"
  using assms by (auto simp: writer_holds_def disk_write_def)

lemma writer_flush_holds:
  assumes "writer_holds t w"
  shows "writer_holds t (writer_flush w)"
proof (cases "fw_err w \<or> fw_buf w = []")
  case True
  then have "writer_flush w = w" by (simp add: writer_flush_def)
  with assms show ?thesis by simp
next
  case False
  then have "fw_disk w @ fw_buf w = t" "length (fw_disk w) \<le> fw_space w"
    using assms by (auto simp: writer_holds_def)
  with False show ?thesis
    by (auto simp: writer_holds_def writer_flush_def disk_write_def Let_def)
qed

lemma writer_flush_empty: "\<not> fw_err (writer_flush w) \<Longrightarrow> fw_buf (writer_flush w) = []"
  by (auto simp: writer_flush_def disk_write_def Let_def split: if_splits)

lemma writer_flush_space [simp]: "fw_space (writer_flush w) = fw_space w"
  by (simp add: writer_flush_def disk_write_def Let_def)

lemma write_string_space [simp]: "fw_space (write_string s w) = fw_space w"
  by (simp add: write_string_def disk_write_def Let_def)

lemma write_string_holds:
  assumes "writer_holds t w"
  shows "writer_holds (t @ s) (write_string s w)"
proof (cases "fw_err w")
  case True
  with assms show ?thesis by (auto simp: write_string_def writer_holds_def Let_def)
next
  case ok: False
  let ?room = "writer_size - length (fw_buf w)"
  consider "length s \<le> ?room" | "\<not> length s \<le> ?room" "fw_buf w = []"
    | (full) "\<not> length s \<le> ?room" "fw_buf w \<noteq> []" by blast
  then show ?thesis
  proof cases
    case full
    define w1 where "w1 = w\<lparr>fw_buf := fw_buf w @ take ?room s\<rparr>"
    define w2 where "w2 = writer_flush w1"
    have "writer_holds (t @ take ?room s) w1"
      using assms ok by (auto simp: w1_def writer_holds_def)
    then have h2: "writer_holds (t @ take ?room s) w2" unfolding w2_def by (rule writer_flush_holds)
    have ts: "t @ s = (t @ take ?room s) @ drop ?room s" by simp
    have ws: "write_string s w = (if fw_err w2 then w2
        else if length (drop ?room s) \<le> writer_size then w2\<lparr>fw_buf := drop ?room s\<rparr>
        else disk_write (drop ?room s) w2)"
      using ok full by (simp add: write_string_def Let_def w1_def w2_def)
    show ?thesis
    proof (cases "fw_err w2")
      case True
      with h2 show ?thesis unfolding ws ts by (auto simp: writer_holds_def)
    next
      case False
      then have e: "fw_buf w2 = []" using writer_flush_empty unfolding w2_def by blast
      show ?thesis
        using h2 False e disk_write_holds [OF h2 e False, of "drop ?room s"]
        unfolding ws ts by (auto simp: writer_holds_def)
    qed
  qed (use assms ok disk_write_holds [OF assms _ ok, of s] in \<open>auto simp: write_string_def writer_holds_def Let_def\<close>)
qed

text \<open>After the last flush the file is what was written, cut off where the disk was full.\<close>

lemma writer_final: "writer_holds t w \<Longrightarrow> fw_disk (writer_flush w) = take (fw_space w) t"
  using writer_flush_holds [of t w] writer_flush_empty [of w]
  by (auto simp: writer_holds_def split: if_splits)

end
