(* ===== verification/Wc_Input.thy ===== *)
theory Wc_Input
  imports Wc_Lines Go_Scan
begin

text \<open>
  \<open>wc-go/processing/input_processors.go\<close> and \<open>wc-go/cmd/cli.go\<close>: the five strategies that feed an
  input to the line processors, their dispatch, and the command that prints the counts.  The
  processors are mutated in place by the code, so every function returns them next to the error.

  What the code takes from the standard library is modelled by its documented behaviour: a
  \<open>reader\<close> is the sequence of packets its \<open>Read\<close> delivers and the error that ends it;
  \<open>bufio.Scanner\<close> with \<open>ScanLines\<close> is \<open>scan_loop\<close>, whose buffer of \<open>MaxScanTokenSize\<close> bytes is
  full, and \<open>ErrTooLong\<close> raised, before a line of that length is found; a file gives the reader that
  \<open>os.Open\<close> returns and the bytes that \<open>Mmap\<close> maps.
\<close>

section \<open>Inputs and errors\<close>

datatype read_err = EOF | Read_Fail string

record reader =
  rd_chunks :: "bytes list"
  rd_end :: read_err

datatype wc_error =
    Reader_Nil
  | Path_Empty
  | Not_Exist string
  | Invalid_Path wc_error
  | Open_Failed wc_error
  | Os_Error string
  | Token_Too_Long
  | Path_Required string
  | Unknown_Processor string

record os_file =
  f_open_err :: "string option"
  f_stat_err :: "string option"
  f_mmap_err :: "string option"
  f_reader :: reader
  f_content :: bytes

record world =
  w_stdin :: reader
  w_fs :: "string \<rightharpoonup> os_file"

type_synonym wc_result = "line_processor_value list \<times> wc_error option"

text \<open>One \<open>Read(p)\<close> with \<open>len(p) = k\<close>: at most \<open>k\<close> bytes of the next packet.\<close>

fun read_one :: "nat \<Rightarrow> reader \<Rightarrow> (bytes \<times> read_err option) \<times> reader" where
  "read_one k r =
     (case rd_chunks r of
        [] \<Rightarrow> (([], Some (rd_end r)), r)
      | c # cs \<Rightarrow>
          if length c \<le> k then ((c, None), r\<lparr>rd_chunks := cs\<rparr>)
          else ((take k c, None), r\<lparr>rd_chunks := drop k c # cs\<rparr>))"

definition rd_bytes :: "reader \<Rightarrow> bytes" where
  "rd_bytes r = concat (rd_chunks r)"

definition bytes_reader :: "bytes \<Rightarrow> reader" where
  "bytes_reader data = \<lparr>rd_chunks = [data], rd_end = EOF\<rparr>"

definition read_all :: "reader \<Rightarrow> wc_error + bytes" where
  "read_all r = (case rd_end r of EOF \<Rightarrow> Inr (rd_bytes r) | Read_Fail m \<Rightarrow> Inl (Os_Error m))"

section \<open>Processing a byte slice\<close>

definition slice :: "'a list \<Rightarrow> nat \<Rightarrow> nat \<Rightarrow> 'a list" where
  "slice xs i j = take (j - i) (drop i xs)"

function pb_loop :: "bytes \<Rightarrow> nat \<Rightarrow> nat \<Rightarrow> line_processor_value list \<Rightarrow> nat \<times> line_processor_value list" where
  "pb_loop data i start lps =
     (if i < length data then
        (if data ! i = nl then
           (let end = (if i > start \<and> data ! (i - 1) = cr then i - 1 else i)
            in pb_loop data (i + 1) (i + 1) (run_line lps (slice data start end)))
         else pb_loop data (i + 1) start lps)
      else (start, lps))"
  by pat_completeness auto
termination
  by (relation "measure (\<lambda>(d, i, s, l). length d - i)") auto

declare pb_loop.simps [simp del]

definition process_bytes :: "bytes \<Rightarrow> line_processor_value list \<Rightarrow> wc_result" where
  "process_bytes data lps =
     (if length data = 0 then (lps, None)
      else
        (let (start, lps') = pb_loop data 0 0 lps
         in if start < length data then (run_line lps' (drop start data), None) else (lps', None)))"

section \<open>Processing with a scanner\<close>

definition scan_err :: "read_err \<Rightarrow> wc_error option" where
  "scan_err e = (case e of EOF \<Rightarrow> None | Read_Fail m \<Rightarrow> Some (Os_Error m))"

function scan_loop :: "bytes \<Rightarrow> read_err \<Rightarrow> line_processor_value list \<Rightarrow> wc_result" where
  "scan_loop data e lps =
     (let line = takeWhile (\<lambda>b. b \<noteq> nl) data; rest = dropWhile (\<lambda>b. b \<noteq> nl) data
      in if length line \<ge> max_scan_token then (lps, Some Token_Too_Long)
         else if rest \<noteq> [] then scan_loop (tl rest) e (run_line lps (drop_cr line))
         else if data = [] then (lps, scan_err e)
         else (run_line lps (drop_cr data), scan_err e))"
  by pat_completeness auto
termination
proof (relation "measure (\<lambda>(d, e, l). length d)", goal_cases)
  case (2 data e lps line rest)
  then have "0 < length rest" "length rest \<le> length data"
    by (simp_all only: length_greater_0_conv length_dropWhile_le) simp
  then have "length (tl rest) < length data" by (simp only: length_tl)
  then show ?case by simp
qed simp

declare scan_loop.simps [simp del]

definition process_reader :: "reader \<Rightarrow> line_processor_value list \<Rightarrow> wc_result" where
  "process_reader r lps = scan_loop (rd_bytes r) (rd_end r) lps"

section \<open>The strategies\<close>

definition checkFilePath :: "world \<Rightarrow> string \<Rightarrow> wc_error option" where
  "checkFilePath w filePath =
     (if filePath = [] then Some Path_Empty
      else case w_fs w filePath of None \<Rightarrow> Some (Not_Exist filePath) | Some _ \<Rightarrow> None)"

text \<open>
  \<open>os.Open\<close>: a path that is not there fails like one that cannot be opened.
\<close>

definition os_open :: "world \<Rightarrow> string \<Rightarrow> wc_error + os_file" where
  "os_open w path =
     (case w_fs w path of
        None \<Rightarrow> Inl (Os_Error ''no such file or directory'')
      | Some f \<Rightarrow> (case f_open_err f of Some m \<Rightarrow> Inl (Os_Error m) | None \<Rightarrow> Inr f))"

definition runWithScannerOnReader :: "reader option \<Rightarrow> line_processor_value list \<Rightarrow> wc_result" where
  "runWithScannerOnReader rd lps =
     (case rd of None \<Rightarrow> (lps, Some Reader_Nil) | Some r \<Rightarrow> process_reader r lps)"

definition runWithScannerOnFile :: "world \<Rightarrow> string \<Rightarrow> line_processor_value list \<Rightarrow> wc_result" where
  "runWithScannerOnFile w filePath lps =
     (case checkFilePath w filePath of
        Some e \<Rightarrow> (lps, Some (Invalid_Path e))
      | None \<Rightarrow>
          (case os_open w filePath of
             Inl e \<Rightarrow> (lps, Some (Open_Failed e))
           | Inr f \<Rightarrow> process_reader (f_reader f) lps))"

definition runWithUpFrontLoadingOnReader :: "reader option \<Rightarrow> line_processor_value list \<Rightarrow> wc_result" where
  "runWithUpFrontLoadingOnReader rd lps =
     (case rd of
        None \<Rightarrow> (lps, Some Reader_Nil)
      | Some r \<Rightarrow> (case read_all r of Inl e \<Rightarrow> (lps, Some e) | Inr data \<Rightarrow> process_bytes data lps))"

definition runWithUpFrontLoadingOnFile :: "world \<Rightarrow> string \<Rightarrow> line_processor_value list \<Rightarrow> wc_result" where
  "runWithUpFrontLoadingOnFile w filePath lps =
     (case checkFilePath w filePath of
        Some e \<Rightarrow> (lps, Some (Invalid_Path e))
      | None \<Rightarrow>
          (case os_open w filePath of
             Inl e \<Rightarrow> (lps, Some e)
           | Inr f \<Rightarrow>
               (case read_all (f_reader f) of
                  Inl e \<Rightarrow> (lps, Some e) | Inr data \<Rightarrow> process_bytes data lps)))"

definition chunk_size :: nat where
  "chunk_size = 4096"

function buffering_loop :: "reader \<Rightarrow> bytes \<Rightarrow> wc_error + bytes" where
  "buffering_loop r buffer =
     (case read_one chunk_size r of
        ((b, err), r') \<Rightarrow>
          (let buffer' = (if length b > 0 then buffer @ b else buffer)
           in case err of
                Some EOF \<Rightarrow> Inr buffer'
              | Some (Read_Fail m) \<Rightarrow> Inl (Os_Error m)
              | None \<Rightarrow> buffering_loop r' buffer'))"
  by pat_completeness auto
termination
  by (relation "measure (\<lambda>(r, b). sum_list (map (\<lambda>c. Suc (length c)) (rd_chunks r)))")
    (auto simp: chunk_size_def split: list.splits if_splits)

declare buffering_loop.simps [simp del]

definition runWithBufferringOnReader :: "reader option \<Rightarrow> line_processor_value list \<Rightarrow> wc_result" where
  "runWithBufferringOnReader rd lps =
     (case rd of
        None \<Rightarrow> (lps, Some Reader_Nil)
      | Some r \<Rightarrow>
          (case buffering_loop r [] of Inl e \<Rightarrow> (lps, Some e) | Inr data \<Rightarrow> process_bytes data lps))"

definition runWithBufferringOnFile :: "world \<Rightarrow> string \<Rightarrow> line_processor_value list \<Rightarrow> wc_result" where
  "runWithBufferringOnFile w filePath lps =
     (case checkFilePath w filePath of
        Some e \<Rightarrow> (lps, Some (Invalid_Path e))
      | None \<Rightarrow>
          (case os_open w filePath of
             Inl e \<Rightarrow> (lps, Some (Open_Failed e))
           | Inr f \<Rightarrow> runWithBufferringOnReader (Some (f_reader f)) lps))"

definition runWithMmapOnFile :: "world \<Rightarrow> string \<Rightarrow> line_processor_value list \<Rightarrow> bool \<Rightarrow> wc_result" where
  "runWithMmapOnFile w filePath lps avoidAllocations =
     (case checkFilePath w filePath of
        Some e \<Rightarrow> (lps, Some (Invalid_Path e))
      | None \<Rightarrow>
          (case os_open w filePath of
             Inl e \<Rightarrow> (lps, Some e)
           | Inr f \<Rightarrow>
               (case f_stat_err f of
                  Some m \<Rightarrow> (lps, Some (Os_Error m))
                | None \<Rightarrow>
                    if length (f_content f) = 0 then (lps, None)
                    else
                      (case f_mmap_err f of
                         Some m \<Rightarrow> (lps, Some (Os_Error m))
                       | None \<Rightarrow>
                           if avoidAllocations then process_bytes (f_content f) lps
                           else process_reader (bytes_reader (f_content f)) lps))))"

record input_processor =
  ProcessorType :: string
  FilePath :: string

definition ip_run :: "world \<Rightarrow> input_processor \<Rightarrow> line_processor_value list \<Rightarrow> wc_result" where
  "ip_run w p lps =
     (if ProcessorType p = ''scanner'' then
        (if FilePath p = [] then runWithScannerOnReader (Some (w_stdin w)) lps
         else runWithScannerOnFile w (FilePath p) lps)
      else if ProcessorType p = ''upfront'' then
        (if FilePath p = [] then runWithUpFrontLoadingOnReader (Some (w_stdin w)) lps
         else runWithUpFrontLoadingOnFile w (FilePath p) lps)
      else if ProcessorType p = ''buffering'' then
        (if FilePath p = [] then runWithBufferringOnReader (Some (w_stdin w)) lps
         else runWithBufferringOnFile w (FilePath p) lps)
      else if ProcessorType p = ''mmap'' then
        (if FilePath p = [] then (lps, Some (Path_Required ''mmap''))
         else runWithMmapOnFile w (FilePath p) lps True)
      else if ProcessorType p = ''mmap2'' then
        (if FilePath p = [] then (lps, Some (Path_Required ''mmap2''))
         else runWithMmapOnFile w (FilePath p) lps False)
      else (lps, Some (Unknown_Processor (ProcessorType p))))"

section \<open>The command\<close>

datatype cli_outcome = Fatal wc_error | Printed string

definition cli_run :: "world \<Rightarrow> string \<Rightarrow> string list \<Rightarrow> cli_outcome" where
  "cli_run w processorType args =
     (let filePath = (case args of [] \<Rightarrow> [] | a # _ \<Rightarrow> a);
          processor = \<lparr>ProcessorType = processorType, FilePath = filePath\<rparr>;
          lineProcessors =
            [LineCount \<lparr>lc_counter = 0\<rparr>, WordCount \<lparr>wc_counter = 0\<rparr>, CharacterCount \<lparr>cc_counter = 0\<rparr>]
      in case ip_run w processor lineProcessors of
           (_, Some err) \<Rightarrow> Fatal err
         | (lps, None) \<Rightarrow>
             Printed (concat (map (\<lambda>p. show_int (sint (proc_count p)) @ [CHR 0x09]) lps) @ filePath @ [CHR 0x0A]))"

end
