(* ===== verification/Wc_Counts.thy ===== *)
theory Wc_Counts
  imports Wc_Input
begin

text \<open>
  What the \<open>wc-go\<close> strategies compute.  The reference is the list of lines of the input
  (\<open>text_lines\<close>), defined on the whole input by splitting at newlines; the index loop of
  \<open>processBytes\<close> and the scanner loop of \<open>process\<close> are both related to it, and from there the
  strategies to each other and the counters to counts on the whole input.
\<close>

section \<open>Lines of an input\<close>

fun split_nl :: "bytes \<Rightarrow> bytes list" where
  "split_nl [] = [[]]"
| "split_nl (b # bs) =
     (if b = nl then [] # split_nl bs else (b # hd (split_nl bs)) # tl (split_nl bs))"

definition tail_line :: "bytes \<Rightarrow> bytes" where
  "tail_line data = last (split_nl data)"

definition text_lines :: "bytes \<Rightarrow> bytes list" where
  "text_lines data =
     map drop_cr (butlast (split_nl data)) @ (if tail_line data = [] then [] else [tail_line data])"

definition fits_scanner :: "bytes \<Rightarrow> bool" where
  "fits_scanner data \<longleftrightarrow> (\<forall>l \<in> set (split_nl data). length l < max_scan_token)"

definition ends_in_cr :: "bytes \<Rightarrow> bool" where
  "ends_in_cr data \<longleftrightarrow> tail_line data \<noteq> [] \<and> last (tail_line data) = cr"

lemma split_nl_nonempty [simp]: "split_nl bs \<noteq> []"
  by (cases bs) auto

lemma split_nl_no_nl: "nl \<notin> set pre \<Longrightarrow> split_nl (pre @ s) = (pre @ hd (split_nl s)) # tl (split_nl s)"
  by (induction pre) (auto simp: hd_Cons_tl)

lemma split_nl_all: "nl \<notin> set pre \<Longrightarrow> split_nl pre = [pre]"
  using split_nl_no_nl [of pre "[]"] by simp

lemma split_nl_cut: "nl \<notin> set pre \<Longrightarrow> split_nl (pre @ nl # s) = pre # split_nl s"
  by (simp add: split_nl_no_nl)

lemma tail_line_cut: "nl \<notin> set pre \<Longrightarrow> tail_line (pre @ nl # s) = tail_line s"
  by (simp add: tail_line_def split_nl_cut)

lemma tail_line_all: "nl \<notin> set pre \<Longrightarrow> tail_line pre = pre"
  by (simp add: tail_line_def split_nl_all)

lemma text_lines_cut: "nl \<notin> set pre \<Longrightarrow> text_lines (pre @ nl # s) = drop_cr pre # text_lines s"
  by (simp add: text_lines_def split_nl_cut tail_line_cut)

lemma text_lines_all: "nl \<notin> set pre \<Longrightarrow> text_lines pre = (if pre = [] then [] else [pre])"
  by (simp add: text_lines_def split_nl_all tail_line_all)

text \<open>Induction along the lines of an input.\<close>

lemma lines_induct [case_names last line]:
  assumes "\<And>s. nl \<notin> set s \<Longrightarrow> P s"
    and "\<And>l s. nl \<notin> set l \<Longrightarrow> P s \<Longrightarrow> P (l @ nl # s)"
  shows "P data"
proof (induction "length data" arbitrary: data rule: less_induct)
  case less
  show ?case
  proof (cases "nl \<in> set data")
    case False
    then show ?thesis by (rule assms(1))
  next
    case True
    then obtain l s where d: "data = l @ nl # s" "nl \<notin> set l" by (meson split_list_first)
    then have "P s" by (intro less) simp
    with d assms(2) show ?thesis by simp
  qed
qed

section \<open>The index loop\<close>

lemma slice_split:
  "slice (xs @ l @ ys) (length xs) (length xs + length l) = l"
  by (simp add: slice_def)

text \<open>Scanning bytes that are not newlines only advances the index.\<close>

lemma pb_loop_skip:
  assumes "nl \<notin> set l" and "k \<le> length l"
  shows "pb_loop (pre @ l @ post) (length pre + k) start lps =
         pb_loop (pre @ l @ post) (length pre + length l) start lps"
  using assms(2)
proof (induction "length l - k" arbitrary: k)
  case 0
  then show ?case by simp
next
  case (Suc n)
  then have k: "k < length l" by simp
  have "(pre @ l @ post) ! (length pre + k) = l ! k" by (simp add: nth_append k)
  also have "\<dots> \<noteq> nl" using assms(1) k nth_mem by metis
  finally have "pb_loop (pre @ l @ post) (length pre + k) start lps =
      pb_loop (pre @ l @ post) (length pre + Suc k) start lps"
    using k by (subst pb_loop.simps) simp
  also have "\<dots> = pb_loop (pre @ l @ post) (length pre + length l) start lps"
    using Suc k by (intro Suc.hyps) auto
  finally show ?case .
qed

lemma pb_loop_line:
  assumes "nl \<notin> set l"
  shows "pb_loop (pre @ l @ nl # post) (length pre) (length pre) lps =
         pb_loop ((pre @ l @ [nl]) @ post) (length (pre @ l @ [nl])) (length (pre @ l @ [nl]))
           (run_line lps (drop_cr l))"
proof -
  let ?d = "pre @ l @ nl # post" and ?i = "length pre + length l"
  have "pb_loop ?d (length pre) (length pre) lps = pb_loop ?d ?i (length pre) lps"
    using pb_loop_skip [OF assms, of 0 pre "nl # post"] by simp
  also have "\<dots> = pb_loop ?d (?i + 1) (?i + 1)
      (run_line lps (slice ?d (length pre) (if ?i > length pre \<and> ?d ! (?i - 1) = cr then ?i - 1 else ?i)))"
    by (subst pb_loop.simps) (simp add: nth_append Let_def)
  also have "slice ?d (length pre) (if ?i > length pre \<and> ?d ! (?i - 1) = cr then ?i - 1 else ?i) = drop_cr l"
  proof (cases l rule: rev_cases)
    case Nil
    then show ?thesis by (simp add: slice_def drop_cr_def)
  next
    case (snoc ys y)
    then show ?thesis by (simp add: slice_def drop_cr_def nth_append)
  qed
  finally show ?thesis by simp
qed

lemma pb_loop_lines:
  "pb_loop (pre @ s) (length pre) (length pre) lps =
     (length pre + length s - length (tail_line s),
      fold (\<lambda>l ps. run_line ps l) (map drop_cr (butlast (split_nl s))) lps)"
proof (induction s arbitrary: pre lps rule: lines_induct)
  case (last s)
  have "pb_loop (pre @ s) (length pre) (length pre) lps = pb_loop (pre @ s) (length pre + length s) (length pre) lps"
    using pb_loop_skip [OF last, of 0 pre "[]"] by simp
  also have "\<dots> = (length pre, lps)" by (subst pb_loop.simps) simp
  finally show ?case by (simp add: tail_line_all split_nl_all last)
next
  case (line l s)
  have "pb_loop (pre @ l @ nl # s) (length pre) (length pre) lps =
      pb_loop ((pre @ l @ [nl]) @ s) (length (pre @ l @ [nl])) (length (pre @ l @ [nl])) (run_line lps (drop_cr l))"
    by (rule pb_loop_line [OF line(1)])
  also note line(2)
  finally show ?case using line(1) by (simp add: tail_line_cut split_nl_cut)
qed

lemma tail_line_suffix: "length (tail_line s) \<le> length s \<and> drop (length s - length (tail_line s)) s = tail_line s"
proof (induction s rule: lines_induct)
  case (last s)
  then show ?case by (simp add: tail_line_all)
next
  case (line l s)
  let ?k = "length (tail_line s)"
  have "length (l @ nl # s) - ?k = length l + Suc (length s - ?k)"
    using line(2) by (simp, linarith)
  then have "drop (length (l @ nl # s) - ?k) (l @ nl # s) = drop (length s - ?k) s"
    by (simp del: length_append)
  with line show ?case by (simp add: tail_line_cut)
qed

lemma process_bytes_lines:
  "process_bytes data lps = (fold (\<lambda>l ps. run_line ps l) (text_lines data) lps, None)"
proof (cases "data = []")
  case True
  then show ?thesis by (simp add: process_bytes_def text_lines_def tail_line_def)
next
  case False
  have loop: "pb_loop data 0 0 lps =
      (length data - length (tail_line data), fold (\<lambda>l ps. run_line ps l) (map drop_cr (butlast (split_nl data))) lps)"
    using pb_loop_lines [of "[]" data lps] by simp
  show ?thesis
    using False tail_line_suffix [of data]
    by (auto simp: process_bytes_def loop text_lines_def)
qed

section \<open>The scanner loop\<close>

definition scan_lines :: "bytes \<Rightarrow> bytes list" where
  "scan_lines data =
     map drop_cr (butlast (split_nl data)) @ (if tail_line data = [] then [] else [drop_cr (tail_line data)])"

lemma span_nl:
  assumes "nl \<notin> set l"
  shows "takeWhile (\<lambda>b. b \<noteq> nl) (l @ nl # s) = l" "dropWhile (\<lambda>b. b \<noteq> nl) (l @ nl # s) = nl # s"
    "takeWhile (\<lambda>b. b \<noteq> nl) l = l" "dropWhile (\<lambda>b. b \<noteq> nl) l = []"
  using assms by (induction l) auto

lemma scan_loop_line:
  assumes "nl \<notin> set l"
  shows "scan_loop (l @ nl # s) e lps =
    (if length l \<ge> max_scan_token then (lps, Some Token_Too_Long)
     else scan_loop s e (run_line lps (drop_cr l)))"
  by (subst scan_loop.simps) (simp add: span_nl [OF assms] Let_def)

lemma scan_loop_last:
  assumes "nl \<notin> set l"
  shows "scan_loop l e lps =
    (if length l \<ge> max_scan_token then (lps, Some Token_Too_Long)
     else if l = [] then (lps, scan_err e) else (run_line lps (drop_cr l), scan_err e))"
  by (subst scan_loop.simps) (simp add: span_nl(3,4) [OF assms] Let_def)

lemma scan_loop_lines:
  "fits_scanner data \<Longrightarrow>
   scan_loop data e lps = (fold (\<lambda>l ps. run_line ps l) (scan_lines data) lps, scan_err e)"
proof (induction data arbitrary: lps rule: lines_induct)
  case (last s)
  then show ?case
    by (simp add: scan_loop_last fits_scanner_def scan_lines_def split_nl_all tail_line_all)
next
  case (line l s)
  then have "length l < max_scan_token" "fits_scanner s"
    by (simp_all add: fits_scanner_def split_nl_cut)
  with line show ?case
    by (simp add: scan_loop_line scan_lines_def split_nl_cut tail_line_cut)
qed

lemma scan_loop_too_long:
  "\<not> fits_scanner data \<Longrightarrow> snd (scan_loop data e lps) = Some Token_Too_Long"
proof (induction data arbitrary: lps rule: lines_induct)
  case (last s)
  then show ?case by (simp add: scan_loop_last fits_scanner_def split_nl_all)
next
  case (line l s)
  then show ?case by (auto simp: scan_loop_line fits_scanner_def split_nl_cut)
qed

lemma scan_lines_text_lines: "\<not> ends_in_cr data \<Longrightarrow> scan_lines data = text_lines data"
  by (auto simp: scan_lines_def text_lines_def ends_in_cr_def drop_cr_def)

section \<open>The buffering loop\<close>

lemma buffering_loop_reads_all:
  "buffering_loop r buffer =
     (case rd_end r of EOF \<Rightarrow> Inr (buffer @ rd_bytes r) | Read_Fail m \<Rightarrow> Inl (Os_Error m))"
proof (induction r buffer rule: buffering_loop.induct)
  case (1 r buffer)
  show ?case
  proof (cases "rd_chunks r")
    case Nil
    then show ?thesis
      by (subst buffering_loop.simps) (simp add: rd_bytes_def split: read_err.split)
  next
    case (Cons c cs)
    then show ?thesis
      using 1 by (subst buffering_loop.simps)
        (auto simp: rd_bytes_def chunk_size_def split: read_err.split)
  qed
qed

section \<open>Counts on the whole input\<close>

definition cr_ends :: "bytes \<Rightarrow> nat" where
  "cr_ends data = length (filter (\<lambda>l. l \<noteq> [] \<and> last l = cr) (butlast (split_nl data)))"

definition line_total :: "bytes \<Rightarrow> nat" where
  "line_total data = count_list data nl + (if tail_line data = [] then 0 else 1)"

definition char_total :: "bytes \<Rightarrow> nat" where
  "char_total data = chars_in data - count_list data nl - cr_ends data"

lemma cr_ends_cut:
  "nl \<notin> set l \<Longrightarrow> cr_ends (l @ nl # s) = (if l \<noteq> [] \<and> last l = cr then 1 else 0) + cr_ends s"
  by (simp add: cr_ends_def split_nl_cut)

lemma count_list_none: "x \<notin> set l \<Longrightarrow> count_list l x = 0"
  by (induction l) auto

lemma length_butlast_split: "length (butlast (split_nl data)) = count_list data nl"
proof (induction data rule: lines_induct)
  case (last s)
  then show ?case by (simp add: split_nl_all count_list_none)
next
  case (line l s)
  then show ?case by (simp add: split_nl_cut count_list_none)
qed

lemma line_total_text: "length (text_lines data) = line_total data"
  and line_total_scan: "length (scan_lines data) = line_total data"
  by (simp_all add: text_lines_def scan_lines_def line_total_def length_butlast_split del: length_butlast)

lemma words_in_append: "words_in (l @ nl # s) = words_in l + words_in s"
  by (simp add: words_in_def runes_of_append_ascii field_runs_append_sep is_space_def)

lemma words_in_snoc_cr: "words_in (l @ [cr]) = words_in l"
  using runes_of_append_ascii [of cr l "[]"]
  by (simp add: words_in_def field_runs_snoc_sep is_space_def)

lemma chars_in_append: "chars_in (l @ nl # s) = chars_in l + 1 + chars_in s"
  by (simp add: chars_in_def runes_of_append_ascii)

lemma chars_in_snoc_cr: "chars_in (l @ [cr]) = chars_in l + 1"
  using runes_of_append_ascii [of cr l "[]"] by (simp add: chars_in_def)

lemma drop_cr_split: "l \<noteq> [] \<and> last l = cr \<Longrightarrow> drop_cr l @ [cr] = l"
  by (metis append_butlast_last_id drop_cr_def)

lemma words_in_drop_cr: "words_in (drop_cr l) = words_in l"
  by (metis drop_cr_split words_in_snoc_cr drop_cr_def)

lemma chars_in_drop_cr: "chars_in (drop_cr l) + (if l \<noteq> [] \<and> last l = cr then 1 else 0) = chars_in l"
proof (cases "l \<noteq> [] \<and> last l = cr")
  case True
  then have "chars_in l = chars_in (drop_cr l @ [cr])" by (simp add: drop_cr_split [OF True])
  with True show ?thesis by (simp only: chars_in_snoc_cr) simp
qed (auto simp: drop_cr_def)

lemma words_in_Nil [simp]: "words_in [] = 0"
  and chars_in_Nil [simp]: "chars_in [] = 0"
  by (simp_all add: words_in_def chars_in_def)

lemma sum_words_text: "sum_list (map words_in (text_lines data)) = words_in data"
proof (induction data rule: lines_induct)
  case (last s)
  then show ?case by (simp add: text_lines_all)
next
  case (line l s)
  then show ?case by (simp add: text_lines_cut words_in_drop_cr words_in_append)
qed

lemma scan_text_lines:
  "sum_list (map g (scan_lines data)) + g (tail_line data) =
   sum_list (map g (text_lines data)) + g (drop_cr (tail_line data))" for g :: "bytes \<Rightarrow> nat"
  by (simp add: scan_lines_def text_lines_def drop_cr_def)

lemma sum_words_scan: "sum_list (map words_in (scan_lines data)) = words_in data"
  using scan_text_lines [of words_in data] by (simp add: sum_words_text words_in_drop_cr)

lemma sum_chars_text:
  "sum_list (map chars_in (text_lines data)) + count_list data nl + cr_ends data = chars_in data"
proof (induction data rule: lines_induct)
  case (last s)
  then show ?case by (simp add: text_lines_all count_list_none cr_ends_def split_nl_all)
next
  case (line l s)
  have "count_list (l @ nl # s) nl = 1 + count_list s nl"
    using line(1) by (simp add: count_list_none)
  with line chars_in_drop_cr [of l] show ?case
    by (simp add: text_lines_cut chars_in_append cr_ends_cut)
qed

lemma sum_chars_text_total: "sum_list (map chars_in (text_lines data)) = char_total data"
  using sum_chars_text [of data] by (simp add: char_total_def)

lemma sum_chars_scan:
  "sum_list (map chars_in (scan_lines data)) + (if ends_in_cr data then 1 else 0) = char_total data"
  using scan_text_lines [of chars_in data] chars_in_drop_cr [of "tail_line data"]
  by (auto simp: sum_chars_text_total ends_in_cr_def drop_cr_def)

lemma sum_const_1: "sum_list (map (\<lambda>_. Suc 0) xs) = length xs"
  by (induction xs) auto

lemma proc_weight_eta:
  "proc_weight (WordCount p) = words_in" "proc_weight (LineCount q) = (\<lambda>_. Suc 0)"
  "proc_weight (CharacterCount r) = chars_in"
  by (simp_all add: fun_eq_iff)

lemma sum_weight_text:
  "sum_list (map (proc_weight p) (text_lines data)) =
     (case p of WordCount _ \<Rightarrow> words_in data | LineCount _ \<Rightarrow> line_total data | CharacterCount _ \<Rightarrow> char_total data)"
  by (cases p) (simp_all add: proc_weight_eta sum_words_text sum_chars_text_total line_total_text sum_const_1)

lemma chars_in_le_length: "chars_in data \<le> length data"
  by (simp add: chars_in_def length_runes_of)

lemma words_in_le_length: "words_in data \<le> length data"
proof -
  have "length (field_runs p xs) \<le> length xs" for p and xs :: "rune list"
    by (induction p xs rule: field_runs.induct) (auto intro: le_trans length_dropWhile_le)
  then show ?thesis using length_runes_of le_trans unfolding words_in_def by blast
qed

lemma line_total_le: "line_total data \<le> length data"
proof (induction data rule: lines_induct)
  case (last s)
  then show ?case by (cases s) (auto simp: line_total_def count_list_none tail_line_all)
next
  case (line l s)
  then show ?case by (simp add: line_total_def tail_line_cut count_list_none split: if_splits)
qed

lemma totals_le: "words_in data \<le> length data" "line_total data \<le> length data" "char_total data \<le> length data"
  using chars_in_le_length [of data] words_in_le_length [of data] line_total_le [of data]
  by (simp_all add: char_total_def)

end
