(* ===== verification/Wc_Spec.thy ===== *)
theory Wc_Spec
  imports Wc_Counts
begin

text \<open>
  The promises of \<open>wc-go\<close>: what each processor counts, that the five strategies agree and where
  they do not, what the command prints, and what the error paths leave behind.
\<close>

section \<open>Regular files\<close>

definition strategies :: "string list" where
  "strategies = [''scanner'', ''upfront'', ''buffering'', ''mmap'', ''mmap2'']"

definition regular_file :: "os_file \<Rightarrow> bool" where
  "regular_file f \<longleftrightarrow> f_open_err f = None \<and> f_stat_err f = None \<and> f_mmap_err f = None \<and>
     rd_end (f_reader f) = EOF \<and> rd_bytes (f_reader f) = f_content f"

definition has_file :: "world \<Rightarrow> string \<Rightarrow> bytes \<Rightarrow> bool" where
  "has_file w path data \<longleftrightarrow>
     path \<noteq> [] \<and> (case w_fs w path of None \<Rightarrow> False | Some f \<Rightarrow> regular_file f \<and> f_content f = data)"

lemma rd_bytes_bytes_reader [simp]: "rd_bytes (bytes_reader data) = data" "rd_end (bytes_reader data) = EOF"
  by (simp_all add: rd_bytes_def bytes_reader_def)

lemma has_fileE:
  assumes "has_file w path data"
  obtains f where "path \<noteq> []" "w_fs w path = Some f" "f_open_err f = None" "f_stat_err f = None"
    "f_mmap_err f = None" "rd_end (f_reader f) = EOF" "rd_bytes (f_reader f) = data" "f_content f = data"
  using assms by (auto simp: has_file_def regular_file_def split: option.splits)

lemma has_file_checks:
  assumes "has_file w path data"
  shows "checkFilePath w path = None" "\<exists>f. os_open w path = Inr f \<and> f_stat_err f = None \<and> f_mmap_err f = None \<and>
    rd_end (f_reader f) = EOF \<and> rd_bytes (f_reader f) = data \<and> f_content f = data"
  using assms by (auto elim!: has_fileE simp: checkFilePath_def os_open_def)

lemma process_bytes_empty [simp]: "process_bytes [] lps = (lps, None)"
  by (simp add: process_bytes_def)

lemma ip_run_file:
  assumes "path \<noteq> []"
  shows "ip_run w \<lparr>ProcessorType = ''scanner'', FilePath = path\<rparr> lps = runWithScannerOnFile w path lps"
    "ip_run w \<lparr>ProcessorType = ''upfront'', FilePath = path\<rparr> lps = runWithUpFrontLoadingOnFile w path lps"
    "ip_run w \<lparr>ProcessorType = ''buffering'', FilePath = path\<rparr> lps = runWithBufferringOnFile w path lps"
    "ip_run w \<lparr>ProcessorType = ''mmap'', FilePath = path\<rparr> lps = runWithMmapOnFile w path lps True"
    "ip_run w \<lparr>ProcessorType = ''mmap2'', FilePath = path\<rparr> lps = runWithMmapOnFile w path lps False"
  using assms by (simp_all add: ip_run_def)

lemma scan_loop_empty [simp]: "scan_loop [] e lps = (lps, scan_err e)"
  by (subst scan_loop.simps) (simp add: max_scan_token_def)

lemma strategy_results:
  assumes "has_file w path data"
  shows "runWithUpFrontLoadingOnFile w path lps = process_bytes data lps"
    "runWithBufferringOnFile w path lps = process_bytes data lps"
    "runWithMmapOnFile w path lps True = process_bytes data lps"
    "runWithScannerOnFile w path lps = scan_loop data EOF lps"
    "runWithMmapOnFile w path lps False = scan_loop data EOF lps"
proof -
  from has_file_checks(2) [OF assms] obtain f where
    f: "os_open w path = Inr f" "f_stat_err f = None" "f_mmap_err f = None"
      "rd_end (f_reader f) = EOF" "rd_bytes (f_reader f) = data" "f_content f = data" by blast
  note c = has_file_checks(1) [OF assms]
  show "runWithUpFrontLoadingOnFile w path lps = process_bytes data lps"
    by (simp add: runWithUpFrontLoadingOnFile_def c f read_all_def)
  show "runWithBufferringOnFile w path lps = process_bytes data lps"
    by (simp add: runWithBufferringOnFile_def runWithBufferringOnReader_def c f buffering_loop_reads_all)
  show "runWithMmapOnFile w path lps True = process_bytes data lps"
    by (simp add: runWithMmapOnFile_def c f)
  show "runWithScannerOnFile w path lps = scan_loop data EOF lps"
    by (simp add: runWithScannerOnFile_def process_reader_def c f)
  show "runWithMmapOnFile w path lps False = scan_loop data EOF lps"
    by (simp add: runWithMmapOnFile_def process_reader_def c f scan_err_def)
qed

lemma byte_strategies:
  assumes "has_file w path data" and "t = ''upfront'' \<or> t = ''buffering'' \<or> t = ''mmap''"
  shows "ip_run w \<lparr>ProcessorType = t, FilePath = path\<rparr> lps = process_bytes data lps"
proof -
  from assms(1) have "path \<noteq> []" by (rule has_fileE)
  note run = ip_run_file [OF this]
  from assms(2) show ?thesis
    by (elim disjE) (simp_all only: run strategy_results [OF assms(1)])
qed

lemma scanner_strategies:
  assumes "has_file w path data" and "t = ''scanner'' \<or> t = ''mmap2''"
  shows "ip_run w \<lparr>ProcessorType = t, FilePath = path\<rparr> lps = scan_loop data EOF lps"
proof -
  from assms(1) have "path \<noteq> []" by (rule has_fileE)
  note run = ip_run_file [OF this]
  from assms(2) show ?thesis
    by (elim disjE) (simp_all only: run strategy_results [OF assms(1)])
qed

lemma strategies_split: 
  "t \<in> set strategies \<longleftrightarrow>
     (t = ''upfront'' \<or> t = ''buffering'' \<or> t = ''mmap'') \<or> (t = ''scanner'' \<or> t = ''mmap2'')"
  by (simp only: strategies_def list.set insert_iff empty_iff simp_thms disj_ac)

lemma scan_is_process_bytes:
  "fits_scanner data \<Longrightarrow> \<not> ends_in_cr data \<Longrightarrow> scan_loop data EOF lps = process_bytes data lps"
  by (simp add: scan_loop_lines process_bytes_lines scan_lines_text_lines scan_err_def)

text \<open>Every processor of a list ends with its count plus the sum of the weights of the lines.\<close>

lemma proc_counts_fold:
  "map proc_count (fold (\<lambda>l ps. run_line ps l) ls lps) =
   map (\<lambda>p. proc_count p + of_nat (sum_list (map (proc_weight p) ls))) lps"
  by (simp add: fold_run_line lpv.count_fold)

definition demo_file :: os_file where
  "demo_file = \<lparr>f_open_err = None, f_stat_err = None, f_mmap_err = None,
     f_reader = \<lparr>rd_chunks = [[104, 105], [13, 10], [32, 120]], rd_end = EOF\<rparr>,
     f_content = [104, 105, 13, 10, 32, 120]\<rparr>"

definition demo_world :: world where
  "demo_world = \<lparr>w_stdin = bytes_reader [], w_fs = [''f'' \<mapsto> demo_file]\<rparr>"

lemma demo_has_file: "has_file demo_world ''f'' [104, 105, 13, 10, 32, 120]"
  by (simp add: has_file_def demo_world_def demo_file_def regular_file_def rd_bytes_def)

lemma demo_fits: "fits_scanner [104, 105, 13, 10, 32, 120]" "\<not> ends_in_cr [104, 105, 13, 10, 32, 120]"
  by (simp_all add: fits_scanner_def ends_in_cr_def tail_line_def max_scan_token_def)

section \<open>What the processors count\<close>

text \<open>
  C1: \<open>WordCountProcessor.Process\<close> adds to its counter exactly the number of maximal runs of
  non-space runes of the line, whatever bytes the line holds (invalid UTF-8 included).
\<close>

theorem word_processor_counts_runs:
  "wc_counter (wc_process p line) =
     wc_counter p + of_nat (length (field_runs is_space (runes_of line)))"
  by (simp add: wc_process_def word_loop_words_in words_in_def)

text \<open>
  \<open>CharacterCountProcessor.Process\<close> counts code points, not bytes: on the UTF-8 encoding of any
  sequence of valid runes it adds the length of that sequence.
\<close>

theorem char_processor_counts_runes:
  assumes "\<forall>r \<in> set rs. valid_rune r"
  shows "cc_counter (cc_process p (encode_runes rs)) = cc_counter p + of_nat (length rs)"
  using assms by (simp add: cc_process_def char_loop_chars_in chars_in_def)

theorem char_processor_counts_runes_witness:
  "cc_counter (cc_process \<lparr>cc_counter = 5\<rparr> (encode_runes [0x43F, 0x4E16, 0x1F600])) = 8"
  using char_processor_counts_runes [of "[0x43F, 0x4E16, 0x1F600]" "\<lparr>cc_counter = 5\<rparr>"]
  by (simp add: valid_rune_def)

section \<open>The strategies\<close>

text \<open>
  C2: the index loop of \<open>processBytes\<close> is correct: it feeds the processors exactly the lines of the
  input, in order and each once, with one carriage return dropped before each newline and an
  unterminated last line kept as it is, and it never fails.
\<close>

theorem process_bytes_feeds_lines:
  "process_bytes data lps = (fold (\<lambda>line ps. run_line ps line) (text_lines data) lps, None)"
  by (rule process_bytes_lines)



text \<open>
  A file whose only fault is an unterminated last line ending in a carriage return makes the
  strategies disagree: the two scanner strategies drop that carriage return and report exactly one
  character less than the three byte-slice strategies; lines and words are the same.
\<close>

lemma proc_weight_totals:
  "sum_list (map (proc_weight p) (scan_lines data)) + (case p of CharacterCount _ \<Rightarrow> (if ends_in_cr data then 1 else 0) | _ \<Rightarrow> 0) =
   sum_list (map (proc_weight p) (text_lines data))"
  by (cases p)
    (simp_all add: proc_weight_eta sum_words_text sum_words_scan sum_const_1 line_total_text
      line_total_scan sum_chars_scan sum_chars_text_total)

theorem trailing_cr_divergence:
  assumes "has_file w path data" and "fits_scanner data" and "ends_in_cr data"
    and "t1 \<in> {''scanner'', ''mmap2''}" and "t2 \<in> {''upfront'', ''buffering'', ''mmap''}"
    and "i < length lps"
  shows "proc_count (fst (ip_run w \<lparr>ProcessorType = t2, FilePath = path\<rparr> lps) ! i) =
         proc_count (fst (ip_run w \<lparr>ProcessorType = t1, FilePath = path\<rparr> lps) ! i) +
         (case lps ! i of CharacterCount _ \<Rightarrow> 1 | _ \<Rightarrow> 0)"
proof -
  let ?p = "lps ! i"
  have w: "(of_nat (sum_list (map (proc_weight ?p) (text_lines data))) :: go_int) =
      of_nat (sum_list (map (proc_weight ?p) (scan_lines data))) +
      (case ?p of CharacterCount _ \<Rightarrow> 1 | _ \<Rightarrow> 0)"
    using arg_cong [OF proc_weight_totals [of ?p data], of "of_nat :: nat \<Rightarrow> go_int"] assms(3)
    by (cases ?p) (simp_all, metis add.commute)
  have "t1 = ''scanner'' \<or> t1 = ''mmap2''" "t2 = ''upfront'' \<or> t2 = ''buffering'' \<or> t2 = ''mmap''"
    using assms(4,5) by (simp_all only: insert_iff empty_iff simp_thms)
  note r = scanner_strategies [OF assms(1) this(1)] byte_strategies [OF assms(1) this(2)]
  show ?thesis
    unfolding r process_bytes_lines scan_loop_lines [OF assms(2)] fst_conv
    using assms(6) by (simp add: fold_run_line lpv.count_fold w add.assoc)
qed

definition cr_file :: os_file where
  "cr_file = \<lparr>f_open_err = None, f_stat_err = None, f_mmap_err = None,
     f_reader = \<lparr>rd_chunks = [[97, 13]], rd_end = EOF\<rparr>, f_content = [97, 13]\<rparr>"

theorem trailing_cr_divergence_witness:
  "let w = \<lparr>w_stdin = bytes_reader [], w_fs = [''c'' \<mapsto> cr_file]\<rparr>;
       lps = [CharacterCount \<lparr>cc_counter = 0\<rparr>]
   in proc_count (fst (ip_run w \<lparr>ProcessorType = ''mmap'', FilePath = ''c''\<rparr> lps) ! 0) =
      proc_count (fst (ip_run w \<lparr>ProcessorType = ''mmap2'', FilePath = ''c''\<rparr> lps) ! 0) + 1"
proof -
  have f: "has_file \<lparr>w_stdin = bytes_reader [], w_fs = [''c'' \<mapsto> cr_file]\<rparr> ''c'' [97, 13]"
    by (simp add: has_file_def cr_file_def regular_file_def rd_bytes_def)
  have d: "fits_scanner [97, 13]" "ends_in_cr [97, 13]"
    by (simp_all add: fits_scanner_def ends_in_cr_def tail_line_def max_scan_token_def)
  have t: "''mmap2'' \<in> {''scanner'', ''mmap2''}" "''mmap'' \<in> {''upfront'', ''buffering'', ''mmap''}"
    by (simp_all only: insert_iff simp_thms)
  show ?thesis
    using trailing_cr_divergence [OF f d t, of 0 "[CharacterCount \<lparr>cc_counter = 0\<rparr>]"]
    unfolding Let_def by simp
qed

text \<open>
  A line of \<open>MaxScanTokenSize\<close> bytes or more makes both scanner strategies fail with
  \<open>bufio.ErrTooLong\<close>, while the three byte-slice strategies process the whole file.
\<close>

theorem long_line_divergence:
  assumes "has_file w path data" and "\<not> fits_scanner data"
    and "t1 \<in> {''scanner'', ''mmap2''}" and "t2 \<in> {''upfront'', ''buffering'', ''mmap''}"
  shows "snd (ip_run w \<lparr>ProcessorType = t1, FilePath = path\<rparr> lps) = Some Token_Too_Long \<and>
         ip_run w \<lparr>ProcessorType = t2, FilePath = path\<rparr> lps =
           (fold (\<lambda>line ps. run_line ps line) (text_lines data) lps, None)"
proof -
  have "t1 = ''scanner'' \<or> t1 = ''mmap2''" "t2 = ''upfront'' \<or> t2 = ''buffering'' \<or> t2 = ''mmap''"
    using assms(3,4) by (simp_all only: insert_iff empty_iff simp_thms)
  note r = scanner_strategies [OF assms(1) this(1)] byte_strategies [OF assms(1) this(2)]
  show ?thesis
    unfolding r process_bytes_lines using scan_loop_too_long [OF assms(2)] by blast
qed

definition long_file :: os_file where
  "long_file = \<lparr>f_open_err = None, f_stat_err = None, f_mmap_err = None,
     f_reader = bytes_reader (replicate 65536 120), f_content = replicate 65536 120\<rparr>"

theorem long_line_divergence_witness:
  "snd (ip_run \<lparr>w_stdin = bytes_reader [], w_fs = [''l'' \<mapsto> long_file]\<rparr>
     \<lparr>ProcessorType = ''scanner'', FilePath = ''l''\<rparr> []) = Some Token_Too_Long"
proof -
  let ?d = "replicate 65536 120 :: bytes"
  have f: "has_file \<lparr>w_stdin = bytes_reader [], w_fs = [''l'' \<mapsto> long_file]\<rparr> ''l'' ?d"
    by (simp add: has_file_def long_file_def regular_file_def)
  have "nl \<notin> set ?d" by simp
  then have "split_nl ?d = [?d]" by (rule split_nl_all)
  then have d: "\<not> fits_scanner ?d" by (simp add: fits_scanner_def max_scan_token_def)
  have "''scanner'' \<in> {''scanner'', ''mmap2''}" "''mmap'' \<in> {''upfront'', ''buffering'', ''mmap''}"
    by (simp_all only: insert_iff simp_thms)
  from long_line_divergence [OF f d this, of "[]"] show ?thesis by blast
qed

section \<open>Reading\<close>

text \<open>
  The buffering loop terminates and collects exactly what the reader delivers, for every way
  the packets are cut (empty packets and packets larger than the 4 KB chunk included); a read error
  discards what was collected.
\<close>

theorem buffering_collects_everything:
  "buffering_loop r buffer =
     (case rd_end r of
        EOF \<Rightarrow> Inr (buffer @ concat (rd_chunks r))
      | Read_Fail m \<Rightarrow> Inl (Os_Error m))"
  by (simp only: buffering_loop_reads_all rd_bytes_def)

text \<open>
  When a read fails, the up-front and the buffering strategy report the error and leave every
  processor untouched, while the scanner strategy reports the same error after having processed
  all lines read so far, the unfinished last one included.
\<close>

theorem read_failure_effects:
  assumes "rd_end r = Read_Fail m" and "fits_scanner (rd_bytes r)"
  shows "runWithUpFrontLoadingOnReader (Some r) lps = (lps, Some (Os_Error m)) \<and>
         runWithBufferringOnReader (Some r) lps = (lps, Some (Os_Error m)) \<and>
         runWithScannerOnReader (Some r) lps =
           (fold (\<lambda>line ps. run_line ps line) (scan_lines (rd_bytes r)) lps, Some (Os_Error m))"
  using assms
  by (simp add: runWithUpFrontLoadingOnReader_def runWithBufferringOnReader_def read_all_def
      runWithScannerOnReader_def process_reader_def scan_loop_lines scan_err_def buffering_loop_reads_all)

theorem read_failure_effects_witness:
  "runWithScannerOnReader (Some \<lparr>rd_chunks = [[97, 10], [98]], rd_end = Read_Fail ''eio''\<rparr>)
     [LineCount \<lparr>lc_counter = 0\<rparr>] = ([LineCount \<lparr>lc_counter = 2\<rparr>], Some (Os_Error ''eio'')) \<and>
   runWithBufferringOnReader (Some \<lparr>rd_chunks = [[97, 10], [98]], rd_end = Read_Fail ''eio''\<rparr>)
     [LineCount \<lparr>lc_counter = 0\<rparr>] = ([LineCount \<lparr>lc_counter = 0\<rparr>], Some (Os_Error ''eio''))"
  using read_failure_effects [of "\<lparr>rd_chunks = [[97, 10], [98]], rd_end = Read_Fail ''eio''\<rparr>" "''eio''"
      "[LineCount \<lparr>lc_counter = 0\<rparr>]"]
  by (simp add: rd_bytes_def fits_scanner_def max_scan_token_def scan_lines_def tail_line_def
      run_line_def lc_process_def drop_cr_def)

section \<open>The command\<close>

text \<open>What the callback prints for a regular file, whatever the strategy.\<close>

lemma printed_counts:
  assumes "length data < 2 ^ 63"
  shows "concat (map (\<lambda>p. show_int (sint (proc_count p)) @ [CHR 0x09])
      (fold (\<lambda>l ps. run_line ps l) (text_lines data)
        [LineCount \<lparr>lc_counter = 0\<rparr>, WordCount \<lparr>wc_counter = 0\<rparr>, CharacterCount \<lparr>cc_counter = 0\<rparr>])) =
    show_int (int (line_total data)) @ [CHR 0x09] @ show_int (int (words_in data)) @ [CHR 0x09] @
    show_int (int (char_total data)) @ [CHR 0x09]"
proof -
  have small: "sint (of_nat n :: go_int) = int n" if "n \<le> length data" for n
    using that assms by (intro sint_of_nat_small) simp
  show ?thesis
    using totals_le [of data]
    by (simp add: fold_run_line lpv.count_fold sum_weight_text small lc_count_def wc_count_def cc_count_def)
qed

lemma cli_totals:
  assumes "has_file w path data" and "fits_scanner data" and "\<not> ends_in_cr data"
    and "t \<in> set strategies" and "length data < 2 ^ 63"
  shows "cli_run w t [path] =
    Printed (show_int (int (line_total data)) @ [CHR 0x09] @ show_int (int (words_in data)) @ [CHR 0x09] @
      show_int (int (char_total data)) @ [CHR 0x09] @ path @ [CHR 0x0A])"
proof -
  have *: "ip_run w \<lparr>ProcessorType = t, FilePath = path\<rparr> lps = process_bytes data lps" for lps
    using assms(4) byte_strategies [OF assms(1)] scanner_strategies [OF assms(1)]
    unfolding strategies_split by (metis scan_is_process_bytes [OF assms(2,3)])
  show ?thesis
    using printed_counts [OF assms(5)] by (simp add: cli_run_def * process_bytes_lines)
qed

text \<open>
  Without a usable file nothing is counted: for a missing path, and for an unknown processor
  type, \<open>Run\<close> returns an error and the processors as they were; the two mmap strategies also refuse
  an empty path, where the other three read standard input.
\<close>

lemma ip_run_unknown:
  "t \<notin> set strategies \<Longrightarrow>
     ip_run w \<lparr>ProcessorType = t, FilePath = path\<rparr> lps = (lps, Some (Unknown_Processor t))"
  unfolding strategies_split de_Morgan_disj
  by (simp only: ip_run_def input_processor.simps if_False simp_thms)

lemma ip_run_missing:
  assumes "path \<noteq> []" and "w_fs w path = None" and t: "t \<in> set strategies"
  shows "ip_run w \<lparr>ProcessorType = t, FilePath = path\<rparr> lps = (lps, Some (Invalid_Path (Not_Exist path)))"
proof -
  from assms(1,2) have "checkFilePath w path = Some (Not_Exist path)" by (simp add: checkFilePath_def)
  note refuse = ip_run_file [OF assms(1)] runWithUpFrontLoadingOnFile_def runWithBufferringOnFile_def
    runWithMmapOnFile_def runWithScannerOnFile_def this option.case
  from t show ?thesis
    unfolding strategies_split by (elim disjE) (simp_all only: refuse)
qed

theorem run_refuses:
  "(path \<noteq> [] \<and> w_fs w path = None \<and> t \<in> set strategies \<longrightarrow>
      ip_run w \<lparr>ProcessorType = t, FilePath = path\<rparr> lps = (lps, Some (Invalid_Path (Not_Exist path)))) \<and>
   (t \<notin> set strategies \<longrightarrow>
      ip_run w \<lparr>ProcessorType = t, FilePath = path\<rparr> lps = (lps, Some (Unknown_Processor t))) \<and>
   (t = ''mmap'' \<or> t = ''mmap2'' \<longrightarrow>
      ip_run w \<lparr>ProcessorType = t, FilePath = []\<rparr> lps = (lps, Some (Path_Required t)))"
  using ip_run_missing ip_run_unknown by (auto simp: ip_run_def)

theorem run_refuses_witness:
  "ip_run demo_world \<lparr>ProcessorType = ''upfront'', FilePath = ''g''\<rparr> [] = ([], Some (Invalid_Path (Not_Exist ''g''))) \<and>
   ip_run demo_world \<lparr>ProcessorType = ''fast'', FilePath = ''f''\<rparr> [] = ([], Some (Unknown_Processor ''fast'')) \<and>
   ip_run demo_world \<lparr>ProcessorType = ''mmap'', FilePath = []\<rparr> [] = ([], Some (Path_Required ''mmap''))"
proof -
  have n: "''upfront'' \<in> set strategies" "''fast'' \<notin> set strategies" "w_fs demo_world ''g'' = None"
    by (simp_all add: strategies_def demo_world_def)
  note missing = mp [OF conjunct1 [OF run_refuses]]
    and unknown = mp [OF conjunct1 [OF conjunct2 [OF run_refuses]]]
    and no_path = mp [OF conjunct2 [OF conjunct2 [OF run_refuses [where path = undefined]]]]
  show ?thesis
    by (intro conjI missing unknown no_path n disjI1 refl) simp
qed

end
