(* ===== verification/Wc_Command.thy ===== *)
theory Wc_Command
  imports Wc_Spec
begin

text \<open>
  The command of \<open>wc-go\<close> (\<open>cmd/cli.go\<close>, \<open>main.go\<close>): the cobra command that \<open>Run\<close> declares, what becomes of a command line, and how
  the process ends.  cobra is a third-party package: parsing is a parameter, \<open>cobra_ok\<close> is the documented behaviour relied on, and
  \<open>simple_cobra\<close> an instance of it.  It promises nothing for the command lines it gives a meaning of its own (\<open>--help\<close>, completion).
\<close>

section \<open>Parsing the command line\<close>

record cobra_command =
  cc_Use :: string
  cc_Short :: string
  cc_Long :: string
  cc_MaximumNArgs :: nat
  cc_flag :: string
  cc_shorthand :: char
  cc_default :: string
  cc_usage :: string

text \<open>\<open>Execute\<close> fails, or shows a text of its own, or calls \<open>Run\<close> with the value of the flag and the arguments.\<close>

datatype cobra_result = Cobra_Error string | Cobra_Shown string | Cobra_Run string "string list"

type_synonym cobra = "cobra_command \<Rightarrow> string list \<Rightarrow> cobra_result"

definition plain_arg :: "string \<Rightarrow> bool" where
  "plain_arg a \<longleftrightarrow> take 1 a \<noteq> ''-'' \<and> a \<notin> {''help'', ''completion'', ''__complete'', ''__completeNoDesc''}"

definition cobra_ok :: "cobra \<Rightarrow> bool" where
  "cobra_ok parse \<longleftrightarrow>
     (\<forall>cmd args. list_all plain_arg args \<longrightarrow>
        (if length args \<le> cc_MaximumNArgs cmd
         then parse cmd args = Cobra_Run (cc_default cmd) args \<and>
           (\<forall>v. parse cmd ([CHR ''-'', cc_shorthand cmd] # v # args) = Cobra_Run v args) \<and>
           (\<forall>v. parse cmd ((''--'' @ cc_flag cmd) # v # args) = Cobra_Run v args)
         else \<exists>err. parse cmd args = Cobra_Error err))"

definition simple_cobra :: cobra where
  "simple_cobra cmd argv =
     (let (v, args) = (case argv of
             f # v # args \<Rightarrow> if f = [CHR ''-'', cc_shorthand cmd] \<or> f = ''--'' @ cc_flag cmd then (v, args) else (cc_default cmd, argv)
           | _ \<Rightarrow> (cc_default cmd, argv))
      in if \<not> list_all plain_arg args then Cobra_Shown (cc_usage cmd)
         else if length args \<le> cc_MaximumNArgs cmd then Cobra_Run v args
         else Cobra_Error ''accepts at most 1 arg(s)'')"

lemma simple_cobra_ok: "cobra_ok simple_cobra"
proof -
  have d: "\<not> plain_arg (CHR ''-'' # w)" for w by (simp add: plain_arg_def)
  have "(case args of f # v # as \<Rightarrow> if f = [CHR ''-'', cc_shorthand cmd] \<or> f = ''--'' @ cc_flag cmd then (v, as)
      else (cc_default cmd, args) | _ \<Rightarrow> (cc_default cmd, args)) = (cc_default cmd, args)"
    if "list_all plain_arg args" for args :: "string list" and cmd :: cobra_command
    using that d by (auto split: list.splits)
  then show ?thesis by (simp add: cobra_ok_def simple_cobra_def)
qed

section \<open>The command\<close>

definition rootCmd :: cobra_command where
  "rootCmd =
     \<lparr>cc_Use = ''wc-go [file]'', cc_Short = ''A word count utility'',
      cc_Long = ''A simple word count utility that can process files with different processors.'',
      cc_MaximumNArgs = 1, cc_flag = ''processor'', cc_shorthand = CHR ''p'', cc_default = ''not provided'',
      cc_usage = ''Processor to use for word counting''\<rparr>"

text \<open>How the process ends: its status, its standard output, and the error that \<open>log.Fatalf\<close> reports on the other stream.\<close>

record process_end =
  pe_status :: nat
  pe_stdout :: string
  pe_fatal :: "wc_error option"

definition wc_Run :: "cobra \<Rightarrow> world \<Rightarrow> string list \<Rightarrow> process_end" where
  "wc_Run parse w argv =
     (case parse rootCmd argv of
        Cobra_Error err \<Rightarrow> \<lparr>pe_status = 1, pe_stdout = err @ [CHR 0x0A], pe_fatal = None\<rparr>
      | Cobra_Shown text \<Rightarrow> \<lparr>pe_status = 0, pe_stdout = text, pe_fatal = None\<rparr>
      | Cobra_Run processorType args \<Rightarrow>
          (case cli_run w processorType args of
             Fatal err \<Rightarrow> \<lparr>pe_status = 1, pe_stdout = [], pe_fatal = Some err\<rparr>
           | Printed text \<Rightarrow> \<lparr>pe_status = 0, pe_stdout = text, pe_fatal = None\<rparr>))"

section \<open>Properties\<close>

lemma cobra_runs:
  assumes "cobra_ok parse" and "list_all plain_arg args" and "length args \<le> 1"
  shows "parse rootCmd args = Cobra_Run ''not provided'' args"
    and "argv \<in> {''-p'' # t # args, ''--processor'' # t # args} \<Longrightarrow> parse rootCmd argv = Cobra_Run t args"
proof -
  note c = assms(1) [unfolded cobra_ok_def, THEN spec, THEN spec, THEN mp, OF assms(2), of rootCmd]
  show "parse rootCmd args = Cobra_Run ''not provided'' args" using c assms(3) by (simp add: rootCmd_def)
  have "parse rootCmd (''-p'' # t # args) = Cobra_Run t args" "parse rootCmd (''--processor'' # t # args) = Cobra_Run t args"
    using c assms(3) by (simp_all add: rootCmd_def)
  then show "parse rootCmd argv = Cobra_Run t args" if "argv \<in> {''-p'' # t # args, ''--processor'' # t # args}"
    using that by (elim insertE) simp_all
qed





end
