(* ===== verification/Go_Chan.thy ===== *)
theory Go_Chan
  imports Go_Prelude
begin

text \<open>
  Buffered Go channels as values: the capacity given to \<open>make\<close>, the queued elements and the closed
  flag.  A send or a receive that would block, and a send or close that panics, are results of
  their own, so that a step relation can use exactly the case it needs.  The locale \<open>fifo_queue\<close> is
  what the users of a channel rely on: sends append, receives take the oldest element, and the
  capacity bounds the contents.
\<close>

section \<open>Operations\<close>

record 'a chan =
  ch_cap :: nat
  ch_buf :: "'a list"
  ch_closed :: bool

datatype 'a send_result = Sent "'a chan" | Send_Blocks | Send_Panics

datatype 'a recv_result = Received 'a "'a chan" | Recv_Closed | Recv_Blocks

definition make_chan :: "nat \<Rightarrow> 'a chan" where
  "make_chan n = \<lparr>ch_cap = n, ch_buf = [], ch_closed = False\<rparr>"

definition chan_send :: "'a \<Rightarrow> 'a chan \<Rightarrow> 'a send_result" where
  "chan_send x c =
     (if ch_closed c then Send_Panics
      else if length (ch_buf c) < ch_cap c then Sent (c\<lparr>ch_buf := ch_buf c @ [x]\<rparr>)
      else Send_Blocks)"

definition chan_recv :: "'a chan \<Rightarrow> 'a recv_result" where
  "chan_recv c =
     (case ch_buf c of
        x # xs \<Rightarrow> Received x (c\<lparr>ch_buf := xs\<rparr>)
      | [] \<Rightarrow> if ch_closed c then Recv_Closed else Recv_Blocks)"

definition chan_close :: "'a chan \<Rightarrow> 'a chan option" where
  "chan_close c = (if ch_closed c then None else Some (c\<lparr>ch_closed := True\<rparr>))"

definition chan_ok :: "'a chan \<Rightarrow> bool" where
  "chan_ok c \<longleftrightarrow> length (ch_buf c) \<le> ch_cap c"

section \<open>The queue interface\<close>

locale fifo_queue =
  fixes send :: "'a \<Rightarrow> 'c \<Rightarrow> 'c option"
    and recv :: "'c \<Rightarrow> ('a \<times> 'c) option"
    and contents :: "'c \<Rightarrow> 'a list"
    and cap :: "'c \<Rightarrow> nat"
    and ok :: "'c \<Rightarrow> bool"
  assumes send_contents: "send x c = Some c' \<Longrightarrow> contents c' = contents c @ [x]"
    and recv_contents: "recv c = Some (x, c') \<Longrightarrow> contents c = x # contents c'"
    and send_cap: "send x c = Some c' \<Longrightarrow> cap c' = cap c"
    and recv_cap: "recv c = Some (x, c') \<Longrightarrow> cap c' = cap c"
    and send_ok: "send x c = Some c' \<Longrightarrow> ok c \<Longrightarrow> ok c'"
    and recv_ok: "recv c = Some (x, c') \<Longrightarrow> ok c \<Longrightarrow> ok c'"
    and ok_bound: "ok c \<Longrightarrow> length (contents c) \<le> cap c"
begin

text \<open>
  A run of sends and receives: what went in, before what is still queued, is what came out.
\<close>

inductive run :: "'c \<Rightarrow> 'a list \<Rightarrow> 'a list \<Rightarrow> 'c \<Rightarrow> bool" where
  run_nil: "run c [] [] c"
| run_send: "run c ins outs c' \<Longrightarrow> send x c' = Some c'' \<Longrightarrow> run c (ins @ [x]) outs c''"
| run_recv: "run c ins outs c' \<Longrightarrow> recv c' = Some (x, c'') \<Longrightarrow> run c ins (outs @ [x]) c''"

lemma run_order: "run c ins outs c' \<Longrightarrow> contents c @ ins = outs @ contents c'"
proof (induction rule: run.induct)
  case (run_send c ins outs c' x c'')
  then show ?case by (simp add: send_contents flip: append_assoc)
next
  case (run_recv c ins outs c' x c'')
  then show ?case using recv_contents by fastforce
qed simp

lemma run_ok: "run c ins outs c' \<Longrightarrow> ok c \<Longrightarrow> ok c'"
  by (induction rule: run.induct) (auto intro: send_ok recv_ok)

lemma run_cap: "run c ins outs c' \<Longrightarrow> cap c' = cap c"
  by (induction rule: run.induct) (auto dest: send_cap recv_cap)

lemma run_bound: "run c ins outs c' \<Longrightarrow> ok c \<Longrightarrow> length (contents c') \<le> cap c"
  using run_ok run_cap ok_bound by metis

end

definition chan_try_send :: "'a \<Rightarrow> 'a chan \<Rightarrow> 'a chan option" where
  "chan_try_send x c = (case chan_send x c of Sent c' \<Rightarrow> Some c' | _ \<Rightarrow> None)"

definition chan_try_recv :: "'a chan \<Rightarrow> ('a \<times> 'a chan) option" where
  "chan_try_recv c = (case chan_recv c of Received x c' \<Rightarrow> Some (x, c') | _ \<Rightarrow> None)"

lemma chan_send_Sent:
  "chan_send x c = Sent c' \<longleftrightarrow>
     \<not> ch_closed c \<and> length (ch_buf c) < ch_cap c \<and> c' = c\<lparr>ch_buf := ch_buf c @ [x]\<rparr>"
  by (auto simp: chan_send_def)

lemma chan_recv_Received:
  "chan_recv c = Received x c' \<longleftrightarrow> (\<exists>xs. ch_buf c = x # xs \<and> c' = c\<lparr>ch_buf := xs\<rparr>)"
  by (auto simp: chan_recv_def split: list.split)

lemma chan_recv_Closed: "chan_recv c = Recv_Closed \<longleftrightarrow> ch_buf c = [] \<and> ch_closed c"
  by (auto simp: chan_recv_def split: list.split)

lemma chan_close_Some: "chan_close c = Some c' \<longleftrightarrow> \<not> ch_closed c \<and> c' = c\<lparr>ch_closed := True\<rparr>"
  by (auto simp: chan_close_def)

lemma try_send_Some: "chan_try_send x c = Some c' \<longleftrightarrow> chan_send x c = Sent c'"
  by (auto simp: chan_try_send_def split: send_result.split)

lemma try_recv_Some: "chan_try_recv c = Some (x, c') \<longleftrightarrow> chan_recv c = Received x c'"
  by (auto simp: chan_try_recv_def split: recv_result.split)

lemmas chan_iffs = chan_send_Sent chan_recv_Received chan_recv_Closed chan_close_Some
  try_send_Some try_recv_Some

interpretation chan: fifo_queue chan_try_send chan_try_recv ch_buf ch_cap chan_ok
  by unfold_locales (auto simp: chan_iffs chan_ok_def)

lemma make_chan_ok [simp]: "chan_ok (make_chan n)"
  by (simp add: chan_ok_def make_chan_def)

end
