(* ===== verification/Doc_Load.thy ===== *)
theory Doc_Load
  imports Go_Chan
begin

text \<open>
  The source of the document pipeline: \<open>doc-pipeline/internal/ingest/ingest.go\<close> (\<open>LoadData\<close>) and
  \<open>doc-pipeline/internal/load/load_generator.go\<close> (random requests at a fixed rate).  Arithmetic on
  sizes is written with its 64-bit wrap-around; the theorems show that it never wraps.  The random
  generator is a stream of draws, \<open>Intn(n)\<close> being the next draw reduced below \<open>n\<close>: the theorems hold
  for every stream, so for whatever the generator returns.
\<close>

section \<open>Loading a slice of a file\<close>

record data_loading_config =
  dl_ID :: string
  dl_FilePath :: string
  dl_Offset :: int
  dl_TextSize :: int

record document =
  doc_ID :: string
  doc_Text :: bytes

datatype load_error = Open_Error string | Seek_Error | Read_Error string

record disk_file =
  df_open_err :: "string option"
  df_read_err :: "string option"
  df_content :: bytes

type_synonym disk = "string \<Rightarrow> disk_file option"

text \<open>
  \<open>io.ReadAll(io.LimitReader(file, n))\<close> from a seek position: a limit that is not positive ends the
  reader before the file is touched, and a position beyond the end of the file reads nothing.
\<close>

definition read_limited :: "disk_file \<Rightarrow> int \<Rightarrow> int \<Rightarrow> load_error + bytes" where
  "read_limited f pos n =
     (if n \<le> 0 then Inr []
      else case df_read_err f of
             Some m \<Rightarrow> Inl (Read_Error m)
           | None \<Rightarrow> Inr (take (nat n) (drop (nat pos) (df_content f))))"

definition LoadData :: "disk \<Rightarrow> data_loading_config \<Rightarrow> load_error + document" where
  "LoadData disk config =
     (case disk (dl_FilePath config) of
        None \<Rightarrow> Inl (Open_Error ''no such file or directory'')
      | Some f \<Rightarrow>
          (case df_open_err f of
             Some m \<Rightarrow> Inl (Open_Error m)
           | None \<Rightarrow>
               if dl_Offset config < 0 then Inl Seek_Error
               else
                 (case read_limited f (dl_Offset config) (dl_TextSize config) of
                    Inl e \<Rightarrow> Inl e
                  | Inr data \<Rightarrow> Inr \<lparr>doc_ID = dl_ID config, doc_Text = data\<rparr>)))"

section \<open>Random requests\<close>

record load_generator_config =
  MinTextSize :: int
  MaxTextSize :: int
  IDPrefix :: string
  RatePerSec :: int
  FilePath :: string
  FileSize :: int

record rng =
  rng_draws :: "nat \<Rightarrow> nat"
  rng_pos :: nat

text \<open>\<open>rand.Intn\<close> panics (\<open>None\<close>) unless its argument is positive.\<close>

definition intn :: "int \<Rightarrow> rng \<Rightarrow> (int \<times> rng) option" where
  "intn n r =
     (if n \<le> 0 then None
      else Some (int (rng_draws r (rng_pos r)) mod n, r\<lparr>rng_pos := rng_pos r + 1\<rparr>))"

definition clamp_sizes :: "load_generator_config \<Rightarrow> int \<times> int" where
  "clamp_sizes config =
     (let minSize = MinTextSize config;
          maxSize = MaxTextSize config;
          minSize = (if minSize < 1 then 1 else minSize);
          maxSize = (if maxSize < minSize then minSize else maxSize);
          maxSize = (if maxSize > FileSize config then FileSize config else maxSize);
          minSize = (if minSize > FileSize config then FileSize config else minSize)
      in (minSize, maxSize))"

definition generateRandomDataLoadingRequest ::
  "load_generator_config \<Rightarrow> int \<Rightarrow> rng \<Rightarrow> (data_loading_config \<times> rng) option" where
  "generateRandomDataLoadingRequest config counter rng =
     (let (minSize, maxSize) = clamp_sizes config in
      case (if maxSize = minSize then Some (minSize, rng)
            else map_option (\<lambda>(d, r). (wrap64 (minSize + d), r))
                   (intn (wrap64 (wrap64 (maxSize - minSize) + 1)) rng)) of
        None \<Rightarrow> None
      | Some (textSize, rng) \<Rightarrow>
          (let maxOffset = wrap64 (FileSize config - textSize);
               maxOffset = (if maxOffset < 0 then 0 else maxOffset)
           in case (if maxOffset = 0 then Some (0, rng) else intn (wrap64 (maxOffset + 1)) rng) of
                None \<Rightarrow> None
              | Some (offset, rng) \<Rightarrow>
                  Some (\<lparr>dl_ID = IDPrefix config @ ''-'' @ show_int counter,
                         dl_FilePath = FilePath config,
                         dl_Offset = offset,
                         dl_TextSize = textSize\<rparr>, rng)))"

section \<open>The generator goroutine\<close>

record load_generator =
  lg_config :: load_generator_config
  lg_bufferSize :: int
  lg_counter :: int
  lg_rng :: rng

definition DefaultBufferSize :: int where
  "DefaultBufferSize = 100"

definition NewLoadGenerator :: "load_generator_config \<Rightarrow> int \<Rightarrow> rng \<Rightarrow> load_generator" where
  "NewLoadGenerator config bufferSize seeded =
     (let bufferSize = (if bufferSize \<le> 0 then DefaultBufferSize else bufferSize)
      in \<lparr>lg_config = config, lg_bufferSize = bufferSize, lg_counter = 0, lg_rng = seeded\<rparr>)"

text \<open>
  \<open>time.NewTicker(time.Second / time.Duration(RatePerSec))\<close>: integer division by zero panics, and so
  does a ticker whose interval is not positive.
\<close>

definition ticker_interval :: "int \<Rightarrow> int option" where
  "ticker_interval rate =
     (if rate = 0 then None
      else (let d = sgn rate * (1000000000 div \<bar>rate\<bar>) in if d \<le> 0 then None else Some d))"

text \<open>
  The loop of \<open>Run\<close>: it waits for a tick or for cancellation, or is stuck in \<open>out <- req\<close>, which
  only the consumer can unblock; when it returns the deferred \<open>close(out)\<close> runs.  The consumer
  (\<open>lg_got\<close>) and the two metrics are part of the state.
\<close>

datatype lg_phase = Waiting | Sending data_loading_config | Stopped

record lg_state =
  lg_gen :: load_generator
  lg_phase :: lg_phase
  lg_out :: "data_loading_config chan"
  lg_done :: bool
  lg_requests :: int
  lg_sizes :: "int list"
  lg_got :: "data_loading_config list"

definition lg_start :: "load_generator \<Rightarrow> lg_state option" where
  "lg_start g =
     (case ticker_interval (RatePerSec (lg_config g)) of
        None \<Rightarrow> None
      | Some _ \<Rightarrow> Some \<lparr>lg_gen = g, lg_phase = Waiting, lg_out = make_chan 100, lg_done = False,
                        lg_requests = 0, lg_sizes = [], lg_got = []\<rparr>)"

inductive lg_step :: "lg_state \<Rightarrow> lg_state \<Rightarrow> bool" where
  lg_tick: "lg_phase s = Waiting \<Longrightarrow>
    generateRandomDataLoadingRequest (lg_config (lg_gen s)) (lg_counter (lg_gen s)) (lg_rng (lg_gen s))
      = Some (req, rng') \<Longrightarrow>
    lg_step s (s\<lparr>lg_gen := (lg_gen s)\<lparr>lg_rng := rng'\<rparr>, lg_phase := Sending req,
      lg_requests := lg_requests s + 1, lg_sizes := lg_sizes s @ [dl_TextSize req]\<rparr>)"
| lg_send: "lg_phase s = Sending req \<Longrightarrow> chan_send req (lg_out s) = Sent out' \<Longrightarrow>
    lg_step s (s\<lparr>lg_out := out', lg_phase := Waiting,
      lg_gen := (lg_gen s)\<lparr>lg_counter := wrap64 (lg_counter (lg_gen s) + 1)\<rparr>\<rparr>)"
| lg_stop: "lg_phase s = Waiting \<Longrightarrow> lg_done s \<Longrightarrow> chan_close (lg_out s) = Some out' \<Longrightarrow>
    lg_step s (s\<lparr>lg_out := out', lg_phase := Stopped\<rparr>)"
| lg_cancel: "lg_step s (s\<lparr>lg_done := True\<rparr>)"
| lg_consume: "chan_recv (lg_out s) = Received x out' \<Longrightarrow>
    lg_step s (s\<lparr>lg_out := out', lg_got := lg_got s @ [x]\<rparr>)"

inductive lg_reach :: "load_generator \<Rightarrow> lg_state \<Rightarrow> bool" for g where
  lg_init: "lg_start g = Some s \<Longrightarrow> lg_reach g s"
| lg_next: "lg_reach g s \<Longrightarrow> lg_step s t \<Longrightarrow> lg_reach g t"

inductive_cases lg_stepE: "lg_step s t"

section \<open>Sizes and offsets\<close>

definition config_ok :: "load_generator_config \<Rightarrow> bool" where
  "config_ok c \<longleftrightarrow> int64_range (MinTextSize c) \<and> int64_range (MaxTextSize c) \<and> int64_range (FileSize c)"

definition request_id :: "load_generator_config \<Rightarrow> int \<Rightarrow> string" where
  "request_id c n = IDPrefix c @ ''-'' @ show_int n"

definition valid_request :: "load_generator_config \<Rightarrow> int \<Rightarrow> data_loading_config \<Rightarrow> bool" where
  "valid_request c n req \<longleftrightarrow>
     dl_ID req = request_id c n \<and> dl_FilePath req = FilePath c \<and>
     fst (clamp_sizes c) \<le> dl_TextSize req \<and> dl_TextSize req \<le> snd (clamp_sizes c) \<and>
     0 \<le> dl_Offset req \<and> dl_Offset req + dl_TextSize req \<le> FileSize c"

lemma request_id_inject: "request_id c m = request_id c n \<longleftrightarrow> m = n"
  by (simp add: request_id_def)

lemma clamp_order: "fst (clamp_sizes c) \<le> snd (clamp_sizes c)"
  by (auto simp: clamp_sizes_def Let_def)

lemma clamp_file: "snd (clamp_sizes c) \<le> FileSize c" "1 \<le> FileSize c \<Longrightarrow> 1 \<le> fst (clamp_sizes c)"
  "FileSize c < 1 \<Longrightarrow> clamp_sizes c = (FileSize c, FileSize c)"
  by (auto simp: clamp_sizes_def Let_def)

lemma clamp_user:
  "1 \<le> FileSize c \<Longrightarrow> MinTextSize c \<le> FileSize c \<Longrightarrow> MinTextSize c \<le> fst (clamp_sizes c)"
  "MinTextSize c \<le> MaxTextSize c \<Longrightarrow> 1 \<le> MaxTextSize c \<Longrightarrow> snd (clamp_sizes c) \<le> MaxTextSize c"
  by (auto simp: clamp_sizes_def Let_def)

lemma clamp_range: "config_ok c \<Longrightarrow> int64_range (fst (clamp_sizes c)) \<and> int64_range (snd (clamp_sizes c))"
  by (auto simp: clamp_sizes_def Let_def config_ok_def int64_range_def)

lemma intn_Some: "0 < n \<Longrightarrow> \<exists>d r'. intn n r = Some (d, r') \<and> 0 \<le> d \<and> d < n"
  by (simp add: intn_def)

lemma generate_valid:
  assumes "config_ok c"
  shows "\<exists>req rng'. generateRandomDataLoadingRequest c n rng = Some (req, rng') \<and> valid_request c n req"
proof -
  let ?F = "FileSize c"
  obtain mn mx where cl: "clamp_sizes c = (mn, mx)" by fastforce
  have le: "mn \<le> mx" "mx \<le> ?F" using clamp_order [of c] clamp_file(1) [of c] by (simp_all add: cl)
  have pos: "1 \<le> ?F \<Longrightarrow> 1 \<le> mn" and neg: "?F < 1 \<Longrightarrow> mn = mx \<and> mx = ?F"
    using clamp_file(2,3) [of c] by (auto simp: cl)
  have rF: "?F < 2 ^ 63" and rM: "- (2 ^ 63) \<le> mn"
    using assms clamp_range [OF assms] by (auto simp: config_ok_def int64_range_def cl)
  obtain textSize rng1 where
    size: "(if mx = mn then Some (mn, rng)
      else map_option (\<lambda>(d, r). (wrap64 (mn + d), r)) (intn (wrap64 (wrap64 (mx - mn) + 1)) rng)) = Some (textSize, rng1)"
    and bounds: "mn \<le> textSize" "textSize \<le> mx"
  proof (cases "mx = mn")
    case False
    then have "1 \<le> mn" using pos neg by linarith
    then have w: "wrap64 (wrap64 (mx - mn) + 1) = mx - mn + 1"
      using le rF by (simp add: int64_range_def)
    obtain d r' where d: "intn (mx - mn + 1) rng = Some (d, r')" "0 \<le> d" "d < mx - mn + 1"
      using intn_Some [of "mx - mn + 1" rng] le False by auto
    have "wrap64 (mn + d) = mn + d" using d le rF \<open>1 \<le> mn\<close> by (simp add: int64_range_def)
    then show ?thesis using that [of "mn + d" r'] d False by (simp add: w)
  qed (use that le in auto)
  have nonneg: "0 \<le> ?F - textSize" using bounds le by simp
  have small: "?F - textSize < 2 ^ 63 - 1"
  proof (cases "1 \<le> ?F")
    case True
    with pos bounds rF show ?thesis by simp
  next
    case False
    with neg bounds show ?thesis by simp
  qed
  have off: "wrap64 (?F - textSize) = ?F - textSize" "0 \<le> ?F - textSize"
    using nonneg small by (simp_all add: int64_range_def)
  obtain offset rng2 where
    ofs: "(if ?F - textSize = 0 then Some (0, rng1) else intn (wrap64 (?F - textSize + 1)) rng1) = Some (offset, rng2)"
    and ob: "0 \<le> offset" "offset \<le> ?F - textSize"
  proof (cases "?F - textSize = 0")
    case False
    have w: "wrap64 (?F - textSize + 1) = ?F - textSize + 1"
      using nonneg small by (simp add: int64_range_def)
    show ?thesis
      using that intn_Some [of "?F - textSize + 1" rng1] nonneg False by (auto simp: w)
  qed (use that off in auto)
  have m: "(if ?F - textSize < 0 then 0 else ?F - textSize) = ?F - textSize" using off(2) by simp
  have "generateRandomDataLoadingRequest c n rng =
      Some (\<lparr>dl_ID = request_id c n, dl_FilePath = FilePath c, dl_Offset = offset, dl_TextSize = textSize\<rparr>, rng2)"
    unfolding generateRandomDataLoadingRequest_def cl Let_def prod.case size option.case off(1) m ofs
      request_id_def by (rule refl)
  then show ?thesis
    using ob bounds le by (auto simp: valid_request_def cl)
qed

lemma generate_Some_valid:
  "config_ok c \<Longrightarrow> generateRandomDataLoadingRequest c n rng = Some (req, rng') \<Longrightarrow> valid_request c n req"
  using generate_valid [of c n rng] by auto

section \<open>The generator loop\<close>

definition lg_pending :: "lg_state \<Rightarrow> data_loading_config list" where
  "lg_pending s = (case lg_phase s of Sending req \<Rightarrow> [req] | _ \<Rightarrow> [])"

definition lg_issued :: "lg_state \<Rightarrow> data_loading_config list" where
  "lg_issued s = lg_got s @ ch_buf (lg_out s) @ lg_pending s"

definition lg_inv :: "load_generator \<Rightarrow> lg_state \<Rightarrow> bool" where
  "lg_inv g s \<longleftrightarrow>
     lg_config (lg_gen s) = lg_config g \<and>
     lg_requests s = int (length (lg_issued s)) \<and>
     lg_sizes s = map dl_TextSize (lg_issued s) \<and>
     chan_ok (lg_out s) \<and> ch_cap (lg_out s) = 100 \<and>
     (ch_closed (lg_out s) \<longleftrightarrow> lg_phase s = Stopped) \<and>
     (lg_requests s < 2 ^ 63 \<longrightarrow>
        lg_counter (lg_gen s) = int (length (lg_got s @ ch_buf (lg_out s))) \<and>
        list_all2 (valid_request (lg_config g)) (map int [0..<length (lg_issued s)]) (lg_issued s))"

lemma list_all2_int_snoc:
  "list_all2 P (map int [0..<length xs]) xs \<Longrightarrow> P (int (length xs)) x \<Longrightarrow>
   list_all2 P (map int [0..<length (xs @ [x])]) (xs @ [x])"
  by (simp add: list_all2_appendI)

lemma lg_inv_init: "lg_start g = Some s \<Longrightarrow> lg_counter g = 0 \<Longrightarrow> lg_inv g s"
  by (auto simp: lg_start_def lg_inv_def lg_issued_def lg_pending_def make_chan_def chan_ok_def
      split: option.splits)

lemma lg_inv_tick:
  assumes inv: "lg_inv g s" and ok: "config_ok (lg_config g)" and w: "lg_phase s = Waiting"
    and gen: "generateRandomDataLoadingRequest (lg_config (lg_gen s)) (lg_counter (lg_gen s)) (lg_rng (lg_gen s))
      = Some (req, rng')"
  shows "lg_inv g (s\<lparr>lg_gen := (lg_gen s)\<lparr>lg_rng := rng'\<rparr>, lg_phase := Sending req,
      lg_requests := lg_requests s + 1, lg_sizes := lg_sizes s @ [dl_TextSize req]\<rparr>)"
    (is "lg_inv g ?t")
proof -
  have iss: "lg_issued ?t = lg_issued s @ [req]" "lg_issued s = lg_got s @ ch_buf (lg_out s)"
    by (simp_all add: lg_issued_def lg_pending_def w)
  have valid: "valid_request (lg_config g) (lg_counter (lg_gen s)) req"
    using generate_Some_valid [OF _ gen] inv ok by (simp add: lg_inv_def)
  show ?thesis
    using inv valid w list_all2_int_snoc [of "valid_request (lg_config g)" "lg_issued s" req]
    unfolding lg_inv_def iss(1) by (auto simp: iss(2))
qed

lemma lg_inv_send:
  assumes inv: "lg_inv g s" and p: "lg_phase s = Sending req" and snd: "chan_send req (lg_out s) = Sent out'"
  shows "lg_inv g (s\<lparr>lg_out := out', lg_phase := Waiting,
      lg_gen := (lg_gen s)\<lparr>lg_counter := wrap64 (lg_counter (lg_gen s) + 1)\<rparr>\<rparr>)"
    (is "lg_inv g ?t")
proof -
  have iss: "lg_issued ?t = lg_issued s" "lg_issued s = lg_got s @ ch_buf (lg_out s) @ [req]"
    using snd by (auto simp: lg_issued_def lg_pending_def p chan_iffs)
  have "wrap64 (lg_counter (lg_gen s) + 1) = lg_counter (lg_gen s) + 1" if "lg_requests s < 2 ^ 63"
    using inv that by (auto simp: lg_inv_def iss(2) int64_range_def)
  then show ?thesis
    using inv snd p unfolding lg_inv_def iss(1) by (auto simp: chan_iffs chan_ok_def)
qed

lemma lg_inv_step:
  assumes "lg_step s t" and inv: "lg_inv g s" and ok: "config_ok (lg_config g)"
  shows "lg_inv g t"
  using assms(1)
proof cases
  case (lg_tick req rng')
  show ?thesis unfolding lg_tick(1) by (rule lg_inv_tick [OF inv ok lg_tick(2,3)])
next
  case (lg_send req out')
  show ?thesis unfolding lg_send(1) by (rule lg_inv_send [OF inv lg_send(2,3)])
next
  case (lg_stop out')
  then have "lg_issued t = lg_issued s" by (auto simp: lg_issued_def lg_pending_def chan_iffs)
  with lg_stop inv show ?thesis by (auto simp: lg_inv_def chan_iffs chan_ok_def)
next
  case lg_cancel
  then have "lg_issued t = lg_issued s" by (auto simp: lg_issued_def lg_pending_def)
  with lg_cancel inv show ?thesis by (auto simp: lg_inv_def)
next
  case (lg_consume x out')
  then have "lg_issued t = lg_issued s" by (auto simp: lg_issued_def lg_pending_def chan_iffs)
  with lg_consume inv show ?thesis by (auto simp: lg_inv_def chan_iffs chan_ok_def)
qed

lemma lg_reach_inv:
  "lg_reach g s \<Longrightarrow> config_ok (lg_config g) \<Longrightarrow> lg_counter g = 0 \<Longrightarrow> lg_inv g s"
  by (induction rule: lg_reach.induct) (auto intro: lg_inv_init lg_inv_step)

section \<open>Properties\<close>

definition demo_config :: load_generator_config where
  "demo_config = \<lparr>MinTextSize = 2, MaxTextSize = 5, IDPrefix = ''doc'', RatePerSec = 4000,
     FilePath = ''t'', FileSize = 8\<rparr>"

definition demo_rng :: rng where
  "demo_rng = \<lparr>rng_draws = (\<lambda>n. 7 * n + 5), rng_pos = 0\<rparr>"

lemma demo_config_ok: "config_ok demo_config"
  by (simp add: config_ok_def demo_config_def int64_range_def)

text \<open>
  C6: \<open>generateRandomDataLoadingRequest\<close> never panics and never overflows, for every configuration
  of 64-bit sizes (negative, zero and inverted ones included) and every random generator: it returns
  a request with the id \<open>prefix-counter\<close> whose text size lies between the clamped sizes and whose
  slice lies inside a file of the configured size.
\<close>

theorem generate_request_bounds:
  assumes "int64_range (MinTextSize c)" and "int64_range (MaxTextSize c)" and "int64_range (FileSize c)"
  shows "\<exists>req rng'. generateRandomDataLoadingRequest c n rng = Some (req, rng') \<and>
    dl_ID req = IDPrefix c @ ''-'' @ show_int n \<and>
    fst (clamp_sizes c) \<le> dl_TextSize req \<and> dl_TextSize req \<le> snd (clamp_sizes c) \<and>
    0 \<le> dl_Offset req \<and> dl_Offset req + dl_TextSize req \<le> FileSize c \<and>
    (1 \<le> FileSize c \<longrightarrow> 1 \<le> dl_TextSize req)"
proof -
  have "config_ok c" using assms by (simp add: config_ok_def)
  from generate_valid [OF this] obtain req rng' where
    "generateRandomDataLoadingRequest c n rng = Some (req, rng')" "valid_request c n req" by blast
  then show ?thesis
    using clamp_file(2) [of c] by (auto simp: valid_request_def request_id_def)
qed

theorem generate_request_bounds_witness:
  "\<exists>req rng'. generateRandomDataLoadingRequest demo_config 7 demo_rng = Some (req, rng') \<and>
     2 \<le> dl_TextSize req \<and> dl_TextSize req \<le> 5 \<and> dl_Offset req + dl_TextSize req \<le> 8"
proof -
  have r: "int64_range (MinTextSize demo_config)" "int64_range (MaxTextSize demo_config)"
    "int64_range (FileSize demo_config)"
    using demo_config_ok by (simp_all add: config_ok_def)
  have c: "clamp_sizes demo_config = (2, 5)" "FileSize demo_config = 8"
    by (simp_all add: clamp_sizes_def demo_config_def)
  from generate_request_bounds [OF r, of 7 demo_rng] show ?thesis by (auto simp: c)
qed

text \<open>
  A generated request is always served in full: when the configured file exists with the
  configured size, \<open>LoadData\<close> returns, without error, a document with the id of the request and
  exactly \<open>TextSize\<close> bytes, those of the file from \<open>Offset\<close> on.
\<close>

theorem generated_request_loads_fully:
  assumes "config_ok c" and "generateRandomDataLoadingRequest c n rng = Some (req, rng')"
    and "disk (FilePath c) = Some \<lparr>df_open_err = None, df_read_err = None, df_content = content\<rparr>"
    and "FileSize c = int (length content)" and "content \<noteq> []"
  shows "\<exists>doc. LoadData disk req = Inr doc \<and> doc_ID doc = dl_ID req \<and>
    int (length (doc_Text doc)) = dl_TextSize req \<and>
    (\<forall>i < length (doc_Text doc). doc_Text doc ! i = content ! (nat (dl_Offset req) + i))"
proof -
  have v: "valid_request c n req" by (rule generate_Some_valid [OF assms(1,2)])
  have pos: "1 \<le> dl_TextSize req"
    using v clamp_file(2) [of c] assms(4,5) by (cases content) (auto simp: valid_request_def)
  have load: "LoadData disk req =
      Inr \<lparr>doc_ID = dl_ID req, doc_Text = take (nat (dl_TextSize req)) (drop (nat (dl_Offset req)) content)\<rparr>"
    using v pos assms(3) by (simp add: LoadData_def read_limited_def valid_request_def)
  have "nat (dl_Offset req) + nat (dl_TextSize req) = nat (dl_Offset req + dl_TextSize req)"
    using v pos by (simp add: valid_request_def nat_add_distrib)
  then have "nat (dl_Offset req) + nat (dl_TextSize req) \<le> length content"
    using v assms(4) by (simp add: valid_request_def nat_le_iff)
  then show ?thesis
    using pos by (simp add: load min_absorb2)
qed

definition demo_disk :: disk where
  "demo_disk = [''t'' \<mapsto> \<lparr>df_open_err = None, df_read_err = None, df_content = [1, 2, 3, 4, 5, 6, 7, 8]\<rparr>]"

theorem generated_request_loads_fully_witness:
  "\<exists>req rng' doc. generateRandomDataLoadingRequest demo_config 0 demo_rng = Some (req, rng') \<and>
     LoadData demo_disk req = Inr doc \<and> int (length (doc_Text doc)) = dl_TextSize req"
proof -
  obtain req rng' where g: "generateRandomDataLoadingRequest demo_config 0 demo_rng = Some (req, rng')"
    using generate_valid [OF demo_config_ok] by blast
  have "demo_disk (FilePath demo_config) =
      Some \<lparr>df_open_err = None, df_read_err = None, df_content = [1, 2, 3, 4, 5, 6, 7, 8]\<rparr>"
    "FileSize demo_config = int (length ([1, 2, 3, 4, 5, 6, 7, 8] :: bytes))"
    by (simp_all add: demo_disk_def demo_config_def)
  from generated_request_loads_fully [where disk = demo_disk, OF demo_config_ok g this] g
  show ?thesis by auto
qed

text \<open>
  C7: in every reachable state of the generator goroutine, under every interleaving with its
  consumer and with cancellation: the requests handed out, queued or being sent carry the
  consecutive ids \<open>prefix-0\<close>, \<open>prefix-1\<close>, ... and are all valid, the request counter counts them, the
  recorded text sizes are theirs, the queue holds at most 100 of them, and the channel is closed
  exactly when the goroutine has stopped (so no send panics).
\<close>

theorem generator_invariant:
  assumes "lg_reach (NewLoadGenerator c b seeded) s" and "config_ok c" and "lg_requests s < 2 ^ 63"
  shows "map dl_ID (lg_issued s) = map (\<lambda>i. IDPrefix c @ ''-'' @ show_int (int i)) [0..<length (lg_issued s)] \<and>
    distinct (map dl_ID (lg_issued s)) \<and>
    (\<forall>req \<in> set (lg_issued s). 0 \<le> dl_Offset req \<and> dl_Offset req + dl_TextSize req \<le> FileSize c) \<and>
    lg_requests s = int (length (lg_issued s)) \<and> lg_sizes s = map dl_TextSize (lg_issued s) \<and>
    length (ch_buf (lg_out s)) \<le> 100 \<and> (ch_closed (lg_out s) \<longleftrightarrow> lg_phase s = Stopped)"
proof -
  have g: "lg_config (NewLoadGenerator c b seeded) = c" "lg_counter (NewLoadGenerator c b seeded) = 0"
    by (simp_all add: NewLoadGenerator_def)
  have inv: "lg_inv (NewLoadGenerator c b seeded) s"
    using lg_reach_inv [OF assms(1)] assms(2) by (simp add: g)
  then have all: "list_all2 (valid_request c) (map int [0..<length (lg_issued s)]) (lg_issued s)"
    using assms(3) by (simp add: lg_inv_def g)
  then have v: "valid_request c (int i) (lg_issued s ! i)" if "i < length (lg_issued s)" for i
    using that by (simp add: list_all2_conv_all_nth)
  have ids: "map dl_ID (lg_issued s) = map (\<lambda>i. request_id c (int i)) [0..<length (lg_issued s)]"
    by (rule nth_equalityI) (use v in \<open>simp_all add: valid_request_def\<close>)
  have "distinct (map dl_ID (lg_issued s))"
    unfolding ids by (simp add: distinct_map inj_on_def request_id_inject)
  moreover have "0 \<le> dl_Offset req \<and> dl_Offset req + dl_TextSize req \<le> FileSize c"
    if "req \<in> set (lg_issued s)" for req
    using v that unfolding in_set_conv_nth by (auto simp: valid_request_def)
  ultimately show ?thesis
    using inv ids by (auto simp: lg_inv_def chan_ok_def request_id_def)
qed

lemma demo_start: "\<exists>s. lg_start (NewLoadGenerator demo_config 0 demo_rng) = Some s \<and> lg_requests s = 0 \<and>
    lg_phase s = Waiting \<and> lg_gen s = NewLoadGenerator demo_config 0 demo_rng"
  by (simp add: lg_start_def ticker_interval_def NewLoadGenerator_def demo_config_def)

lemma upt_1: "[0..<1] = [0]"
  by simp

theorem generator_invariant_witness:
  "\<exists>s. lg_reach (NewLoadGenerator demo_config 0 demo_rng) s \<and> lg_requests s = 1 \<and>
     map dl_ID (lg_issued s) = [''doc-0'']"
proof -
  let ?g = "NewLoadGenerator demo_config 0 demo_rng"
  obtain s where s: "lg_start ?g = Some s" "lg_requests s = 0" "lg_phase s = Waiting" "lg_gen s = ?g"
    using demo_start by blast
  obtain req rng' where gen: "generateRandomDataLoadingRequest demo_config 0 demo_rng = Some (req, rng')"
    using generate_valid [OF demo_config_ok] by blast
  let ?t = "s\<lparr>lg_gen := (lg_gen s)\<lparr>lg_rng := rng'\<rparr>, lg_phase := Sending req,
      lg_requests := lg_requests s + 1, lg_sizes := lg_sizes s @ [dl_TextSize req]\<rparr>"
  have "lg_step s ?t"
    using gen by (intro lg_tick s(3)) (simp add: s(4) NewLoadGenerator_def)
  then have r: "lg_reach ?g ?t" using s(1) lg_init lg_next by blast
  have n: "lg_requests ?t = 1" by (simp add: s(2))
  then have small: "lg_requests ?t < 2 ^ 63" by simp
  note inv = generator_invariant [OF r demo_config_ok small]
  have "length (lg_issued ?t) = 1" using inv n by simp
  note len = this
  have "show_int (int 0) = ''0''" by code_simp
  then have id0: "IDPrefix demo_config @ ''-'' @ show_int (int 0) = ''doc-0''"
    by (simp add: demo_config_def)
  have "map dl_ID (lg_issued ?t) =
      map (\<lambda>i. IDPrefix demo_config @ ''-'' @ show_int (int i)) [0..<length (lg_issued ?t)]"
    using inv by blast
  also have "\<dots> = [''doc-0'']" by (simp only: len upt_1 list.map id0)
  finally have "map dl_ID (lg_issued ?t) = [''doc-0'']" .
  show ?thesis by (intro exI conjI) fact+
qed

text \<open>
  The generator goroutine does not see cancellation while it is blocked in \<open>out <- req\<close>: with a
  full queue and a consumer that has gone, every step leaves a cancelled generator where it is, so it
  neither stops nor closes its channel.
\<close>

theorem blocked_generator_ignores_cancel:
  assumes "lg_phase s = Sending req" and "length (ch_buf (lg_out s)) = ch_cap (lg_out s)"
    and "lg_done s" and "lg_step s t" and "lg_got t = lg_got s"
  shows "t = s"
  using assms(4)
  by cases (use assms(1,2,3,5) in \<open>auto simp: chan_iffs\<close>)

theorem blocked_generator_ignores_cancel_witness:
  "let s = \<lparr>lg_gen = NewLoadGenerator demo_config 0 demo_rng,
       lg_phase = Sending \<lparr>dl_ID = ''doc-1'', dl_FilePath = ''t'', dl_Offset = 0, dl_TextSize = 1\<rparr>,
       lg_out = make_chan 0, lg_done = True, lg_requests = 1, lg_sizes = [1], lg_got = []\<rparr>
   in \<forall>t. lg_step s t \<and> lg_got t = lg_got s \<longrightarrow> t = s"
  using blocked_generator_ignores_cancel by (auto simp: Let_def make_chan_def)

text \<open>
  Starting the generator panics exactly for the rates whose interval is not a positive number of
  nanoseconds: zero, negative rates and rates above one billion per second; the queue it starts with
  has capacity 100 whatever buffer size was configured.
\<close>

theorem generator_start_rates:
  "(lg_start (NewLoadGenerator c b seeded) \<noteq> None \<longleftrightarrow> 1 \<le> RatePerSec c \<and> RatePerSec c \<le> 1000000000) \<and>
   (\<forall>s. lg_start (NewLoadGenerator c b seeded) = Some s \<longrightarrow> ch_cap (lg_out s) = 100)"
proof -
  have "ticker_interval r \<noteq> None \<longleftrightarrow> 1 \<le> r \<and> r \<le> 1000000000" for r
  proof -
    have "0 < 1000000000 div r \<longleftrightarrow> r \<le> 1000000000" if "0 < r"
      using that by (simp add: pos_imp_zdiv_pos_iff)
    moreover have "0 \<le> 1000000000 div \<bar>r\<bar>" by (simp add: div_int_pos_iff)
    ultimately show ?thesis
      by (auto simp: ticker_interval_def Let_def sgn_if not_le mult_le_0_iff)
  qed
  from this [of "RatePerSec c"] show ?thesis
    by (cases "ticker_interval (RatePerSec c)") (auto simp: lg_start_def NewLoadGenerator_def make_chan_def)
qed

theorem generator_start_rates_witness:
  "lg_start (NewLoadGenerator demo_config 7 demo_rng) \<noteq> None \<and>
   lg_start (NewLoadGenerator (demo_config\<lparr>RatePerSec := 0\<rparr>) 7 demo_rng) = None \<and>
   (\<exists>s. lg_start (NewLoadGenerator demo_config 7 demo_rng) = Some s \<and> ch_cap (lg_out s) = 100)"
  using generator_start_rates [of demo_config 7 demo_rng]
    generator_start_rates [of "demo_config\<lparr>RatePerSec := 0\<rparr>" 7 demo_rng]
  by (auto simp: demo_config_def)

end
