(* ===== verification/Doc_Tokenize.thy ===== *)
theory Doc_Tokenize
  imports Go_Utf8 Doc_Load
begin

text \<open>
  \<open>doc-pipeline/internal/tokenize/tokenize.go\<close>: lower-casing a document and cutting it into its
  maximal runs of letters.  The standard library's \<open>strings.ToLower\<close> (with its ASCII fast path) and
  \<open>strings.FieldsFunc\<close> are written out over the UTF-8 decoder; the letter and case tables of package
  \<open>unicode\<close> are written out for Latin-1 and are the parameter \<open>unicode\<close> beyond it.
\<close>

section \<open>Letters and case\<close>

record unicode_tables =
  uc_letter :: "rune \<Rightarrow> bool"
  uc_lower :: "rune \<Rightarrow> rune"

definition is_letter :: "unicode_tables \<Rightarrow> rune \<Rightarrow> bool" where
  "is_letter u r \<longleftrightarrow>
     (if r < 0x100 then
        0x41 \<le> r \<and> r \<le> 0x5A \<or> 0x61 \<le> r \<and> r \<le> 0x7A \<or> r = 0xAA \<or> r = 0xB5 \<or> r = 0xBA \<or>
        0xC0 \<le> r \<and> r \<noteq> 0xD7 \<and> r \<noteq> 0xF7
      else uc_letter u r)"

definition to_lower :: "unicode_tables \<Rightarrow> rune \<Rightarrow> rune" where
  "to_lower u r =
     (if r < 0x100 then
        (if 0x41 \<le> r \<and> r \<le> 0x5A \<or> 0xC0 \<le> r \<and> r \<le> 0xDE \<and> r \<noteq> 0xD7 then r + 0x20 else r)
      else uc_lower u r)"

text \<open>
  What is used of the tables beyond Latin-1: case mapping stays within the code points, a lower-cased
  rune is its own lower case, and the replacement rune is not a letter.
\<close>

definition unicode_ok :: "unicode_tables \<Rightarrow> bool" where
  "unicode_ok u \<longleftrightarrow>
     (\<forall>r. valid_rune r \<longrightarrow> valid_rune (uc_lower u r)) \<and>
     (\<forall>r. 0x100 \<le> r \<longrightarrow> to_lower u (uc_lower u r) = uc_lower u r)"

definition latin1_only :: unicode_tables where
  "latin1_only = \<lparr>uc_letter = (\<lambda>_. False), uc_lower = (\<lambda>r. r)\<rparr>"

lemma latin1_only_ok: "unicode_ok latin1_only"
  by (simp add: unicode_ok_def latin1_only_def to_lower_def)

lemma to_lower_valid: "unicode_ok u \<Longrightarrow> valid_rune r \<Longrightarrow> valid_rune (to_lower u r)"
  by (auto simp: unicode_ok_def to_lower_def valid_rune_def)

lemma to_lower_idem: "unicode_ok u \<Longrightarrow> to_lower u (to_lower u r) = to_lower u r"
  by (auto simp: unicode_ok_def to_lower_def)

section \<open>strings.ToLower and strings.FieldsFunc\<close>

definition lower_byte :: "byte \<Rightarrow> byte" where
  "lower_byte b = (if 0x41 \<le> b \<and> b \<le> 0x5A then b + 0x20 else b)"

definition strings_ToLower :: "unicode_tables \<Rightarrow> bytes \<Rightarrow> bytes" where
  "strings_ToLower u s =
     (if \<forall>b \<in> set s. b < 0x80 then map lower_byte s
      else encode_runes (map (to_lower u) (runes_of s)))"

function ff_loop :: "(rune \<Rightarrow> bool) \<Rightarrow> bytes \<Rightarrow> bytes \<Rightarrow> bytes list" where
  "ff_loop p [] cur = (if cur = [] then [] else [cur])"
| "ff_loop p (b # bs) cur =
     (let (r, n) = decode_rune (b # bs) in
      if p r then (if cur = [] then [] else [cur]) @ ff_loop p (drop n (b # bs)) []
      else ff_loop p (drop n (b # bs)) (cur @ take n (b # bs)))"
  by pat_completeness auto
termination
  by (relation "measure (\<lambda>(p, s, c). length s)")
    (auto simp: less_Suc_eq_le dest!: sym [of "(_, _)"] dest: decode_rune_shrinks)

definition strings_FieldsFunc :: "bytes \<Rightarrow> (rune \<Rightarrow> bool) \<Rightarrow> bytes list" where
  "strings_FieldsFunc s p = ff_loop p s []"

section \<open>Tokenize\<close>

record token =
  tok_Term :: bytes

record tokenized_doc =
  td_ID :: string
  td_Tokens :: "token list"

fun collect_tokens :: "bytes list \<Rightarrow> token list \<Rightarrow> token list" where
  "collect_tokens [] tokens = tokens"
| "collect_tokens (f # fs) tokens =
     (if length f = 0 then collect_tokens fs tokens
      else collect_tokens fs (tokens @ [\<lparr>tok_Term = f\<rparr>]))"

definition Tokenize :: "unicode_tables \<Rightarrow> document \<Rightarrow> string + tokenized_doc" where
  "Tokenize u doc =
     (if doc_Text doc = [] then Inr \<lparr>td_ID = doc_ID doc, td_Tokens = []\<rparr>
      else
        (let text = strings_ToLower u (doc_Text doc);
             fields = strings_FieldsFunc text (\<lambda>r. \<not> is_letter u r)
         in Inr \<lparr>td_ID = doc_ID doc, td_Tokens = collect_tokens fields []\<rparr>))"

section \<open>The library functions on runes\<close>

lemma lower_byte_rune: "b < 0x80 \<Longrightarrow> encode_rune (to_lower u (unat b)) = [lower_byte b]"
  by (auto simp: to_lower_def lower_byte_def encode_rune_def byte_tests unat_arith_simps)

text \<open>The ASCII fast path computes what the general path computes.\<close>

lemma ToLower_runes: "strings_ToLower u s = encode_runes (map (to_lower u) (runes_of s))"
proof (cases "\<forall>b \<in> set s. b < 0x80")
  case True
  then have "map lower_byte s = encode_runes (map (to_lower u) (map unat s))"
    by (induction s) (simp_all add: lower_byte_rune)
  with True show ?thesis by (simp add: strings_ToLower_def runes_of_ascii)
next
  case False
  then show ?thesis unfolding strings_ToLower_def by (rule if_not_P)
qed

lemma ff_loop_runes:
  "\<forall>r \<in> set rs. valid_rune r \<Longrightarrow> \<forall>r \<in> set c. \<not> p r \<Longrightarrow>
   ff_loop p (encode_runes rs) (encode_runes c) = map encode_runes (field_runs p (c @ rs))"
proof (induction rs arbitrary: c)
  case Nil
  then show ?case
    by (cases c) (simp_all add: field_runs_all_clean del: field_runs.simps(2))
next
  case (Cons r rs)
  let ?e = "encode_rune r"
  obtain b bs where e: "?e = b # bs" by (cases ?e) auto
  have dec: "decode_rune ((b # bs) @ encode_runes rs) = (r, length (b # bs))"
    using decode_encode_rune [of r "encode_runes rs"] Cons.prems by (simp add: e)
  have step: "ff_loop p (?e @ encode_runes rs) cur =
      (if p r then (if cur = [] then [] else [cur]) @ ff_loop p (encode_runes rs) []
       else ff_loop p (encode_runes rs) (cur @ ?e))" for cur
    using dec by (simp add: e)
  show ?case
  proof (cases "p r")
    case True
    then have "field_runs p (c @ r # rs) = (if c = [] then [] else [c]) @ field_runs p rs"
      using Cons.prems field_runs_all_clean [of c p] by (auto simp: field_runs_append_sep)
    moreover have "encode_runes c = [] \<longleftrightarrow> c = []" by (cases c) auto
    ultimately show ?thesis
      using True Cons.IH [of "[]"] Cons.prems by (simp add: step)
  next
    case False
    with Cons.prems have "ff_loop p (encode_runes rs) (encode_runes (c @ [r])) =
        map encode_runes (field_runs p ((c @ [r]) @ rs))"
      by (intro Cons.IH) auto
    with False show ?thesis by (simp add: step)
  qed
qed

lemma FieldsFunc_runes:
  "\<forall>r \<in> set rs. valid_rune r \<Longrightarrow>
   strings_FieldsFunc (encode_runes rs) p = map encode_runes (field_runs p rs)"
  using ff_loop_runes [of rs "[]" p] by (simp add: strings_FieldsFunc_def)

lemma collect_tokens_map: "collect_tokens fs acc = acc @ map (\<lambda>f. \<lparr>tok_Term = f\<rparr>) (filter (\<lambda>f. f \<noteq> []) fs)"
  by (induction fs arbitrary: acc) auto

definition lowered :: "unicode_tables \<Rightarrow> bytes \<Rightarrow> rune list" where
  "lowered u s = map (to_lower u) (runes_of s)"

definition words_of :: "unicode_tables \<Rightarrow> bytes \<Rightarrow> rune list list" where
  "words_of u s = field_runs (\<lambda>r. \<not> is_letter u r) (lowered u s)"

lemma lowered_valid: "unicode_ok u \<Longrightarrow> \<forall>r \<in> set (lowered u s). valid_rune r"
  by (auto simp: lowered_def intro: to_lower_valid runes_of_valid)

lemma lowered_fixed:
  "\<forall>r \<in> set rs. valid_rune r \<and> to_lower u r = r \<Longrightarrow> lowered u (encode_runes rs) = rs"
  by (simp add: lowered_def map_idI)

lemma words_of_runes: "w \<in> set (words_of u s) \<Longrightarrow> r \<in> set w \<Longrightarrow> r \<in> set (lowered u s)"
proof -
  assume "w \<in> set (words_of u s)" and "r \<in> set w"
  then have "r \<in> set (concat (words_of u s))" by auto
  then show ?thesis by (simp add: words_of_def concat_field_runs)
qed

lemma Tokenize_words:
  assumes "unicode_ok u"
  shows "Tokenize u doc =
    Inr \<lparr>td_ID = doc_ID doc, td_Tokens = map (\<lambda>w. \<lparr>tok_Term = encode_runes w\<rparr>) (words_of u (doc_Text doc))\<rparr>"
proof -
  let ?s = "doc_Text doc"
  have "strings_FieldsFunc (strings_ToLower u ?s) (\<lambda>r. \<not> is_letter u r) = map encode_runes (words_of u ?s)"
    using FieldsFunc_runes [OF lowered_valid [OF assms]] by (simp add: ToLower_runes words_of_def lowered_def)
  moreover have "filter (\<lambda>f. f \<noteq> []) (map encode_runes (words_of u ?s)) = map encode_runes (words_of u ?s)"
  proof -
    have "encode_runes w \<noteq> []" if "w \<in> set (words_of u ?s)" for w
      using field_runs_nonempty that unfolding words_of_def by (cases w) auto
    then show ?thesis by (simp add: filter_id_conv)
  qed
  ultimately show ?thesis
    by (auto simp: Tokenize_def collect_tokens_map comp_def words_of_def lowered_def)
qed

section \<open>Properties\<close>



text \<open>
  Tokens are maximal: a document made of the tokens of another one, each followed by a space,
  has the same tokens again.
\<close>

definition rejoin :: "token list \<Rightarrow> bytes" where
  "rejoin ts = concat (map (\<lambda>t. tok_Term t @ [32]) ts)"

theorem tokenize_rejoin:
  assumes "unicode_ok u" and "Tokenize u doc = Inr td"
  shows "Tokenize u \<lparr>doc_ID = doc_ID doc, doc_Text = rejoin (td_Tokens td)\<rparr> = Inr td"
proof -
  let ?ws = "words_of u (doc_Text doc)"
  have td: "td = \<lparr>td_ID = doc_ID doc, td_Tokens = map (\<lambda>w. \<lparr>tok_Term = encode_runes w\<rparr>) ?ws\<rparr>"
    using assms(2) by (simp add: Tokenize_words [OF assms(1)])
  have clean: "\<forall>w \<in> set ?ws. w \<noteq> [] \<and> (\<forall>r \<in> set w. \<not> \<not> is_letter u r)"
    using field_runs_nonempty field_runs_clean unfolding words_of_def by fastforce
  have low: "valid_rune r \<and> to_lower u r = r" if "w \<in> set ?ws" "r \<in> set w" for w r
    using words_of_runes [OF that] lowered_valid [OF assms(1)] to_lower_idem [OF assms(1)]
    by (auto simp: lowered_def)
  let ?rs = "concat (map (\<lambda>w. w @ [32]) ?ws)"
  have "rejoin (td_Tokens td) = encode_runes ?rs"
  proof -
    have "concat (map (\<lambda>w. encode_runes w @ [32]) ws) = encode_runes (concat (map (\<lambda>w. w @ [32]) ws))" for ws
      by (induction ws) (simp_all add: encode_rune_def)
    then show ?thesis by (simp add: td rejoin_def comp_def)
  qed
  moreover have "\<forall>r \<in> set ?rs. valid_rune r \<and> to_lower u r = r"
    using low by (auto simp: valid_rune_def to_lower_def)
  then have "lowered u (encode_runes ?rs) = ?rs" by (rule lowered_fixed)
  moreover have "field_runs (\<lambda>r. \<not> is_letter u r) ?rs = ?ws"
    by (rule field_runs_join [OF _ clean]) (simp add: is_letter_def)
  ultimately have "words_of u (rejoin (td_Tokens td)) = ?ws"
    unfolding words_of_def by (simp only:)
  then show ?thesis
    by (simp add: Tokenize_words [OF assms(1)] td)
qed

theorem tokenize_rejoin_witness:
  "\<exists>td. Tokenize latin1_only \<lparr>doc_ID = ''d'', doc_Text = [72, 105, 33, 79]\<rparr> = Inr td \<and>
     Tokenize latin1_only \<lparr>doc_ID = ''d'', doc_Text = rejoin (td_Tokens td)\<rparr> = Inr td"
proof -
  obtain td where "Tokenize latin1_only \<lparr>doc_ID = ''d'', doc_Text = [72, 105, 33, 79]\<rparr> = Inr td"
    by (simp add: Tokenize_words [OF latin1_only_ok])
  with tokenize_rejoin [OF latin1_only_ok this] show ?thesis by auto
qed

end
