(* ===== verification/Go_Float.thy ===== *)
theory Go_Float
  imports Go_Prelude Complex_Main "HOL-Library.Log_Nat"
begin

text \<open>
  Go's \<open>float32\<close> and \<open>float64\<close> arithmetic: finite values as rationals, rounding to the nearest
  representable value with ties to even, overflow to an infinity, and NaN.  A zero carries no sign:
  none of the programs can produce a negative zero that a later operation observes.  Every
  operation rounds once (no fused multiply-add).  The lemmas give exactness on representable values
  and the relative error of one rounding.
\<close>

section \<open>Rounding\<close>

datatype gofloat = NaN | PInf | NInf | Fin rat

definition round_even :: "rat \<Rightarrow> int" where
  "round_even x =
     (let f = \<lfloor>x\<rfloor>; d = x - of_int f in
      if d < 1 / 2 then f else if 1 / 2 < d then f + 1 else if even f then f else f + 1)"

definition ilog2 :: "rat \<Rightarrow> int" where
  "ilog2 x =
     (case quotient_of x of
        (a, b) \<Rightarrow>
          (let e = bitlen a - bitlen b
           in if 2 powi e \<le> x then e else e - 1))"

definition quantum :: "nat \<Rightarrow> int \<Rightarrow> rat \<Rightarrow> int" where
  "quantum p emin x = max (ilog2 \<bar>x\<bar> - int p + 1) emin"

definition round_to :: "nat \<Rightarrow> int \<Rightarrow> rat \<Rightarrow> rat" where
  "round_to p emin x =
     (if x = 0 then 0
      else (let k = quantum p emin x in of_int (round_even (x / 2 powi k)) * 2 powi k))"

definition rnd :: "nat \<Rightarrow> int \<Rightarrow> int \<Rightarrow> rat \<Rightarrow> gofloat" where
  "rnd p emin emax x =
     (let y = round_to p emin x in
      if 2 powi emax \<le> y then PInf else if y \<le> - (2 powi emax) then NInf else Fin y)"

definition rnd32 :: "rat \<Rightarrow> gofloat" where
  "rnd32 = rnd 24 (-149) 128"

definition rnd64 :: "rat \<Rightarrow> gofloat" where
  "rnd64 = rnd 53 (-1074) 1024"

section \<open>Operations\<close>

text \<open>The first argument is the rounding of the result type.\<close>

definition f_add :: "(rat \<Rightarrow> gofloat) \<Rightarrow> gofloat \<Rightarrow> gofloat \<Rightarrow> gofloat" where
  "f_add rn x y =
     (case (x, y) of
        (Fin a, Fin b) \<Rightarrow> rn (a + b)
      | (NaN, _) \<Rightarrow> NaN | (_, NaN) \<Rightarrow> NaN
      | (PInf, NInf) \<Rightarrow> NaN | (NInf, PInf) \<Rightarrow> NaN
      | (Fin _, _) \<Rightarrow> y | (_, _) \<Rightarrow> x)"

definition f_neg :: "gofloat \<Rightarrow> gofloat" where
  "f_neg x = (case x of NaN \<Rightarrow> NaN | PInf \<Rightarrow> NInf | NInf \<Rightarrow> PInf | Fin a \<Rightarrow> Fin (- a))"

definition f_sub :: "(rat \<Rightarrow> gofloat) \<Rightarrow> gofloat \<Rightarrow> gofloat \<Rightarrow> gofloat" where
  "f_sub rn x y = f_add rn x (f_neg y)"

definition f_sign :: "gofloat \<Rightarrow> rat" where
  "f_sign x = (case x of NaN \<Rightarrow> 0 | PInf \<Rightarrow> 1 | NInf \<Rightarrow> -1 | Fin a \<Rightarrow> sgn a)"

definition f_inf :: "rat \<Rightarrow> gofloat" where
  "f_inf s = (if s = 0 then NaN else if 0 < s then PInf else NInf)"

definition f_mul :: "(rat \<Rightarrow> gofloat) \<Rightarrow> gofloat \<Rightarrow> gofloat \<Rightarrow> gofloat" where
  "f_mul rn x y =
     (case (x, y) of
        (Fin a, Fin b) \<Rightarrow> rn (a * b)
      | (NaN, _) \<Rightarrow> NaN | (_, NaN) \<Rightarrow> NaN
      | (_, _) \<Rightarrow> f_inf (f_sign x * f_sign y))"

definition f_div :: "(rat \<Rightarrow> gofloat) \<Rightarrow> gofloat \<Rightarrow> gofloat \<Rightarrow> gofloat" where
  "f_div rn x y =
     (case (x, y) of
        (Fin a, Fin b) \<Rightarrow> if b = 0 then f_inf (sgn a) else rn (a / b)
      | (NaN, _) \<Rightarrow> NaN | (_, NaN) \<Rightarrow> NaN
      | (Fin _, _) \<Rightarrow> Fin 0
      | (_, Fin b) \<Rightarrow> if b < 0 then f_neg x else x
      | (_, _) \<Rightarrow> NaN)"

definition f_le :: "gofloat \<Rightarrow> gofloat \<Rightarrow> bool" where
  "f_le x y =
     (case (x, y) of
        (NaN, _) \<Rightarrow> False | (_, NaN) \<Rightarrow> False
      | (NInf, _) \<Rightarrow> True | (_, PInf) \<Rightarrow> True
      | (Fin a, Fin b) \<Rightarrow> a \<le> b
      | (_, _) \<Rightarrow> False)"

definition f_lt :: "gofloat \<Rightarrow> gofloat \<Rightarrow> bool" where
  "f_lt x y \<longleftrightarrow> f_le x y \<and> \<not> f_le y x"

text \<open>Conversion between the two formats rounds a finite value and keeps the others.\<close>

definition f_conv :: "(rat \<Rightarrow> gofloat) \<Rightarrow> gofloat \<Rightarrow> gofloat" where
  "f_conv rn x = (case x of Fin a \<Rightarrow> rn a | _ \<Rightarrow> x)"

text \<open>Square roots, by the integer square root of the argument scaled to the result's quantum.\<close>

function isqrt :: "int \<Rightarrow> int" where
  "isqrt n = (if n \<le> 0 then 0 else
     (let r = 2 * isqrt (n div 4) in if (r + 1) * (r + 1) \<le> n then r + 1 else r))"

  by pat_completeness auto
termination
  by (relation "measure nat") auto

declare isqrt.simps [simp del]

definition round_sqrt :: "rat \<Rightarrow> int" where
  "round_sqrt t =
     (let m = isqrt \<lfloor>t\<rfloor>; h = (of_int m + 1 / 2) * (of_int m + 1 / 2)
      in if t < h then m else if h < t then m + 1 else if even m then m else m + 1)"

definition sqrt_to :: "nat \<Rightarrow> int \<Rightarrow> rat \<Rightarrow> rat" where
  "sqrt_to p emin x =
     (if x = 0 then 0
      else (let k = max (ilog2 x div 2 - int p + 1) emin
            in of_int (round_sqrt (x / 2 powi (2 * k))) * 2 powi k))"

definition f_sqrt64 :: "gofloat \<Rightarrow> gofloat" where
  "f_sqrt64 x =
     (case x of
        NaN \<Rightarrow> NaN | NInf \<Rightarrow> NaN | PInf \<Rightarrow> PInf
      | Fin a \<Rightarrow> if a < 0 then NaN else Fin (sqrt_to 53 (-1074) a))"

section \<open>The binary logarithm\<close>

lemma floorlog2_pos: "0 < n \<Longrightarrow> 0 < floorlog 2 n"
  using floorlog_eq_zero_iff [of 2 n] by auto

lemma powi_two_pos [simp]: "0 < (2 :: rat) powi e"
  by (simp add: zero_less_power_int)

lemma powi_two_le: "(2 :: rat) powi a \<le> 2 powi b \<longleftrightarrow> a \<le> b"
  by (meson linorder_not_le one_less_numeral_iff power_int_increasing power_int_strict_increasing
      semiring_norm(76) one_le_numeral)

lemma powi_two_less: "(2 :: rat) powi a < 2 powi b \<longleftrightarrow> a < b"
  using powi_two_le [of b a] by (simp add: not_le [symmetric])

lemma floorlog2_powi:
  assumes "0 < n"
  shows "2 powi (int (floorlog 2 n) - 1) \<le> (of_nat n :: rat)" "(of_nat n :: rat) < 2 powi int (floorlog 2 n)"
proof -
  let ?l = "floorlog 2 n"
  have b: "2 ^ (?l - 1) \<le> n" "n < 2 ^ ?l" using floorlog_bounds [of n 2] assms by simp_all
  have "int ?l - 1 = int (?l - 1)" using floorlog2_pos [OF assms] by simp
  then have "(2 :: rat) powi (int ?l - 1) = of_nat (2 ^ (?l - 1))" by (simp only: power_int_of_nat) simp
  then show "2 powi (int ?l - 1) \<le> (of_nat n :: rat)" using b(1) by (simp only: of_nat_le_iff)
  have "(2 :: rat) powi int ?l = of_nat (2 ^ ?l)" by simp
  then show "(of_nat n :: rat) < 2 powi int ?l" using b(2) by (simp only: of_nat_less_iff)
qed

lemma ilog2_bounds:
  assumes "0 < x"
  shows "2 powi ilog2 x \<le> x \<and> x < 2 powi (ilog2 x + 1)"
proof -
  obtain a b where q: "quotient_of x = (a, b)" by fastforce
  then have b: "0 < b" and x: "x = of_int a / of_int b"
    by (simp_all add: quotient_of_denom_pos quotient_of_div)
  with assms have a: "0 < a" by (simp add: zero_less_divide_iff)
  let ?A = "of_nat (nat a) :: rat" and ?B = "of_nat (nat b) :: rat"
  let ?la = "int (floorlog 2 (nat a))" and ?lb = "int (floorlog 2 (nat b))"
  have xAB: "x = ?A / ?B" using a b x by simp
  have pos: "0 < ?A" "0 < ?B" using a b by simp_all
  note ba = floorlog2_powi [of "nat a"] and bb = floorlog2_powi [of "nat b"]
  have "x < 2 powi ?la / 2 powi (?lb - 1)"
    unfolding xAB using ba(2) bb(1) a b pos by (intro frac_less) simp_all
  then have hi: "x < 2 powi (?la - ?lb + 1)" by (simp add: power_int_diff power_int_add)
  have "2 powi (?la - 1) / 2 powi ?lb < x"
    unfolding xAB using ba(1) bb(2) a b pos by (intro frac_less2) simp_all
  then have lo: "2 powi (?la - ?lb - 1) < x" by (simp add: power_int_diff)
  show ?thesis
    using hi lo by (auto simp: ilog2_def q Let_def not_le bitlen_def)
qed

lemma ilog2_unique:
  assumes "2 powi e \<le> x" and "x < 2 powi (e + 1)"
  shows "ilog2 x = e"
proof -
  have "0 < x" using assms(1) powi_two_pos [of e] by (rule less_le_trans [rotated])
  note b = ilog2_bounds [OF this]
  have "(2 :: rat) powi e < 2 powi (ilog2 x + 1)" "(2 :: rat) powi ilog2 x < 2 powi (e + 1)"
    using assms b by linarith+
  then show ?thesis unfolding powi_two_less by simp
qed

section \<open>Exactness and error of one rounding\<close>

lemma round_even_of_int [simp]: "round_even (of_int n) = n"
  by (simp add: round_even_def Let_def)

lemma round_even_error: "\<bar>of_int (round_even x) - x\<bar> \<le> 1 / 2"
proof -
  have "of_int \<lfloor>x\<rfloor> \<le> x" "x < of_int \<lfloor>x\<rfloor> + 1" by linarith+
  then show ?thesis by (auto simp: round_even_def Let_def abs_le_iff)
qed

lemma round_to_exact:
  assumes "\<bar>n\<bar> < 2 ^ p" and "emin \<le> k'"
  shows "round_to p emin (of_int n * 2 powi k') = of_int n * 2 powi k'"
proof (cases "n = 0")
  case False
  let ?x = "of_int n * 2 powi k' :: rat"
  let ?k = "quantum p emin ?x"
  have absx: "\<bar>?x\<bar> = of_int \<bar>n\<bar> * 2 powi k'" by (simp add: abs_mult)
  have "(of_int \<bar>n\<bar> :: rat) < of_int (2 ^ p)" using assms(1) by (simp only: of_int_less_iff)
  then have "\<bar>?x\<bar> < of_int (2 ^ p) * 2 powi k'" unfolding absx by (rule mult_strict_right_mono) simp
  also have "of_int (2 ^ p) * 2 powi k' = (2 :: rat) powi (int p + k')" by (simp add: power_int_add)
  finally have lt: "\<bar>?x\<bar> < 2 powi (int p + k')" .
  have "0 < \<bar>?x\<bar>" using False by simp
  then have "2 powi ilog2 \<bar>?x\<bar> \<le> \<bar>?x\<bar>" using ilog2_bounds by blast
  with lt have "(2 :: rat) powi ilog2 \<bar>?x\<bar> < 2 powi (int p + k')" by linarith
  then have "ilog2 \<bar>?x\<bar> < int p + k'" by (simp only: powi_two_less)
  then have kk: "?k \<le> k'" using assms(2) by (simp add: quantum_def)
  then have "(2 :: rat) powi k' / 2 powi ?k = of_int (2 ^ nat (k' - ?k))"
    by (simp add: power_int_diff [symmetric] power_int_nonneg_exp)
  then have "?x / 2 powi ?k = of_int (n * 2 ^ nat (k' - ?k))"
    by (simp add: times_divide_eq_right [symmetric] del: times_divide_eq_right)
  then have "of_int (round_even (?x / 2 powi ?k)) * 2 powi ?k = ?x"
    by (metis (no_types, lifting) nonzero_eq_divide_eq powi_two_pos round_even_of_int less_irrefl)
  then show ?thesis by (simp add: round_to_def Let_def)
qed (simp add: round_to_def)

lemma round_to_error:
  assumes "x \<noteq> 0" and "2 powi (emin + int p - 1) \<le> \<bar>x\<bar>"
  shows "\<bar>round_to p emin x - x\<bar> \<le> \<bar>x\<bar> * 2 powi (- int p)"
proof -
  let ?k = "quantum p emin x"
  have pos: "0 < \<bar>x\<bar>" using assms(1) by simp
  note b = ilog2_bounds [OF this]
  have "(2 :: rat) powi (emin + int p - 1) < 2 powi (ilog2 \<bar>x\<bar> + 1)" using assms(2) b by linarith
  then have k: "?k = ilog2 \<bar>x\<bar> - int p + 1" unfolding powi_two_less by (simp add: quantum_def)
  have "round_to p emin x - x = (of_int (round_even (x / 2 powi ?k)) - x / 2 powi ?k) * 2 powi ?k"
    using assms(1) by (simp add: round_to_def Let_def field_simps)
  then have "\<bar>round_to p emin x - x\<bar> = \<bar>of_int (round_even (x / 2 powi ?k)) - x / 2 powi ?k\<bar> * 2 powi ?k"
    by (simp add: abs_mult)
  also have "\<dots> \<le> 1 / 2 * 2 powi ?k" by (intro mult_right_mono round_even_error) simp
  also have "\<dots> = 2 powi ilog2 \<bar>x\<bar> * 2 powi (- int p)"
    unfolding k by (simp add: power_int_add power_int_diff power_int_minus field_simps)
  also have "\<dots> \<le> \<bar>x\<bar> * 2 powi (- int p)" using b by (intro mult_right_mono) simp_all
  finally show ?thesis .
qed

text \<open>Integers up to \<open>2 ^ 24\<close> are exact in \<open>float32\<close>.\<close>

lemma rnd32_int:
  assumes "\<bar>n\<bar> \<le> 2 ^ 24"
  shows "rnd32 (of_int n) = Fin (of_int n)"
proof -
  have r: "round_to 24 (-149) (of_int n :: rat) = of_int n"
  proof (cases "\<bar>n\<bar> = 2 ^ 24")
    case True
    then have "n = 2 ^ 23 * 2 \<or> n = - (2 ^ 23) * 2" by auto
    then obtain m where m: "n = m * 2" "\<bar>m\<bar> < 2 ^ 24" by fastforce
    then show ?thesis using round_to_exact [of m 24 "-149" 1] by simp
  next
    case False
    then show ?thesis using assms round_to_exact [of n 24 "-149" 0] by simp
  qed
  have "(of_int \<bar>n\<bar> :: rat) \<le> of_int (2 ^ 24)" using assms by (simp only: of_int_le_iff)
  then have b: "\<bar>of_int n :: rat\<bar> \<le> 2 ^ 24" by simp
  have "(2 :: rat) ^ 24 < 2 powi 128" by simp
  with b have "\<not> (2 powi 128 \<le> (of_int n :: rat))" "\<not> ((of_int n :: rat) \<le> - (2 powi 128))" by linarith+
  then show ?thesis unfolding rnd32_def rnd_def Let_def r by (simp only: if_False)
qed

section \<open>Square roots\<close>

lemma isqrt_bounds:
  "0 \<le> n \<Longrightarrow> 0 \<le> isqrt n \<and> isqrt n * isqrt n \<le> n \<and> n < (isqrt n + 1) * (isqrt n + 1)"
proof (induction n rule: isqrt.induct)
  case (1 n)
  show ?case
  proof (cases "n = 0")
    case True
    then show ?thesis by (subst (1 2 3 4 5) isqrt.simps) simp
  next
    case False
    with "1.prems" have n: "\<not> n \<le> 0" by simp
    let ?s = "isqrt (n div 4)"
    have IH: "0 \<le> ?s" "?s * ?s \<le> n div 4" "n div 4 < (?s + 1) * (?s + 1)"
      using "1.IH" [OF n] n by (simp_all add: div_int_pos_iff)
    have "4 * (?s * ?s) \<le> n" "n < 4 * ((?s + 1) * (?s + 1))" using IH by linarith+
    then have "2 * ?s * (2 * ?s) \<le> n" "n < (2 * ?s + 2) * (2 * ?s + 2)" by (simp_all add: algebra_simps)
    with IH(1) n show ?thesis
      by (simp add: isqrt.simps [of n] Let_def algebra_simps)
  qed
qed

text \<open>The rounded square root is within one half of the root, stated without roots.\<close>

lemma round_sqrt_bounds:
  assumes "1 \<le> t"
  shows "0 < round_sqrt t \<and> (of_int (round_sqrt t) - 1 / 2) ^ 2 \<le> t \<and> t \<le> (of_int (round_sqrt t) + 1 / 2) ^ 2"
proof -
  let ?m = "isqrt \<lfloor>t\<rfloor>"
  have fl: "1 \<le> \<lfloor>t\<rfloor>" using assms by simp
  then have b: "0 \<le> ?m" "?m * ?m \<le> \<lfloor>t\<rfloor>" "\<lfloor>t\<rfloor> < (?m + 1) * (?m + 1)" using isqrt_bounds [of "\<lfloor>t\<rfloor>"] by auto
  have "?m \<noteq> 0"
  proof
    assume "?m = 0"
    with b(3) fl show False by simp
  qed
  with b(1) have m: "1 \<le> ?m" by simp
  have "of_int (?m * ?m) \<le> t" using b(2) by (simp only: le_floor_iff)
  then have lo: "of_int ?m * of_int ?m \<le> t" by simp
  have "t < of_int ((?m + 1) * (?m + 1))" using b(3) by (simp only: floor_less_iff)
  then have hi: "t < (of_int ?m + 1) * (of_int ?m + 1)" by simp
  have m1: "(1 :: rat) \<le> of_int ?m" using m by simp
  show ?thesis
    using lo hi m m1 unfolding round_sqrt_def Let_def power2_eq_square
    by (simp add: algebra_simps)
qed

lemma sqrt_to_bounds:
  assumes "0 < x" and "2 * emin \<le> ilog2 x - 2 * int p" and "0 < p"
  defines "s \<equiv> sqrt_to p emin x" and "u \<equiv> 2 powi (- int p)"
  shows "0 < s \<and> s ^ 2 * (1 - u) ^ 2 \<le> x \<and> x \<le> s ^ 2 * (1 + u) ^ 2"
proof -
  let ?e = "ilog2 x div 2"
  define k where "k = ?e - int p + 1"
  have kmax: "max (?e - int p + 1) emin = k" using assms(2) unfolding k_def by linarith
  define t where "t = x / 2 powi (2 * k)"
  define m where "m = round_sqrt t"
  have s: "s = of_int m * 2 powi k"
    using assms(1) unfolding s_def sqrt_to_def Let_def kmax t_def m_def by simp
  have "(2 :: rat) powi (2 * ?e) \<le> 2 powi ilog2 x" unfolding powi_two_le by simp
  then have "2 powi (2 * ?e) \<le> x" using ilog2_bounds [OF assms(1)] by linarith
  then have "2 powi (2 * ?e) / 2 powi (2 * k) \<le> t" unfolding t_def by (rule divide_right_mono) simp
  then have t: "2 powi (2 * (int p - 1)) \<le> t" by (simp add: power_int_diff [symmetric] k_def algebra_simps)
  have "(2 :: rat) powi 0 \<le> 2 powi (2 * (int p - 1))" unfolding powi_two_le using assms(3) by simp
  then have t1: "1 \<le> t" using t by simp
  note b = round_sqrt_bounds [OF t1, folded m_def]
  have pw: "2 powi (2 * (int p - 1)) = ((2 :: rat) ^ (p - 1)) ^ 2"
  proof -
    have "2 * (int p - 1) = int ((p - 1) * 2)" using assms(3) by (simp add: of_nat_diff)
    then show ?thesis by (simp only: power_int_of_nat power_mult)
  qed
  have "((2 :: rat) ^ (p - 1)) ^ 2 \<le> (of_int m + 1 / 2) ^ 2" using t b unfolding pw by linarith
  then have "(2 :: rat) ^ (p - 1) \<le> of_int m + 1 / 2"
    using b by (simp add: power_mono_iff)
  then have "(of_int (2 ^ (p - 1)) :: rat) < of_int (m + 1)" by simp
  then have mp: "2 ^ (p - 1) \<le> m" unfolding of_int_less_iff by simp
  have "(2 :: int) ^ p = 2 * 2 ^ (p - 1)" using assms(3) by (simp add: power_eq_if)
  with mp have "(1 :: int) * 2 ^ p \<le> 2 * m" by simp
  then have "(of_int (2 ^ p) :: rat) \<le> of_int (2 * m)" by (simp only: of_int_le_iff mult_1)
  then have mu: "1 / 2 \<le> of_int m * u"
    unfolding u_def by (simp add: power_int_minus field_simps)
  have u: "0 < u" "u \<le> 1 / 2"
  proof -
    have "(2 :: rat) powi (- int p) \<le> 2 powi (- 1)" unfolding powi_two_le using assms(3) by simp
    then show "u \<le> 1 / 2" unfolding u_def by (simp add: power_int_minus)
  qed (simp add: u_def)
  have m0: "(0 :: rat) < of_int m" using b by simp
  have "(of_int m * (1 - u)) ^ 2 \<le> (of_int m - 1 / 2) ^ 2"
    using mu u m0 by (intro power_mono) (simp_all add: algebra_simps)
  moreover have "(of_int m + 1 / 2) ^ 2 \<le> (of_int m * (1 + u)) ^ 2"
    using mu u m0 by (intro power_mono) (simp_all add: algebra_simps)
  ultimately have tm: "(of_int m * (1 - u)) ^ 2 \<le> t" "t \<le> (of_int m * (1 + u)) ^ 2"
    using b by linarith+
  have x: "x = t * (2 powi k) ^ 2"
    unfolding t_def by (simp add: power_int_power' mult.commute)
  have "s ^ 2 * (1 - u) ^ 2 = (of_int m * (1 - u)) ^ 2 * (2 powi k) ^ 2"
    and "s ^ 2 * (1 + u) ^ 2 = (of_int m * (1 + u)) ^ 2 * (2 powi k) ^ 2"
    unfolding s by (simp_all add: power_mult_distrib mult_ac)
  with tm have "s ^ 2 * (1 - u) ^ 2 \<le> x" "x \<le> s ^ 2 * (1 + u) ^ 2"
    unfolding x by (simp_all add: mult_right_mono)
  then show ?thesis using m0 unfolding s by simp
qed

section \<open>Single roundings of moderate values\<close>

lemma rnd_zero [simp]: "rnd p emin emax 0 = Fin 0"
  by (simp add: rnd_def round_to_def not_le)

lemma rnd32_error:
  assumes "2 powi (- 126) \<le> \<bar>x\<bar>" and "\<bar>x\<bar> \<le> 2 ^ 100"
  shows "\<exists>y. rnd32 x = Fin y \<and> \<bar>y - x\<bar> \<le> \<bar>x\<bar> * 2 powi (- 24)"
proof -
  let ?y = "round_to 24 (- 149) x"
  have "x \<noteq> 0"
  proof
    assume "x = 0"
    then have "(2 :: rat) powi (- 126) \<le> 0" using assms(1) by simp
    then show False using powi_two_pos [of "- 126"] by linarith
  qed
  then have e: "\<bar>?y - x\<bar> \<le> \<bar>x\<bar> * 2 powi (- 24)"
    using round_to_error [of x "- 149" 24] assms(1) by simp
  have "\<bar>x\<bar> * 2 powi (- 24) \<le> \<bar>x\<bar> * 1" by (intro mult_left_mono) simp_all
  with e have "\<bar>?y\<bar> \<le> 2 * \<bar>x\<bar>" by linarith
  also have "\<dots> \<le> 2 * 2 ^ 100" using assms(2) by simp
  also have "\<dots> < (2 :: rat) powi 128" by simp
  finally have "\<not> 2 powi 128 \<le> ?y" "\<not> ?y \<le> - (2 powi 128)" by linarith+
  then have "rnd32 x = Fin ?y" unfolding rnd32_def rnd_def Let_def by (simp only: if_False)
  with e show ?thesis by blast
qed

lemma rnd64_int:
  assumes "\<bar>n\<bar> < 2 ^ 53"
  shows "rnd64 (of_int n) = Fin (of_int n)"
proof -
  have r: "round_to 53 (- 1074) (of_int n :: rat) = of_int n"
    using round_to_exact [of n 53 "- 1074" 0] assms by simp
  have "(of_int \<bar>n\<bar> :: rat) < of_int (2 ^ 53)" using assms by (simp only: of_int_less_iff)
  then have b: "\<bar>of_int n :: rat\<bar> < 2 powi 53" by simp
  have "(2 :: rat) powi 53 < 2 powi 1024" unfolding powi_two_less by simp
  with b have "\<not> (2 powi 1024 \<le> (of_int n :: rat))" "\<not> ((of_int n :: rat) \<le> - (2 powi 1024))" by linarith+
  then show ?thesis unfolding rnd64_def rnd_def Let_def r by (simp only: if_False)
qed

lemma f_sqrt64_int:
  assumes "1 \<le> n"
  shows "\<exists>s. f_sqrt64 (Fin (of_int n)) = Fin s \<and> 0 < s \<and>
    s ^ 2 * (1 - 2 powi (- 53)) ^ 2 \<le> of_int n \<and> of_int n \<le> s ^ 2 * (1 + 2 powi (- 53)) ^ 2"
proof -
  have n: "(1 :: rat) \<le> of_int n" using assms by simp
  then have pos: "0 < (of_int n :: rat)" by simp
  have "(2 :: rat) powi 0 < 2 powi (ilog2 (of_int n) + 1)"
    using ilog2_bounds [OF pos] n by simp
  then have "0 \<le> ilog2 (of_int n)" unfolding powi_two_less by simp
  then have "2 * (- 1074) \<le> ilog2 (of_int n) - 2 * int 53" by simp
  from sqrt_to_bounds [OF pos this] pos show ?thesis
    by (auto simp: f_sqrt64_def)
qed

end
