(* ===== verification/Doc_Embed.thy ===== *)
theory Doc_Embed
  imports Doc_Tokenize Go_Float
begin

unbundle bit_operations_syntax

text \<open>
  \<open>doc-pipeline/internal/embed/embed.go\<close>: the signed hashing embedding.  \<open>Hash\<close> is the standard
  library's FNV-1a written out; a token adds \<open>+1\<close> or \<open>-1\<close> to the bucket its hash selects, and the
  vector is divided by its Euclidean norm, all in \<open>float32\<close> (the root in \<open>float64\<close>).  A panic
  (negative dimension, division by a zero dimension, index out of range) is \<open>None\<close>.
\<close>

section \<open>The hash\<close>

definition fnv_offset :: u64 where
  "fnv_offset = 14695981039346656037"

definition fnv_prime :: u64 where
  "fnv_prime = 1099511628211"

definition fnv_step :: "u64 \<Rightarrow> byte \<Rightarrow> u64" where
  "fnv_step h b = (h XOR ucast b) * fnv_prime"

definition Hash :: "bytes \<Rightarrow> u64" where
  "Hash s = foldl fnv_step fnv_offset s"

section \<open>The embedder\<close>

type_synonym embedding = "gofloat list"

record embedded_doc =
  ed_ID :: string
  ed_Embedding :: embedding

record embedder =
  emb_dim :: int

definition NewEmbedder :: "int \<Rightarrow> embedder" where
  "NewEmbedder n = \<lparr>emb_dim = n\<rparr>"

definition normalize :: "gofloat list \<Rightarrow> gofloat list" where
  "normalize vec =
     (let sum = foldl (\<lambda>sum v. f_add rnd32 sum (f_mul rnd32 v v)) (Fin 0) vec;
          norm = f_sqrt64 (f_conv rnd64 sum)
      in map (\<lambda>v. f_div rnd32 v (f_conv rnd32 norm)) vec)"

fun embed_loop :: "int \<Rightarrow> token list \<Rightarrow> gofloat list \<Rightarrow> gofloat list option" where
  "embed_loop n [] vec = Some vec"
| "embed_loop n (tok # toks) vec =
     (let h = Hash (tok_Term tok) in
      if (word_of_int n :: u64) = 0 then None
      else
        (let idx = sint (h mod word_of_int n);
             sign = (if h AND 1 = 1 then Fin (-1) else Fin 1)
         in if 0 \<le> idx \<and> idx < int (length vec)
            then embed_loop n toks (vec[nat idx := f_add rnd32 (vec ! nat idx) sign])
            else None))"

definition Embed :: "embedder \<Rightarrow> tokenized_doc \<Rightarrow> (string + embedded_doc) option" where
  "Embed e doc =
     (if emb_dim e < 0 then None
      else
        (case embed_loop (emb_dim e) (td_Tokens doc) (replicate (nat (emb_dim e)) (Fin 0)) of
           None \<Rightarrow> None
         | Some vec \<Rightarrow> Some (Inr \<lparr>ed_ID = td_ID doc, ed_Embedding = normalize vec\<rparr>)))"

section \<open>Parity and cancellation in the hash\<close>

lemma fnv_step_odd: "odd (fnv_step h b) \<longleftrightarrow> odd h \<noteq> odd b"
proof -
  have "odd (h XOR ucast b) \<longleftrightarrow> bit (h XOR ucast b) 0"
    by (simp only: bit_0)
  also have "\<dots> \<longleftrightarrow> bit h 0 \<noteq> bit b 0" by (simp only: bit_xor_iff bit_ucast_iff) simp
  also have "\<dots> \<longleftrightarrow> odd h \<noteq> odd b" by (simp only: bit_0)
  finally have x: "odd (h XOR ucast b) \<longleftrightarrow> odd h \<noteq> odd b" .
  have "odd (fnv_step h b) \<longleftrightarrow> odd (h XOR ucast b)" by (simp add: fnv_step_def fnv_prime_def)
  with x show ?thesis by (simp only:)
qed

lemma Hash_odd_foldl: "odd (foldl fnv_step h s) \<longleftrightarrow> odd h = even (length (filter odd s))"
  by (induction s arbitrary: h) (auto simp: fnv_step_odd)

text \<open>The prime is odd, hence invertible modulo \<open>2 ^ 64\<close>, so each step is a bijection of the state.\<close>

lemma fnv_prime_inverse: "fnv_prime * 14886173955864302971 = 1"
  by (simp add: fnv_prime_def)

lemma fnv_step_inj: "fnv_step h b = fnv_step h' b \<longleftrightarrow> h = h'"
proof
  assume "fnv_step h b = fnv_step h' b"
  then have "(h XOR ucast b) * (fnv_prime * 14886173955864302971) =
      (h' XOR ucast b) * (fnv_prime * 14886173955864302971)"
    by (simp add: fnv_step_def mult.assoc [symmetric] del: mult_cancel_left mult_cancel_right)
  then have "(h XOR ucast b) XOR ucast b = (h' XOR ucast b) XOR ucast b" by (simp add: fnv_prime_inverse)
  then show "h = h'" by (simp add: xor.assoc)
qed simp

lemma fnv_step_inj_byte: "fnv_step h a = fnv_step h b \<longleftrightarrow> a = b"
proof
  assume "fnv_step h a = fnv_step h b"
  then have "(h XOR ucast a) * (fnv_prime * 14886173955864302971) =
      (h XOR ucast b) * (fnv_prime * 14886173955864302971)"
    by (simp add: fnv_step_def mult.assoc [symmetric] del: mult_cancel_left mult_cancel_right)
  then have "h XOR (h XOR ucast a) = h XOR (h XOR (ucast b :: u64))" by (simp add: fnv_prime_inverse)
  then have "(ucast a :: u64) = ucast b" by (simp add: xor.assoc [symmetric])
  then have "unat (ucast a :: u64) = unat (ucast b :: u64)" by simp
  moreover have "unat (ucast w :: u64) = unat w" for w :: byte
    using unsigned_less [of w, where ?'a = nat] by (simp add: unsigned_ucast_eq take_bit_nat_eq_self)
  ultimately have "unat a = unat b" by metis
  then show "a = b" by (rule unsigned_word_eqI)
qed simp

lemma foldl_fnv_inj: "foldl fnv_step h s = foldl fnv_step h' s \<longleftrightarrow> h = h'"
  by (induction s arbitrary: h h') (simp_all add: fnv_step_inj)

section \<open>Buckets\<close>

definition bucket :: "int \<Rightarrow> token \<Rightarrow> nat" where
  "bucket n t = unat (Hash (tok_Term t)) mod nat n"

definition tok_sign :: "token \<Rightarrow> int" where
  "tok_sign t = (if odd (Hash (tok_Term t)) then -1 else 1)"

definition bucket_sum :: "int \<Rightarrow> token list \<Rightarrow> nat \<Rightarrow> int" where
  "bucket_sum n ts i = sum_list (map tok_sign (filter (\<lambda>t. bucket n t = i) ts))"

definition bucket_size :: "int \<Rightarrow> token list \<Rightarrow> nat \<Rightarrow> nat" where
  "bucket_size n ts i = length (filter (\<lambda>t. bucket n t = i) ts)"

definition int_vec :: "nat \<Rightarrow> (nat \<Rightarrow> int) \<Rightarrow> gofloat list" where
  "int_vec d f = map (\<lambda>i. Fin (of_int (f i))) [0..<d]"

text \<open>The index computed by the code is the bucket, and is in range.\<close>

lemma index_bucket:
  assumes "0 < n" and "n < 2 ^ 63"
  shows "sint (Hash s mod word_of_int n) = int (unat (Hash s) mod nat n)"
proof -
  have u: "uint (Hash s mod word_of_int n) = uint (Hash s) mod n"
    using assms by (simp add: uint_mod uint_word_of_int)
  have "uint (Hash s) mod n < 2 ^ 63" "0 \<le> uint (Hash s) mod n"
    using assms pos_mod_bound [OF assms(1), of "uint (Hash s)"] by (linarith, simp)
  then have "sint (Hash s mod word_of_int n) = uint (Hash s) mod n"
    unfolding sint_uint u by (simp add: signed_take_bit_int_eq_self)
  also have "\<dots> = int (unat (Hash s) mod nat n)" using assms by (simp add: zmod_int)
  finally show ?thesis .
qed

lemma dim_word_nonzero: "0 < n \<Longrightarrow> n < 2 ^ 63 \<Longrightarrow> (word_of_int n :: u64) \<noteq> 0"
proof
  assume "0 < n" "n < 2 ^ 63" "(word_of_int n :: u64) = 0"
  then have "uint (word_of_int n :: u64) = 0" "n < 2 ^ 64" by simp_all
  with \<open>0 < n\<close> show False by (simp add: uint_word_of_int)
qed

lemma hash_low_bit: "(h :: u64) AND 1 = 1 \<longleftrightarrow> odd h"
  by (simp add: and_one_eq odd_iff_mod_2_eq_one)

lemma bucket_less: "0 < n \<Longrightarrow> bucket n t < nat n"
  by (simp add: bucket_def)

lemma embed_loop_step:
  assumes "0 < n" and "n < 2 ^ 63" and "length vec = nat n"
  shows "embed_loop n (t # ts) vec =
    embed_loop n ts (vec[bucket n t := f_add rnd32 (vec ! bucket n t) (Fin (of_int (tok_sign t)))])"
proof -
  have i: "sint (Hash (tok_Term t) mod word_of_int n) = int (bucket n t)"
    using index_bucket [OF assms(1, 2)] by (simp add: bucket_def)
  have "bucket n t < length vec" using bucket_less [OF assms(1)] assms(3) by simp
  then show ?thesis
    using dim_word_nonzero [OF assms(1, 2)]
    unfolding embed_loop.simps Let_def i hash_low_bit tok_sign_def by simp
qed

lemma tok_sign_abs: "\<bar>tok_sign t\<bar> = 1"
  by (simp add: tok_sign_def)

text \<open>Up to \<open>2 ^ 24\<close> tokens every addition is exact, so the loop computes the bucket sums.\<close>

lemma embed_loop_sums:
  assumes "0 < n" and "n < 2 ^ 63"
    and "\<And>i. i < nat n \<Longrightarrow> \<bar>f i\<bar> + int (length ts) \<le> 2 ^ 24"
  shows "embed_loop n ts (int_vec (nat n) f) = Some (int_vec (nat n) (\<lambda>i. f i + bucket_sum n ts i))"
  using assms(3)
proof (induction ts arbitrary: f)
  case Nil
  then show ?case by (simp add: bucket_sum_def)
next
  case (Cons t ts)
  let ?b = "bucket n t"
  let ?g = "f(?b := f ?b + tok_sign t)"
  have b: "?b < nat n" by (rule bucket_less [OF assms(1)])
  have "\<bar>f ?b + tok_sign t\<bar> \<le> 2 ^ 24"
    using Cons.prems [OF b] abs_triangle_ineq [of "f ?b" "tok_sign t"] by (simp add: tok_sign_abs)
  then have r: "rnd32 (of_int (f ?b) + of_int (tok_sign t)) = Fin (of_int (f ?b + tok_sign t))"
    using rnd32_int [of "f ?b + tok_sign t"] by simp
  have "(int_vec (nat n) f)[?b := f_add rnd32 (int_vec (nat n) f ! ?b) (Fin (of_int (tok_sign t)))] =
      int_vec (nat n) ?g"
    using b by (auto simp: int_vec_def f_add_def r intro!: nth_equalityI simp: nth_list_update)
  then have "embed_loop n (t # ts) (int_vec (nat n) f) = embed_loop n ts (int_vec (nat n) ?g)"
    by (subst embed_loop_step [OF assms(1, 2)]) (simp_all add: int_vec_def)
  also have "\<dots> = Some (int_vec (nat n) (\<lambda>i. ?g i + bucket_sum n ts i))"
  proof (rule Cons.IH)
    fix i assume "i < nat n"
    with Cons.prems [of i] show "\<bar>?g i\<bar> + int (length ts) \<le> 2 ^ 24"
      using abs_triangle_ineq [of "f ?b" "tok_sign t"] by (auto simp: tok_sign_abs)
  qed
  also have "(\<lambda>i. ?g i + bucket_sum n ts i) = (\<lambda>i. f i + bucket_sum n (t # ts) i)"
    by (auto simp: bucket_sum_def)
  finally show ?case .
qed

text \<open>With an even dimension the sign is decided by the bucket.\<close>

lemma even_sign:
  assumes "even n" and "0 < n"
  shows "tok_sign t = (if even (bucket n t) then 1 else -1)"
proof -
  have "even (nat n)" using assms by (simp add: even_nat_iff)
  then have "even (bucket n t) \<longleftrightarrow> even (unat (Hash (tok_Term t)))"
    unfolding bucket_def by (metis dvd_mod_iff)
  also have "\<dots> \<longleftrightarrow> even (Hash (tok_Term t))"
    using bit_unsigned_iff [of "Hash (tok_Term t)" 0, where 'a = nat] unfolding bit_0 by simp
  finally show ?thesis by (simp add: tok_sign_def)
qed

lemma even_bucket_sum:
  assumes "even n" and "0 < n"
  shows "bucket_sum n ts i = (if even i then int (bucket_size n ts i) else - int (bucket_size n ts i))"
  by (induction ts) (auto simp: bucket_sum_def bucket_size_def even_sign [OF assms])

section \<open>Normalisation\<close>

abbreviation ulp32 :: rat where "ulp32 \<equiv> 2 powi (- 24)"
abbreviation ulp64 :: rat where "ulp64 \<equiv> 2 powi (- 53)"

definition squares :: "nat \<Rightarrow> (nat \<Rightarrow> int) \<Rightarrow> int" where
  "squares d g = (\<Sum>i<d. (g i)\<^sup>2)"

lemma squares_nonneg: "0 \<le> squares d g"
  by (simp add: squares_def sum_nonneg)

lemma squares_zero: "squares d g = 0 \<longleftrightarrow> (\<forall>i<d. g i = 0)"
  by (auto simp: squares_def sum_nonneg_eq_0_iff)

lemma square_le_squares: "i < d \<Longrightarrow> (g i)\<^sup>2 \<le> squares d g"
  unfolding squares_def by (rule member_le_sum) auto

lemma squares_loop:
  "squares d g \<le> 2 ^ 24 \<Longrightarrow>
   foldl (\<lambda>sum v. f_add rnd32 sum (f_mul rnd32 v v)) (Fin 0) (int_vec d g) = Fin (of_int (squares d g))"
proof (induction d)
  case 0
  then show ?case by (simp add: int_vec_def squares_def)
next
  case (Suc d)
  let ?q = "(g d)\<^sup>2"
  have split: "squares (Suc d) g = squares d g + ?q" by (simp add: squares_def)
  then have le: "squares d g \<le> 2 ^ 24" "\<bar>?q\<bar> \<le> 2 ^ 24" "\<bar>squares d g + ?q\<bar> \<le> 2 ^ 24"
    using Suc.prems squares_nonneg [of d g] zero_le_power2 [of "g d"] by linarith+
  have sq: "rnd32 (of_int (g d) * of_int (g d)) = Fin (of_int ?q)"
    using rnd32_int [OF le(2)] by (simp add: power2_eq_square)
  have add: "rnd32 (of_int (squares d g) + of_int ?q) = Fin (of_int (squares (Suc d) g))"
    using rnd32_int [OF le(3)] by (simp only: split of_int_add)
  have "int_vec (Suc d) g = int_vec d g @ [Fin (of_int (g d))]" by (simp add: int_vec_def)
  then show ?case
    using Suc.IH [OF le(1)] by (simp add: f_add_def f_mul_def sq add del: of_int_power)
qed

lemma normalize_zero:
  assumes "\<forall>i<d. g i = 0"
  shows "normalize (int_vec d g) = replicate d NaN"
proof -
  have z: "squares d g = 0" using assms by (simp add: squares_zero)
  then have "foldl (\<lambda>sum v. f_add rnd32 sum (f_mul rnd32 v v)) (Fin 0) (int_vec d g) = Fin 0"
    using squares_loop [of d g] by simp
  then have "normalize (int_vec d g) = map (\<lambda>v. f_div rnd32 v (Fin 0)) (int_vec d g)"
    by (simp add: normalize_def f_conv_def rnd64_def rnd32_def f_sqrt64_def sqrt_to_def)
  also have "\<dots> = map (\<lambda>_. NaN) [0..<d]"
    using assms by (auto simp: int_vec_def f_div_def f_inf_def)
  finally show ?thesis by (simp add: map_replicate_const)
qed

text \<open>The length of the vector as a \<open>float32\<close> is close to the exact one.\<close>

lemma norm_error:
  assumes "1 \<le> n" and "n \<le> 2 ^ 24"
  shows "\<exists>s r. f_sqrt64 (Fin (of_int n)) = Fin s \<and> rnd32 s = Fin r \<and> 1 / 4 \<le> r \<and> r \<le> 2 ^ 14 \<and>
    r\<^sup>2 * ((1 - ulp64) / (1 + ulp32))\<^sup>2 \<le> of_int n \<and> of_int n \<le> r\<^sup>2 * ((1 + ulp64) / (1 - ulp32))\<^sup>2"
proof -
  obtain s where s: "f_sqrt64 (Fin (of_int n)) = Fin s" "0 < s"
      "s\<^sup>2 * (1 - ulp64)\<^sup>2 \<le> of_int n" "of_int n \<le> s\<^sup>2 * (1 + ulp64)\<^sup>2"
    using f_sqrt64_int [OF assms(1)] by blast
  have n: "(1 :: rat) \<le> of_int n" "(of_int n :: rat) \<le> of_int (2 ^ 24)" using assms by (simp, simp only: of_int_le_iff)
  have "1\<^sup>2 \<le> (s * (1 + ulp64))\<^sup>2" using s(4) n unfolding power_mult_distrib one_power2 by linarith
  then have "1 \<le> s * (1 + ulp64)" using s(2) power2_le_imp_le [of 1 "s * (1 + ulp64)"] by simp
  then have lo: "1 / 2 \<le> s" by (simp add: power_int_minus field_simps)
  have "(s * (1 - ulp64))\<^sup>2 \<le> (2 ^ 12)\<^sup>2" using s(3) n unfolding power_mult_distrib by simp
  then have "s * (1 - ulp64) \<le> 2 ^ 12" by (rule power2_le_imp_le) simp
  then have hi: "s \<le> 2 ^ 13" by (simp add: power_int_minus field_simps)
  have "(2 :: rat) powi (- 126) \<le> 2 powi (- 1)" unfolding powi_two_le by simp
  then have "2 powi (- 126) \<le> \<bar>s\<bar>" "\<bar>s\<bar> \<le> 2 ^ 100" using lo hi by (simp_all add: power_int_minus)
  from rnd32_error [OF this] s(2) obtain r where r: "rnd32 s = Fin r" "\<bar>r - s\<bar> \<le> s * ulp32" by auto
  have rs: "s * (1 - ulp32) \<le> r" "r \<le> s * (1 + ulp32)" 
    using r(2) unfolding abs_le_iff right_diff_distrib distrib_left mult_1_right by linarith+
  have rr: "1 / 4 \<le> r" "r \<le> 2 ^ 14" using rs lo hi by (simp_all add: power_int_minus)
  have "r * ((1 - ulp64) / (1 + ulp32)) \<le> s * (1 - ulp64)"
    using rs(2) by (simp add: power_int_minus field_simps)
  then have "(r * ((1 - ulp64) / (1 + ulp32)))\<^sup>2 \<le> (s * (1 - ulp64))\<^sup>2"
    using rr by (intro power_mono) (simp_all add: power_int_minus)
  moreover have "s * (1 + ulp64) \<le> r * ((1 + ulp64) / (1 - ulp32))"
    using rs(1) by (simp add: power_int_minus field_simps)
  then have "(s * (1 + ulp64))\<^sup>2 \<le> (r * ((1 + ulp64) / (1 - ulp32)))\<^sup>2"
    using s(2) by (intro power_mono) simp_all
  ultimately have "r\<^sup>2 * ((1 - ulp64) / (1 + ulp32))\<^sup>2 \<le> of_int n" "of_int n \<le> r\<^sup>2 * ((1 + ulp64) / (1 - ulp32))\<^sup>2"
    using s(3, 4) unfolding power_mult_distrib by linarith+
  with s(1) r(1) rr show ?thesis by blast
qed

lemma sgn_close: "\<bar>x - q\<bar> < \<bar>q\<bar> \<Longrightarrow> sgn x = sgn (q :: rat)"
  by (cases "0 < q"; cases "0 < x"; cases "x = 0") (simp_all add: sgn_if)

text \<open>One component: dividing by the length keeps the sign and squares to its share of the sum.\<close>

lemma component_error:
  assumes "1 / 4 \<le> r" and "r \<le> 2 ^ 14" and "\<bar>g\<bar> \<le> 2 ^ 24"
  shows "\<exists>x. f_div rnd32 (Fin (of_int g)) (Fin r) = Fin x \<and> sgn x = of_int (sgn g) \<and>
    (of_int g / r)\<^sup>2 * (1 - ulp32)\<^sup>2 \<le> x\<^sup>2 \<and> x\<^sup>2 \<le> (of_int g / r)\<^sup>2 * (1 + ulp32)\<^sup>2"
proof (cases "g = 0")
  case True
  then show ?thesis using assms by (auto simp: f_div_def rnd32_def)
next
  case False
  let ?q = "of_int g / r"
  have r: "0 < r" using assms(1) by linarith
  have "(1 :: rat) \<le> of_int \<bar>g\<bar>" using False by simp
  then have "1 / 2 ^ 14 \<le> of_int \<bar>g\<bar> / r" using assms(2) r by (intro frac_le) simp_all
  then have lo: "2 powi (- 126) \<le> \<bar>?q\<bar>" using r by (simp add: power_int_minus)
  have "(of_int \<bar>g\<bar> :: rat) \<le> of_int (2 ^ 24)" using assms(3) by (simp only: of_int_le_iff)
  then have "of_int \<bar>g\<bar> / r \<le> 2 ^ 24 / (1 / 4)" using assms(1) by (intro frac_le) simp_all
  then have hi: "\<bar>?q\<bar> \<le> 2 ^ 100" using r by simp
  obtain x where x: "rnd32 ?q = Fin x" "\<bar>x - ?q\<bar> \<le> \<bar>?q\<bar> * ulp32" using rnd32_error [OF lo hi] by blast
  have qpos: "0 < \<bar>?q\<bar>" using False r by simp
  have u: "\<bar>?q\<bar> * ulp32 < \<bar>?q\<bar>" using qpos by (simp add: power_int_minus)
  have tri: "\<bar>x\<bar> \<le> \<bar>?q\<bar> * (1 + ulp32)" "\<bar>?q\<bar> * (1 - ulp32) \<le> \<bar>x\<bar>"
    using x(2) unfolding right_diff_distrib distrib_left mult_1_right by linarith+
  have "\<bar>x\<bar>\<^sup>2 \<le> (\<bar>?q\<bar> * (1 + ulp32))\<^sup>2" using tri(1) by (rule power_mono) simp
  moreover have "(\<bar>?q\<bar> * (1 - ulp32))\<^sup>2 \<le> \<bar>x\<bar>\<^sup>2"
    using tri(2) by (rule power_mono) (simp add: power_int_minus)
  moreover have "sgn x = sgn ?q"
    using x(2) u by (intro sgn_close) linarith
  moreover have "sgn ?q = of_int (sgn g)" using r unfolding sgn_divide by (simp add: sgn_if)
  moreover have "f_div rnd32 (Fin (of_int g)) (Fin r) = Fin x" using r x(1) by (simp add: f_div_def)
  ultimately show ?thesis unfolding power_mult_distrib power2_abs by metis
qed

lemma normalize_unit:
  assumes "\<exists>i<d. g i \<noteq> 0" and "squares d g \<le> 2 ^ 24"
  shows "\<exists>xs. normalize (int_vec d g) = map Fin xs \<and> length xs = d \<and>
    (\<forall>i<d. sgn (xs ! i) = of_int (sgn (g i))) \<and> \<bar>(\<Sum>i<d. (xs ! i)\<^sup>2) - 1\<bar> \<le> 2 powi (- 20)"
proof -
  let ?S = "squares d g"
  have "?S \<noteq> 0" unfolding squares_zero using assms(1) by simp
  then have S: "1 \<le> ?S" using squares_nonneg [of d g] by linarith
  obtain s r where s: "f_sqrt64 (Fin (of_int ?S)) = Fin s" and r: "rnd32 s = Fin r" "1 / 4 \<le> r" "r \<le> 2 ^ 14"
      and b: "r\<^sup>2 * ((1 - ulp64) / (1 + ulp32))\<^sup>2 \<le> of_int ?S" "of_int ?S \<le> r\<^sup>2 * ((1 + ulp64) / (1 - ulp32))\<^sup>2"
    using norm_error [OF S assms(2)] by blast
  have r0: "0 < r" using r by linarith
  have gi: "\<bar>g i\<bar> \<le> 2 ^ 24" if "i < d" for i
  proof -
    have "(g i)\<^sup>2 \<le> (2 ^ 12)\<^sup>2" using square_le_squares [OF that, of g] assms(2) by simp
    then have "\<bar>g i\<bar> \<le> \<bar>2 ^ 12\<bar>" unfolding abs_le_square_iff .
    then show ?thesis by simp
  qed
  have "\<forall>i. i < d \<longrightarrow> (\<exists>x. f_div rnd32 (Fin (of_int (g i))) (Fin r) = Fin x \<and> sgn x = of_int (sgn (g i)) \<and>
    (of_int (g i) / r)\<^sup>2 * (1 - ulp32)\<^sup>2 \<le> x\<^sup>2 \<and> x\<^sup>2 \<le> (of_int (g i) / r)\<^sup>2 * (1 + ulp32)\<^sup>2)"
    using component_error [OF r(2, 3) gi] by blast
  then obtain h where h: "\<And>i. i < d \<Longrightarrow> f_div rnd32 (Fin (of_int (g i))) (Fin r) = Fin (h i)"
      "\<And>i. i < d \<Longrightarrow> sgn (h i) = of_int (sgn (g i))"
      "\<And>i. i < d \<Longrightarrow> (of_int (g i) / r)\<^sup>2 * (1 - ulp32)\<^sup>2 \<le> (h i)\<^sup>2"
      "\<And>i. i < d \<Longrightarrow> (h i)\<^sup>2 \<le> (of_int (g i) / r)\<^sup>2 * (1 + ulp32)\<^sup>2"
    by metis
  let ?xs = "map h [0..<d]"
  have "rnd64 (of_int ?S) = Fin (of_int ?S)" using S assms(2) by (intro rnd64_int) simp
  then have "normalize (int_vec d g) = map (\<lambda>v. f_div rnd32 v (Fin r)) (int_vec d g)"
    by (simp add: normalize_def squares_loop [OF assms(2)] f_conv_def s r(1))
  also have "\<dots> = map Fin ?xs" using h(1) by (simp add: int_vec_def)
  finally have nm: "normalize (int_vec d g) = map Fin ?xs" .
  have shares: "(\<Sum>i<d. (of_int (g i) / r)\<^sup>2 * c) = of_int ?S / r\<^sup>2 * c" for c
    by (simp add: squares_def power_divide sum_distrib_right sum_divide_distrib)
  have "(\<Sum>i<d. (h i)\<^sup>2) \<le> of_int ?S / r\<^sup>2 * (1 + ulp32)\<^sup>2"
    unfolding shares [symmetric] by (intro sum_mono h(4)) simp
  also have "\<dots> \<le> ((1 + ulp64) / (1 - ulp32))\<^sup>2 * (1 + ulp32)\<^sup>2"
    using b(2) r0 by (intro mult_right_mono) (simp_all add: pos_divide_le_eq mult.commute)
  also have "\<dots> \<le> 1 + 2 powi (- 20)" by (simp add: power_int_minus power2_eq_square)
  finally have up: "(\<Sum>i<d. (h i)\<^sup>2) \<le> 1 + 2 powi (- 20)" .
  have "1 - 2 powi (- 20) \<le> ((1 - ulp64) / (1 + ulp32))\<^sup>2 * (1 - ulp32)\<^sup>2"
    by (simp add: power_int_minus power2_eq_square)
  also have "\<dots> \<le> of_int ?S / r\<^sup>2 * (1 - ulp32)\<^sup>2"
    using b(1) r0 by (intro mult_right_mono) (simp_all add: pos_le_divide_eq mult.commute)
  also have "\<dots> \<le> (\<Sum>i<d. (h i)\<^sup>2)"
    unfolding shares [symmetric] by (intro sum_mono h(3)) simp
  finally have "\<bar>(\<Sum>i<d. (h i)\<^sup>2) - 1\<bar> \<le> 2 powi (- 20)" using up by linarith
  then have "\<bar>(\<Sum>i<d. (?xs ! i)\<^sup>2) - 1\<bar> \<le> 2 powi (- 20)" by simp
  with nm h(2) show ?thesis by (intro exI [of _ ?xs]) simp
qed

section \<open>Embedding a document\<close>

lemma bucket_sum_abs: "\<bar>bucket_sum n ts i\<bar> \<le> int (bucket_size n ts i)"
proof (induction ts)
  case (Cons t ts)
  then show ?case
    using tok_sign_abs [of t] by (auto simp: bucket_sum_def bucket_size_def)
qed (simp add: bucket_sum_def bucket_size_def)

lemma bucket_size_le: "bucket_size n ts i \<le> length ts"
  by (simp add: bucket_size_def)

lemma bucket_size_total: "0 < n \<Longrightarrow> (\<Sum>i<nat n. bucket_size n ts i) = length ts"
proof (induction ts)
  case (Cons t ts)
  have "(\<Sum>i<nat n. bucket_size n (t # ts) i) =
      (\<Sum>i<nat n. (if bucket n t = i then 1 else 0) + bucket_size n ts i)"
    by (rule sum.cong) (simp_all add: bucket_size_def)
  then show ?case using Cons bucket_less [OF Cons.prems, of t] by (simp add: sum.distrib)
qed (simp add: bucket_size_def)

lemma squares_le_tokens:
  assumes "0 < n"
  shows "squares (nat n) (bucket_sum n ts) \<le> (int (length ts))\<^sup>2"
proof -
  have "(bucket_sum n ts i)\<^sup>2 \<le> int (bucket_size n ts i) * int (length ts)" for i
  proof -
    have "\<bar>bucket_sum n ts i\<bar> * \<bar>bucket_sum n ts i\<bar> \<le> int (bucket_size n ts i) * int (length ts)"
      using bucket_sum_abs [of n ts i] bucket_size_le [of n ts i] by (intro mult_mono) simp_all
    then show ?thesis by (simp add: power2_eq_square)
  qed
  then have "squares (nat n) (bucket_sum n ts) \<le> (\<Sum>i<nat n. int (bucket_size n ts i) * int (length ts))"
    unfolding squares_def by (intro sum_mono) simp
  also have "\<dots> = (int (length ts))\<^sup>2"
    by (simp add: sum_distrib_right [symmetric] of_nat_sum [symmetric] bucket_size_total [OF assms]
        power2_eq_square)
  finally show ?thesis .
qed

lemma Embed_sums:
  assumes "0 < n" and "n < 2 ^ 63" and "length (td_Tokens doc) \<le> 2 ^ 24"
  shows "Embed (NewEmbedder n) doc =
    Some (Inr \<lparr>ed_ID = td_ID doc, ed_Embedding = normalize (int_vec (nat n) (bucket_sum n (td_Tokens doc)))\<rparr>)"
proof -
  have z: "replicate (nat n) (Fin 0) = int_vec (nat n) (\<lambda>_. 0)"
    by (simp add: int_vec_def map_replicate_const)
  have "embed_loop n (td_Tokens doc) (int_vec (nat n) (\<lambda>_. 0)) =
      Some (int_vec (nat n) (bucket_sum n (td_Tokens doc)))"
    using embed_loop_sums [OF assms(1, 2), of "\<lambda>_. 0" "td_Tokens doc"] assms(3) by simp
  then show ?thesis using assms(1) by (simp add: Embed_def NewEmbedder_def z)
qed

lemma embed_loop_total:
  "0 < n \<Longrightarrow> n < 2 ^ 63 \<Longrightarrow> length vec = nat n \<Longrightarrow> \<exists>v. embed_loop n ts vec = Some v \<and> length v = nat n"
  by (induction ts arbitrary: vec) (simp_all add: embed_loop_step del: embed_loop.simps(2))

lemma tokens_squares:
  assumes "0 < n" and "length ts \<le> 4096"
  shows "squares (nat n) (bucket_sum n ts) \<le> 2 ^ 24"
proof -
  have "int (length ts) \<le> 2 ^ 12" using assms(2) by simp
  then have "(int (length ts))\<^sup>2 \<le> (2 ^ 12)\<^sup>2" by (rule power_mono) simp
  then show ?thesis using squares_le_tokens [OF assms(1), of ts] by simp
qed

lemma embed_nonzero:
  assumes "0 < n" and "n < 2 ^ 63" and "length (td_Tokens doc) \<le> 4096"
    and "\<not> (\<forall>i < nat n. bucket_sum n (td_Tokens doc) i = 0)"
  shows "\<exists>ed. Embed (NewEmbedder n) doc = Some (Inr ed) \<and>
    (\<exists>xs. ed_Embedding ed = map Fin xs \<and> \<bar>(\<Sum>i < nat n. (xs ! i)\<^sup>2) - 1\<bar> \<le> 2 powi (- 20) \<and>
       (\<forall>i < nat n. sgn (xs ! i) = of_int (sgn (bucket_sum n (td_Tokens doc) i))))"
proof -
  have le: "length (td_Tokens doc) \<le> 2 ^ 24" using assms(3) by simp
  have nz: "\<exists>i < nat n. bucket_sum n (td_Tokens doc) i \<noteq> 0" using assms(4) by blast
  obtain xs where "normalize (int_vec (nat n) (bucket_sum n (td_Tokens doc))) = map Fin xs"
      "\<forall>i < nat n. sgn (xs ! i) = of_int (sgn (bucket_sum n (td_Tokens doc) i))"
      "\<bar>(\<Sum>i < nat n. (xs ! i)\<^sup>2) - 1\<bar> \<le> 2 powi (- 20)"
    using normalize_unit [OF nz tokens_squares [OF assms(1, 3)]] by blast
  then show ?thesis unfolding Embed_sums [OF assms(1, 2) le]
    by (intro exI [of _ "\<lparr>ed_ID = _, ed_Embedding = _\<rparr>"] conjI refl) (auto intro!: exI [of _ xs])
qed

section \<open>Properties\<close>

text \<open>The published FNV-1a test vectors.\<close>

lemma fnv_vectors:
  "Hash [] = 0xcbf29ce484222325" "Hash [0x61] = 0xaf63dc4c8601ec8c"
  "Hash [0x66, 0x6f, 0x6f, 0x62, 0x61, 0x72] = 0x85944171f73967e8"
  by (simp_all add: Hash_def fnv_step_def fnv_offset_def fnv_prime_def)

text \<open>
  Two structural facts of \<open>Hash\<close>.  Its low bit, which \<open>Embed\<close> uses as the sign, is only
  the parity of the number of odd bytes of the term; and one step is a bijection of the 64-bit state,
  so a common suffix neither creates nor removes a collision and two terms that differ in their last
  byte only never collide.
\<close>

theorem hash_structure:
  "(odd (Hash s) \<longleftrightarrow> even (length (filter odd s))) \<and>
   (Hash (s @ u) = Hash (t @ u) \<longleftrightarrow> Hash s = Hash t) \<and>
   (Hash (s @ [a]) = Hash (s @ [b]) \<longleftrightarrow> a = b)"
proof (intro conjI)
  have "odd fnv_offset" by (simp add: fnv_offset_def)
  then show "odd (Hash s) \<longleftrightarrow> even (length (filter odd s))"
    unfolding Hash_def Hash_odd_foldl by simp
  show "Hash (s @ u) = Hash (t @ u) \<longleftrightarrow> Hash s = Hash t"
    by (simp add: Hash_def foldl_fnv_inj)
  show "Hash (s @ [a]) = Hash (s @ [b]) \<longleftrightarrow> a = b"
    by (simp add: Hash_def fnv_step_inj_byte)
qed





text \<open>
  With an even dimension (the program uses 1024) the sign bit of the hash is also the low bit of
  the bucket, so the sign is a function of the bucket: even components are never negative and odd
  ones never positive, and what should be a signed sum is plus or minus the number of tokens in the
  bucket.  Nothing ever cancels; consequently every document with a token has a unit embedding.
\<close>

theorem even_dimension_signs:
  assumes "0 < n" and "n < 2 ^ 63" and "even n"
    and "length (td_Tokens doc) \<le> 4096" and "td_Tokens doc \<noteq> []"
  shows "\<exists>ed xs. Embed (NewEmbedder n) doc = Some (Inr ed) \<and> ed_Embedding ed = map Fin xs \<and>
    \<bar>(\<Sum>i < nat n. (xs ! i)\<^sup>2) - 1\<bar> \<le> 2 powi (- 20) \<and>
    (\<forall>i < nat n. sgn (xs ! i) =
       (if bucket_size n (td_Tokens doc) i = 0 then 0 else if even i then 1 else -1))"
proof -
  let ?ts = "td_Tokens doc"
  obtain t where t: "t \<in> set ?ts" using assms(5) by (cases ?ts) auto
  have "bucket_size n ?ts (bucket n t) \<noteq> 0" using t by (auto simp: bucket_size_def filter_empty_conv)
  then have "bucket_sum n ?ts (bucket n t) \<noteq> 0" by (simp add: even_bucket_sum [OF assms(3, 1)])
  then have nz: "\<not> (\<forall>i < nat n. bucket_sum n ?ts i = 0)" using bucket_less [OF assms(1), of t] by blast
  have sg: "of_int (sgn (bucket_sum n ?ts i)) =
      (if bucket_size n ?ts i = 0 then 0 else if even i then 1 else (-1 :: rat))" for i
    by (simp add: even_bucket_sum [OF assms(3, 1)] sgn_if)
  obtain ed where ed: "Embed (NewEmbedder n) doc = Some (Inr ed)"
      "\<exists>xs. ed_Embedding ed = map Fin xs \<and> \<bar>(\<Sum>i < nat n. (xs ! i)\<^sup>2) - 1\<bar> \<le> 2 powi (- 20) \<and>
        (\<forall>i < nat n. sgn (xs ! i) = of_int (sgn (bucket_sum n ?ts i)))"
    using embed_nonzero [OF assms(1, 2, 4) nz] by blast
  then show ?thesis unfolding sg by blast
qed

theorem even_dimension_signs_witness:
  "\<exists>ed xs. Embed (NewEmbedder 1024) \<lparr>td_ID = ''d'', td_Tokens = [\<lparr>tok_Term = [0x61]\<rparr>]\<rparr> = Some (Inr ed) \<and>
     ed_Embedding ed = map Fin xs \<and> sgn (xs ! 140) = 1 \<and> sgn (xs ! 141) = 0"
proof -
  let ?ts = "[\<lparr>tok_Term = [0x61]\<rparr>]"
  have b: "bucket_size 1024 ?ts 140 = 1" "bucket_size 1024 ?ts 141 = 0"
    by (simp_all add: bucket_size_def bucket_def fnv_vectors)
  obtain ed xs where "Embed (NewEmbedder 1024) \<lparr>td_ID = ''d'', td_Tokens = ?ts\<rparr> = Some (Inr ed)"
      and x: "ed_Embedding ed = map Fin xs"
      "\<forall>i < nat 1024. sgn (xs ! i) = (if bucket_size 1024 ?ts i = 0 then 0 else if even i then 1 else -1)"
    using even_dimension_signs [of 1024 "\<lparr>td_ID = ''d'', td_Tokens = ?ts\<rparr>"] by auto
  moreover have "sgn (xs ! 140) = 1" "sgn (xs ! 141) = 0"
    using x(2) [rule_format, of 140] x(2) [rule_format, of 141] b by simp_all
  ultimately show ?thesis by blast
qed

text \<open>
  The two ways to a NaN embedding.  A document without tokens gives one at every dimension; and at
  an odd dimension a document with tokens can, because the signs may cancel: the one-letter words
  \<open>a\<close> and \<open>b\<close> have hashes of different parity.
\<close>

theorem nan_embeddings:
  "(0 < n \<and> n < 2 ^ 63 \<longrightarrow>
      Embed (NewEmbedder n) \<lparr>td_ID = i, td_Tokens = []\<rparr> =
        Some (Inr \<lparr>ed_ID = i, ed_Embedding = replicate (nat n) NaN\<rparr>)) \<and>
   Embed (NewEmbedder 1) \<lparr>td_ID = i, td_Tokens = [\<lparr>tok_Term = [0x61]\<rparr>, \<lparr>tok_Term = [0x62]\<rparr>]\<rparr> =
     Some (Inr \<lparr>ed_ID = i, ed_Embedding = [NaN]\<rparr>)"
proof (intro conjI impI)
  assume "0 < n \<and> n < 2 ^ 63"
  then show "Embed (NewEmbedder n) \<lparr>td_ID = i, td_Tokens = []\<rparr> =
      Some (Inr \<lparr>ed_ID = i, ed_Embedding = replicate (nat n) NaN\<rparr>)"
    using normalize_zero [of "nat n" "bucket_sum n []"] by (simp add: Embed_sums) (simp add: bucket_sum_def)
next
  let ?ts = "[\<lparr>tok_Term = [0x61]\<rparr>, \<lparr>tok_Term = [0x62]\<rparr>]"
  have "odd (Hash [0x62])" by (simp add: Hash_def fnv_step_def fnv_offset_def fnv_prime_def)
  then have "bucket_sum 1 ?ts 0 = 0"
    by (simp add: bucket_sum_def bucket_def tok_sign_def fnv_vectors)
  then show "Embed (NewEmbedder 1) \<lparr>td_ID = i, td_Tokens = ?ts\<rparr> = Some (Inr \<lparr>ed_ID = i, ed_Embedding = [NaN]\<rparr>)"
    using normalize_zero [of "nat 1" "bucket_sum 1 ?ts"] by (simp add: Embed_sums)
qed

theorem nan_embeddings_witness:
  "Embed (NewEmbedder 1024) \<lparr>td_ID = ''e'', td_Tokens = []\<rparr> =
     Some (Inr \<lparr>ed_ID = ''e'', ed_Embedding = replicate 1024 NaN\<rparr>)"
  using nan_embeddings [of 1024 "''e''"] by simp

end
