(* ===== verification/Doc_Index.thy ===== *)
theory Doc_Index
  imports Doc_Embed "HOL-Library.AList"
begin

text \<open>
  \<open>doc-pipeline/internal/index/index.go\<close>: the deduplicating index.  The HNSW graph is a third-party
  package (\<open>github.com/coder/hnsw\<close>): its constructor, search and insertion are the parameter \<open>h\<close>,
  and \<open>hnsw_ok\<close> states what is documented of them.  The index keeps the graph, the threshold and the
  calls made to its metrics.  \<open>DedupAndIndex\<close> takes its read lock for the search and its write lock
  for the insertion only, so a concurrent call is a step relation with three atomic steps, the
  same ones the sequential function composes.
\<close>

section \<open>The index\<close>

type_synonym neighbors = "(string \<times> gofloat) list"

record 'g hnsw =
  hn_new :: 'g
  hn_search :: "'g \<Rightarrow> embedding \<Rightarrow> nat \<Rightarrow> neighbors"
  hn_add :: "'g \<Rightarrow> string \<Rightarrow> embedding \<Rightarrow> 'g"

record index_metrics =
  im_threshold :: "gofloat list"
  im_processed :: nat
  im_duplicates :: nat

record 'g embedding_index =
  ix_graph :: 'g
  ix_threshold :: gofloat
  ix_metrics :: index_metrics

record dedup_result =
  dr_ID :: string
  dr_IsDuplicate :: bool
  dr_NearestID :: string
  dr_Similarity :: gofloat

definition NewEmbeddingIndex :: "'g hnsw \<Rightarrow> gofloat \<Rightarrow> index_metrics \<Rightarrow> string + 'g embedding_index" where
  "NewEmbeddingIndex h dedupThreshold metrics =
     (if f_le dedupThreshold (Fin 0) \<or> f_lt (Fin 1) dedupThreshold
      then Inl ''deduplication threshold must be between 0.0 and 1.0''
      else Inr \<lparr>ix_graph = hn_new h, ix_threshold = dedupThreshold,
                ix_metrics = metrics\<lparr>im_threshold := im_threshold metrics @ [dedupThreshold]\<rparr>\<rparr>)"

definition dd_count :: "'g embedding_index \<Rightarrow> 'g embedding_index" where
  "dd_count idx = idx\<lparr>ix_metrics := (ix_metrics idx)\<lparr>im_processed := im_processed (ix_metrics idx) + 1\<rparr>\<rparr>"

definition dd_search :: "'g hnsw \<Rightarrow> embedded_doc \<Rightarrow> 'g embedding_index \<Rightarrow> neighbors" where
  "dd_search h doc idx = hn_search h (ix_graph idx) (ed_Embedding doc) 1"

definition dd_finish ::
  "'g hnsw \<Rightarrow> embedded_doc \<Rightarrow> neighbors \<Rightarrow> 'g embedding_index \<Rightarrow> 'g embedding_index \<times> dedup_result" where
  "dd_finish h doc neighbors idx =
     (let added = idx\<lparr>ix_graph := hn_add h (ix_graph idx) (ed_ID doc) (ed_Embedding doc)\<rparr> in
      case neighbors of
        (bestID, distance) # _ \<Rightarrow>
          (let similarity = f_sub rnd32 (Fin 1) distance;
               isDup = f_le (ix_threshold idx) similarity
           in (if \<not> isDup then added
               else idx\<lparr>ix_metrics := (ix_metrics idx)\<lparr>im_duplicates := im_duplicates (ix_metrics idx) + 1\<rparr>\<rparr>,
               \<lparr>dr_ID = ed_ID doc, dr_IsDuplicate = isDup, dr_NearestID = bestID, dr_Similarity = similarity\<rparr>))
      | [] \<Rightarrow> (added, \<lparr>dr_ID = ed_ID doc, dr_IsDuplicate = False, dr_NearestID = '''', dr_Similarity = Fin 0\<rparr>))"

definition DedupAndIndex ::
  "'g hnsw \<Rightarrow> embedded_doc \<Rightarrow> 'g embedding_index \<Rightarrow> 'g embedding_index \<times> (string + dedup_result)" where
  "DedupAndIndex h doc idx =
     (let idx = dd_count idx;
          neighbors = dd_search h doc idx;
          (idx, res) = dd_finish h doc neighbors idx
      in (idx, Inr res))"

text \<open>One worker: the documents in order, each on the index the previous one left.\<close>

fun dedup_all ::
  "'g hnsw \<Rightarrow> embedded_doc list \<Rightarrow> 'g embedding_index \<Rightarrow> 'g embedding_index \<times> (string + dedup_result) list" where
  "dedup_all h [] idx = (idx, [])"
| "dedup_all h (doc # docs) idx =
     (let (idx, r) = DedupAndIndex h doc idx; (idx, rs) = dedup_all h docs idx in (idx, r # rs))"

section \<open>Concurrent calls\<close>

datatype dd_pc =
    Called embedded_doc
  | Counted embedded_doc
  | Searched embedded_doc neighbors
  | Returned embedded_doc dedup_result

type_synonym 'g dd_state = "'g embedding_index \<times> dd_pc list"

inductive dd_step :: "'g hnsw \<Rightarrow> 'g dd_state \<Rightarrow> 'g dd_state \<Rightarrow> bool" for h where
  step_count: "i < length pcs \<Longrightarrow> pcs ! i = Called doc \<Longrightarrow>
    dd_step h (idx, pcs) (dd_count idx, pcs[i := Counted doc])"
| step_search: "i < length pcs \<Longrightarrow> pcs ! i = Counted doc \<Longrightarrow>
    dd_step h (idx, pcs) (idx, pcs[i := Searched doc (dd_search h doc idx)])"
| step_finish: "i < length pcs \<Longrightarrow> pcs ! i = Searched doc ns \<Longrightarrow> dd_finish h doc ns idx = (idx', res) \<Longrightarrow>
    dd_step h (idx, pcs) (idx', pcs[i := Returned doc res])"

inductive dd_reach :: "'g hnsw \<Rightarrow> 'g embedding_index \<Rightarrow> embedded_doc list \<Rightarrow> 'g dd_state \<Rightarrow> bool"
  for h idx docs where
  reach_init: "dd_reach h idx docs (idx, map Called docs)"
| reach_step: "dd_reach h idx docs s \<Longrightarrow> dd_step h s t \<Longrightarrow> dd_reach h idx docs t"

inductive_cases dd_stepE: "dd_step h s t"

section \<open>What is documented of the graph\<close>

text \<open>
  Insertion stores the vector under its key, replacing an earlier one; a search for at most \<open>n\<close>
  neighbours returns at most \<open>n\<close> stored keys with their distances, and finds something unless the
  graph is empty.  Nothing is assumed about the neighbour found being the nearest: the search is
  approximate.
\<close>

definition hnsw_ok ::
  "'g hnsw \<Rightarrow> ('g \<Rightarrow> string \<Rightarrow> embedding option) \<Rightarrow> (embedding \<Rightarrow> embedding \<Rightarrow> gofloat) \<Rightarrow> bool" where
  "hnsw_ok h nodes dst \<longleftrightarrow>
     nodes (hn_new h) = Map.empty \<and>
     (\<forall>g k v. nodes (hn_add h g k v) = (nodes g)(k \<mapsto> v)) \<and>
     (\<forall>g v n. length (hn_search h g v n) \<le> n) \<and>
     (\<forall>g v n. 0 < n \<longrightarrow> (hn_search h g v n = [] \<longleftrightarrow> nodes g = Map.empty)) \<and>
     (\<forall>g v n k d. (k, d) \<in> set (hn_search h g v n) \<longrightarrow> (\<exists>w. nodes g k = Some w \<and> d = dst w v))"

text \<open>An instance: the exact search by linear scan.\<close>

fun scan_best :: "string \<times> gofloat \<Rightarrow> neighbors \<Rightarrow> string \<times> gofloat" where
  "scan_best b [] = b"
| "scan_best b (x # xs) = scan_best (if f_lt (snd x) (snd b) then x else b) xs"

definition scan_hnsw ::
  "(embedding \<Rightarrow> embedding \<Rightarrow> gofloat) \<Rightarrow> (string \<times> embedding) list hnsw" where
  "scan_hnsw dst =
     \<lparr>hn_new = [],
      hn_search = (\<lambda>g v n. case map (\<lambda>(k, w). (k, dst w v)) (AList.clearjunk g) of
                     [] \<Rightarrow> [] | x # xs \<Rightarrow> take n [scan_best x xs]),
      hn_add = (\<lambda>g k v. (k, v) # g)\<rparr>"

definition equal_dist :: "embedding \<Rightarrow> embedding \<Rightarrow> gofloat" where
  "equal_dist v w = (if NaN \<in> set v \<union> set w then NaN else if v = w then Fin 0 else Fin 1)"

lemma scan_best_in: "scan_best b xs \<in> set (b # xs)"
  by (induction xs arbitrary: b) (fastforce split: if_splits)+

lemma scan_hnsw_ok: "hnsw_ok (scan_hnsw dst) map_of dst"
proof -
  have "\<exists>w. map_of g k = Some w \<and> d = dst w v"
    if found: "(k, d) \<in> set (hn_search (scan_hnsw dst) g v n)" for g v n k d
  proof -
    let ?xs = "map (\<lambda>(k, w). (k, dst w v)) (AList.clearjunk g)"
    obtain x xs where xs: "?xs = x # xs" and "(k, d) \<in> set (take n [scan_best x xs])"
      using found by (cases ?xs) (simp_all add: scan_hnsw_def)
    then have "(k, d) = scan_best x xs" by (cases n) simp_all
    then have "(k, d) \<in> set ?xs" using scan_best_in [of x xs] by (simp only: xs)
    then obtain w where w: "(k, w) \<in> set (AList.clearjunk g)" "d = dst w v" by auto
    then have "map_of g k = Some w"
      using distinct_clearjunk [of g] map_of_clearjunk [of g] by (metis map_of_is_SomeI)
    with w(2) show ?thesis by blast
  qed
  moreover have "hn_search (scan_hnsw dst) g v n = [] \<longleftrightarrow> map_of g = Map.empty" if "0 < n" for g v n
    using that by (cases g; cases n) (auto simp: scan_hnsw_def split: list.split)
  ultimately show ?thesis
    by (auto simp: hnsw_ok_def scan_hnsw_def split: list.split)
qed

section \<open>One call\<close>

lemma hnsw_search_cases:
  assumes "hnsw_ok h nodes dst"
  obtains (empty) "nodes g = Map.empty" "hn_search h g v 1 = []"
  | (found) k w where "nodes g k = Some w" "hn_search h g v 1 = [(k, dst w v)]"
proof (cases "hn_search h g v 1")
  case Nil
  moreover from Nil have "nodes g = Map.empty" using assms by (simp add: hnsw_ok_def)
  ultimately show ?thesis using empty by blast
next
  case (Cons x xs)
  obtain k d where x: "x = (k, d)" by (cases x)
  have "length (hn_search h g v 1) \<le> 1" using assms unfolding hnsw_ok_def by blast
  then have xs: "xs = []" unfolding Cons by simp
  have "(k, d) \<in> set (hn_search h g v 1)" unfolding Cons x by simp
  then obtain w where "nodes g k = Some w" "d = dst w v" using assms unfolding hnsw_ok_def by blast
  then show ?thesis using found Cons x xs by blast
qed

lemma hnsw_add: "hnsw_ok h nodes dst \<Longrightarrow> nodes (hn_add h g k v) = (nodes g)(k \<mapsto> v)"
  and hnsw_new: "hnsw_ok h nodes dst \<Longrightarrow> nodes (hn_new h) = Map.empty"
  by (simp_all add: hnsw_ok_def)

lemma hnsw_found:
  assumes "hnsw_ok h nodes dst" and "(k, d) \<in> set (hn_search h g v n)"
  shows "\<exists>w. nodes g k = Some w \<and> d = dst w v"
proof -
  have "\<forall>g v n k d. (k, d) \<in> set (hn_search h g v n) \<longrightarrow> (\<exists>w. nodes g k = Some w \<and> d = dst w v)"
    using assms(1) unfolding hnsw_ok_def by (elim conjE)
  with assms(2) show ?thesis by (elim allE) (erule mp)
qed

definition similarity_of :: "(embedding \<Rightarrow> embedding \<Rightarrow> gofloat) \<Rightarrow> embedding \<Rightarrow> embedding \<Rightarrow> gofloat" where
  "similarity_of dst w v = f_sub rnd32 (Fin 1) (dst w v)"

lemma dd_finish_empty:
  "dd_finish h doc [] idx = (idx\<lparr>ix_graph := hn_add h (ix_graph idx) (ed_ID doc) (ed_Embedding doc)\<rparr>,
     \<lparr>dr_ID = ed_ID doc, dr_IsDuplicate = False, dr_NearestID = '''', dr_Similarity = Fin 0\<rparr>)"
  by (simp add: dd_finish_def)

lemma dd_finish_found:
  "dd_finish h doc [(k, dst w v)] idx =
     (if f_le (ix_threshold idx) (similarity_of dst w v)
      then idx\<lparr>ix_metrics := (ix_metrics idx)\<lparr>im_duplicates := im_duplicates (ix_metrics idx) + 1\<rparr>\<rparr>
      else idx\<lparr>ix_graph := hn_add h (ix_graph idx) (ed_ID doc) (ed_Embedding doc)\<rparr>,
      \<lparr>dr_ID = ed_ID doc, dr_IsDuplicate = f_le (ix_threshold idx) (similarity_of dst w v),
       dr_NearestID = k, dr_Similarity = similarity_of dst w v\<rparr>)"
  by (simp add: dd_finish_def similarity_of_def)

lemma dd_count_simps [simp]:
  "ix_graph (dd_count idx) = ix_graph idx" "ix_threshold (dd_count idx) = ix_threshold idx"
  "im_processed (ix_metrics (dd_count idx)) = im_processed (ix_metrics idx) + 1"
  "im_duplicates (ix_metrics (dd_count idx)) = im_duplicates (ix_metrics idx)"
  by (simp_all add: dd_count_def)

lemma dd_finish_counts:
  assumes "dd_finish h doc ns idx = (idx', res)"
  shows "ix_threshold idx' = ix_threshold idx"
    and "im_processed (ix_metrics idx') = im_processed (ix_metrics idx)"
    and "im_duplicates (ix_metrics idx') = im_duplicates (ix_metrics idx) + of_bool (dr_IsDuplicate res)"
    and "dr_ID res = ed_ID doc"
    and "ix_graph idx' = (if dr_IsDuplicate res then ix_graph idx
           else hn_add h (ix_graph idx) (ed_ID doc) (ed_Embedding doc))"
  using assms by (auto simp: dd_finish_def Let_def split: list.splits)

section \<open>One worker\<close>

definition kept :: "embedded_doc list \<Rightarrow> dedup_result list \<Rightarrow> embedded_doc list" where
  "kept docs rs = map fst (filter (\<lambda>(d, r). \<not> dr_IsDuplicate r) (zip docs rs))"

lemma kept_simps [simp]:
  "kept [] rs = []" "kept (d # ds) (r # rs) = (if dr_IsDuplicate r then kept ds rs else d # kept ds rs)"
  by (simp_all add: kept_def)

definition stored :: "embedded_doc list \<Rightarrow> string \<Rightarrow> embedding option" where
  "stored ds = map_of (map (\<lambda>d. (ed_ID d, ed_Embedding d)) ds)"

lemma stored_Some: "stored ds k = Some w \<Longrightarrow> \<exists>d \<in> set ds. ed_ID d = k \<and> ed_Embedding d = w"
  by (auto simp: stored_def dest!: map_of_SomeD)

lemma stored_empty [simp]: "stored [] = Map.empty" "stored ds = Map.empty \<longleftrightarrow> ds = []"
  by (auto simp: stored_def)

lemma stored_snoc: "ed_ID d \<notin> ed_ID ` set ds \<Longrightarrow> stored (ds @ [d]) = (stored ds)(ed_ID d \<mapsto> ed_Embedding d)"
  by (induction ds) (auto simp: stored_def fun_upd_twist)

text \<open>The verdict on a document when the documents \<open>S\<close> are indexed.\<close>

definition verdict_ok ::
  "(embedding \<Rightarrow> embedding \<Rightarrow> gofloat) \<Rightarrow> gofloat \<Rightarrow> embedded_doc list \<Rightarrow> embedded_doc \<Rightarrow> dedup_result \<Rightarrow> bool" where
  "verdict_ok dst t S d r \<longleftrightarrow>
     dr_ID r = ed_ID d \<and>
     (if S = [] then \<not> dr_IsDuplicate r \<and> dr_NearestID r = '''' \<and> dr_Similarity r = Fin 0
      else \<exists>e \<in> set S. dr_NearestID r = ed_ID e \<and>
        dr_Similarity r = similarity_of dst (ed_Embedding e) (ed_Embedding d) \<and>
        (dr_IsDuplicate r \<longleftrightarrow> f_le t (dr_Similarity r)))"

lemma DedupAndIndex_verdict:
  assumes ok: "hnsw_ok h nodes dst" and S: "nodes (ix_graph idx) = stored S"
  obtains idx' r where "DedupAndIndex h d idx = (idx', Inr r)" and "verdict_ok dst (ix_threshold idx) S d r"
    and "ix_threshold idx' = ix_threshold idx"
    and "im_processed (ix_metrics idx') = im_processed (ix_metrics idx) + 1"
    and "im_duplicates (ix_metrics idx') = im_duplicates (ix_metrics idx) + of_bool (dr_IsDuplicate r)"
    and "nodes (ix_graph idx') = (if dr_IsDuplicate r then nodes (ix_graph idx)
           else (nodes (ix_graph idx))(ed_ID d \<mapsto> ed_Embedding d))"
proof -
  let ?ns = "hn_search h (ix_graph idx) (ed_Embedding d) 1"
  obtain idx' r where f: "dd_finish h d ?ns (dd_count idx) = (idx', r)" by fastforce
  have D: "DedupAndIndex h d idx = (idx', Inr r)" 
    unfolding DedupAndIndex_def dd_search_def Let_def dd_count_simps f by simp
  have "verdict_ok dst (ix_threshold idx) S d r"
  proof (rule hnsw_search_cases [OF ok, of "ix_graph idx" "ed_Embedding d"])
    assume e: "nodes (ix_graph idx) = Map.empty" "?ns = []"
    then have "S = []" using S by simp
    then show ?thesis using f unfolding e(2) dd_finish_empty by (auto simp: verdict_ok_def)
  next
    fix k w assume g: "nodes (ix_graph idx) k = Some w" "?ns = [(k, dst w (ed_Embedding d))]"
    then obtain e where "e \<in> set S" "ed_ID e = k" "ed_Embedding e = w" using S stored_Some by metis
    then show ?thesis using f unfolding g(2) dd_finish_found by (auto simp: verdict_ok_def)
  qed
  with D dd_finish_counts [OF f] that [of idx' r] show ?thesis by (auto simp: hnsw_add [OF ok])
qed

definition dup_count :: "dedup_result list \<Rightarrow> nat" where
  "dup_count rs = length (filter dr_IsDuplicate rs)"

lemma dedup_all_spec:
  assumes ok: "hnsw_ok h nodes dst"
  shows "nodes (ix_graph idx) = stored S \<Longrightarrow> distinct (map ed_ID (S @ docs)) \<Longrightarrow>
    \<exists>idx' rs. dedup_all h docs idx = (idx', map Inr rs) \<and> length rs = length docs \<and>
      ix_threshold idx' = ix_threshold idx \<and>
      im_processed (ix_metrics idx') = im_processed (ix_metrics idx) + length docs \<and>
      im_duplicates (ix_metrics idx') = im_duplicates (ix_metrics idx) + dup_count rs \<and>
      nodes (ix_graph idx') = stored (S @ kept docs rs) \<and>
      (\<forall>i < length docs. verdict_ok dst (ix_threshold idx) (S @ kept (take i docs) (take i rs)) (docs ! i) (rs ! i))"
proof (induction docs arbitrary: idx S)
  case Nil
  then show ?case by (simp add: dup_count_def)
next
  case (Cons d ds)
  obtain idx1 r where D: "DedupAndIndex h d idx = (idx1, Inr r)"
      and v: "verdict_ok dst (ix_threshold idx) S d r" and t: "ix_threshold idx1 = ix_threshold idx"
      and c: "im_processed (ix_metrics idx1) = im_processed (ix_metrics idx) + 1"
        "im_duplicates (ix_metrics idx1) = im_duplicates (ix_metrics idx) + of_bool (dr_IsDuplicate r)"
      and n: "nodes (ix_graph idx1) = (if dr_IsDuplicate r then nodes (ix_graph idx)
           else (nodes (ix_graph idx))(ed_ID d \<mapsto> ed_Embedding d))"
    using DedupAndIndex_verdict [OF ok Cons.prems(1)] by metis
  let ?S = "S @ (if dr_IsDuplicate r then [] else [d])"
  have "nodes (ix_graph idx1) = stored ?S"
    using n Cons.prems stored_snoc [of d S] by (auto simp: image_iff)
  moreover have "distinct (map ed_ID (?S @ ds))" using Cons.prems(2) by auto
  ultimately obtain idx' rs where I: "dedup_all h ds idx1 = (idx', map Inr rs)" "length rs = length ds"
      "ix_threshold idx' = ix_threshold idx1"
      "im_processed (ix_metrics idx') = im_processed (ix_metrics idx1) + length ds"
      "im_duplicates (ix_metrics idx') = im_duplicates (ix_metrics idx1) + dup_count rs"
      "nodes (ix_graph idx') = stored (?S @ kept ds rs)"
      "\<forall>i < length ds. verdict_ok dst (ix_threshold idx1) (?S @ kept (take i ds) (take i rs)) (ds ! i) (rs ! i)"
    using Cons.IH by blast
  have K: "?S @ kept (take i ds) (take i rs) = S @ kept (take (Suc i) (d # ds)) (take (Suc i) (r # rs))" for i
    by simp
  have "verdict_ok dst (ix_threshold idx) (S @ kept (take i (d # ds)) (take i (r # rs))) ((d # ds) ! i) ((r # rs) ! i)"
    if "i < length (d # ds)" for i
    using that v I(7) unfolding K t by (cases i) auto
  moreover have "nodes (ix_graph idx') = stored (S @ kept (d # ds) (r # rs))" using I(6) by simp
  moreover have "dedup_all h (d # ds) idx = (idx', map Inr (r # rs))" by (simp add: D I(1))
  ultimately show ?case
    using I(2, 3, 4, 5) c t by (intro exI [of _ idx'] exI [of _ "r # rs"]) (auto simp: dup_count_def)
qed

section \<open>Concurrent calls: the invariant\<close>

definition counted :: "dd_pc \<Rightarrow> bool" where
  "counted p \<longleftrightarrow> (case p of Called _ \<Rightarrow> False | _ \<Rightarrow> True)"

definition flagged :: "dd_pc \<Rightarrow> bool" where
  "flagged p \<longleftrightarrow> (case p of Returned _ r \<Rightarrow> dr_IsDuplicate r | _ \<Rightarrow> False)"

definition inserted :: "dd_pc \<Rightarrow> bool" where
  "inserted p \<longleftrightarrow> (case p of Returned _ r \<Rightarrow> \<not> dr_IsDuplicate r | _ \<Rightarrow> False)"

definition doc_of :: "dd_pc \<Rightarrow> embedded_doc" where
  "doc_of p = (case p of Called d \<Rightarrow> d | Counted d \<Rightarrow> d | Searched d _ \<Rightarrow> d | Returned d _ \<Rightarrow> d)"

text \<open>The keys that a neighbour list, and a result, may name.\<close>

definition dd_inv ::
  "('g \<Rightarrow> string \<Rightarrow> embedding option) \<Rightarrow> 'g embedding_index \<Rightarrow> embedded_doc list \<Rightarrow> 'g dd_state \<Rightarrow> bool" where
  "dd_inv nodes idx0 docs s \<longleftrightarrow>
     (case s of (idx, pcs) \<Rightarrow>
        map doc_of pcs = docs \<and> ix_threshold idx = ix_threshold idx0 \<and>
        im_processed (ix_metrics idx) = im_processed (ix_metrics idx0) + number counted pcs \<and>
        im_duplicates (ix_metrics idx) = im_duplicates (ix_metrics idx0) + number flagged pcs \<and>
        dom (nodes (ix_graph idx)) =
          dom (nodes (ix_graph idx0)) \<union> ed_ID ` doc_of ` {p \<in> set pcs. inserted p} \<and>
        (\<forall>d ns k x. Searched d ns \<in> set pcs \<longrightarrow> (k, x) \<in> set ns \<longrightarrow> k \<in> dom (nodes (ix_graph idx))) \<and>
        (\<forall>d r. Returned d r \<in> set pcs \<longrightarrow> dr_ID r = ed_ID d \<and>
           (dr_IsDuplicate r \<longrightarrow> dr_NearestID r \<in> dom (nodes (ix_graph idx)) \<and>
              f_le (ix_threshold idx) (dr_Similarity r))))"

lemma dd_finish_names:
  assumes "dd_finish h doc ns idx = (idx', r)" and "dr_IsDuplicate r"
  shows "(\<exists>x. (dr_NearestID r, x) \<in> set ns) \<and> f_le (ix_threshold idx) (dr_Similarity r)"
  using assms by (auto simp: dd_finish_def Let_def split: list.splits)

lemma dd_inv_init: "dd_inv nodes idx docs (idx, map Called docs)"
proof -
  have "number counted (map Called docs) = 0" "number flagged (map Called docs) = 0"
    by (simp_all add: number_def filter_map comp_def counted_def flagged_def)
  moreover have "{p \<in> set (map Called docs). inserted p} = {}" by (auto simp: inserted_def)
  ultimately show ?thesis by (auto simp: dd_inv_def doc_of_def comp_def)
qed

lemma dd_inv_parts:
  assumes "dd_inv nodes idx0 docs (idx, pcs)"
  shows "dom (nodes (ix_graph idx)) = dom (nodes (ix_graph idx0)) \<union> ed_ID ` doc_of ` {p \<in> set pcs. inserted p}"
    and "\<And>d ns k x. Searched d ns \<in> set pcs \<Longrightarrow> (k, x) \<in> set ns \<Longrightarrow> k \<in> dom (nodes (ix_graph idx))"
    and "\<And>d r. Returned d r \<in> set pcs \<Longrightarrow> dr_ID r = ed_ID d \<and>
       (dr_IsDuplicate r \<longrightarrow> dr_NearestID r \<in> dom (nodes (ix_graph idx)) \<and> f_le (ix_threshold idx) (dr_Similarity r))"
  using assms unfolding dd_inv_def prod.case by blast+

lemma dd_inv_count:
  assumes inv: "dd_inv nodes idx0 docs (idx, pcs)" and i: "i < length pcs" "pcs ! i = Called doc"
  shows "dd_inv nodes idx0 docs (dd_count idx, pcs[i := Counted doc])" (is "dd_inv _ _ _ (_, pcs[i := ?q])")
proof -
  have mem: "p \<in> set (pcs[i := ?q]) \<Longrightarrow> p = ?q \<or> p \<in> set pcs" for p
    using set_update_subset_insert [of pcs i ?q] by blast
  have "map doc_of (pcs[i := ?q]) = map doc_of pcs"
    using i by (simp add: map_update doc_of_def list_update_same_conv)
  moreover have "number counted (pcs[i := ?q]) = number counted pcs + 1"
    using number_update [OF i(1), of counted ?q] i(2) by (simp add: counted_def)
  moreover have "number flagged (pcs[i := ?q]) = number flagged pcs"
    using number_update [OF i(1), of flagged ?q] i(2) by (simp add: flagged_def)
  moreover have "{p \<in> set (pcs[i := ?q]). inserted p} = {p \<in> set pcs. inserted p}"
    using filter_set_update [OF i(1), of inserted ?q] i(2) by (simp add: inserted_def)
  moreover have "Searched d m \<in> set (pcs[i := ?q]) \<Longrightarrow> (k, x) \<in> set m \<Longrightarrow> k \<in> dom (nodes (ix_graph idx))"
    for d m k x using mem [of "Searched d m"] dd_inv_parts(2) [OF inv] by blast
  moreover have "Returned d v \<in> set (pcs[i := ?q]) \<Longrightarrow> dr_ID v = ed_ID d \<and>
         (dr_IsDuplicate v \<longrightarrow> dr_NearestID v \<in> dom (nodes (ix_graph idx)) \<and> f_le (ix_threshold idx) (dr_Similarity v))"
    for d v using mem [of "Returned d v"] dd_inv_parts(3) [OF inv] by blast
  ultimately show ?thesis using inv unfolding dd_inv_def prod.case dd_count_simps by simp
qed

lemma dd_inv_search:
  assumes ok: "hnsw_ok h nodes dst"
    and inv: "dd_inv nodes idx0 docs (idx, pcs)" and i: "i < length pcs" "pcs ! i = Counted doc"
  shows "dd_inv nodes idx0 docs (idx, pcs[i := Searched doc (dd_search h doc idx)])"
    (is "dd_inv _ _ _ (_, pcs[i := ?q])")
proof -
  have found: "(k, x) \<in> set (dd_search h doc idx) \<Longrightarrow> k \<in> dom (nodes (ix_graph idx))" for k x
    using hnsw_found [OF ok] unfolding dd_search_def by blast
  have mem: "p \<in> set (pcs[i := ?q]) \<Longrightarrow> p = ?q \<or> p \<in> set pcs" for p
    using set_update_subset_insert [of pcs i ?q] by blast
  have "map doc_of (pcs[i := ?q]) = map doc_of pcs"
    using i by (simp add: map_update doc_of_def list_update_same_conv)
  moreover have "number counted (pcs[i := ?q]) = number counted pcs"
    using number_update [OF i(1), of counted ?q] i(2) by (simp add: counted_def)
  moreover have "number flagged (pcs[i := ?q]) = number flagged pcs"
    using number_update [OF i(1), of flagged ?q] i(2) by (simp add: flagged_def)
  moreover have "{p \<in> set (pcs[i := ?q]). inserted p} = {p \<in> set pcs. inserted p}"
    using filter_set_update [OF i(1), of inserted ?q] i(2) by (simp add: inserted_def)
  moreover have "Searched d m \<in> set (pcs[i := ?q]) \<Longrightarrow> (k, x) \<in> set m \<Longrightarrow> k \<in> dom (nodes (ix_graph idx))"
    for d m k x using mem [of "Searched d m"] dd_inv_parts(2) [OF inv] found by blast
  moreover have "Returned d v \<in> set (pcs[i := ?q]) \<Longrightarrow> dr_ID v = ed_ID d \<and>
         (dr_IsDuplicate v \<longrightarrow> dr_NearestID v \<in> dom (nodes (ix_graph idx)) \<and> f_le (ix_threshold idx) (dr_Similarity v))"
    for d v using mem [of "Returned d v"] dd_inv_parts(3) [OF inv] by blast
  ultimately show ?thesis using inv unfolding dd_inv_def prod.case by simp
qed

lemma dd_inv_finish:
  assumes ok: "hnsw_ok h nodes dst"
    and inv: "dd_inv nodes idx0 docs (idx, pcs)" and i: "i < length pcs" "pcs ! i = Searched doc ns"
    and f: "dd_finish h doc ns idx = (idx', r)"
  shows "dd_inv nodes idx0 docs (idx', pcs[i := Returned doc r])" (is "dd_inv _ _ _ (_, pcs[i := ?q])")
proof -
  have docs: "map doc_of (pcs[i := ?q]) = map doc_of pcs"
    using i by (simp add: map_update doc_of_def list_update_same_conv)
  have cnt: "number counted (pcs[i := ?q]) = number counted pcs"
    using number_update [OF i(1), of counted ?q] i(2) by (simp add: counted_def)
  have flg: "number flagged (pcs[i := ?q]) = number flagged pcs + of_bool (dr_IsDuplicate r)"
    using number_update [OF i(1), of flagged ?q] i(2) by (simp add: flagged_def)
  have ins: "{p \<in> set (pcs[i := ?q]). inserted p} =
      {p \<in> set pcs. inserted p} \<union> (if dr_IsDuplicate r then {} else {?q})"
    using filter_set_update [OF i(1), of inserted ?q] i(2) by (simp add: inserted_def)
  have mem: "p \<in> set (pcs[i := ?q]) \<Longrightarrow> p = ?q \<or> p \<in> set pcs" for p
    using set_update_subset_insert [of pcs i ?q] by blast
  have old: "Searched doc ns \<in> set pcs" using i by (metis nth_mem)
  have dom: "dom (nodes (ix_graph idx')) =
      dom (nodes (ix_graph idx)) \<union> (if dr_IsDuplicate r then {} else {ed_ID doc})"
    using dd_finish_counts(5) [OF f] by (auto simp: hnsw_add [OF ok])
  note inv' = dd_inv_parts [OF inv]
  have new: "dr_IsDuplicate r \<longrightarrow>
      dr_NearestID r \<in> dom (nodes (ix_graph idx)) \<and> f_le (ix_threshold idx) (dr_Similarity r)"
    using dd_finish_names [OF f] inv'(2) [OF old] by blast
  have "dom (nodes (ix_graph idx')) =
      dom (nodes (ix_graph idx0)) \<union> ed_ID ` doc_of ` {p \<in> set (pcs[i := ?q]). inserted p}"
    unfolding ins dom inv'(1) by (auto simp: doc_of_def)
  moreover have "Searched d m \<in> set (pcs[i := ?q]) \<Longrightarrow> (k, x) \<in> set m \<Longrightarrow> k \<in> dom (nodes (ix_graph idx'))"
    for d m k x using mem [of "Searched d m"] inv'(2) [of d m k x] unfolding dom by blast
  moreover have "Returned d v \<in> set (pcs[i := ?q]) \<Longrightarrow> dr_ID v = ed_ID d \<and>
         (dr_IsDuplicate v \<longrightarrow> dr_NearestID v \<in> dom (nodes (ix_graph idx')) \<and> f_le (ix_threshold idx') (dr_Similarity v))"
    for d v using mem [of "Returned d v"] inv'(3) [of d v] new dd_finish_counts(4) [OF f]
    unfolding dom dd_finish_counts(1) [OF f] by blast
  ultimately show ?thesis
    using inv docs cnt flg dd_finish_counts(1, 2, 3) [OF f] unfolding dd_inv_def prod.case by simp
qed

lemma dd_reach_inv:
  assumes ok: "hnsw_ok h nodes dst" and "dd_reach h idx docs s"
  shows "dd_inv nodes idx docs s"
  using assms(2)
proof (induction rule: dd_reach.induct)
  case (reach_step s t)
  show ?case
    using reach_step(2)
  proof cases
    case step_count
    with reach_step show ?thesis using dd_inv_count by blast
  next
    case step_search
    with reach_step show ?thesis using dd_inv_search [OF ok] by blast
  next
    case step_finish
    with reach_step show ?thesis using dd_inv_finish [OF ok] by blast
  qed
qed (rule dd_inv_init)

section \<open>Progress of concurrent calls\<close>

definition dd_left :: "dd_pc \<Rightarrow> nat" where
  "dd_left p = (case p of Called _ \<Rightarrow> 3 | Counted _ \<Rightarrow> 2 | Searched _ _ \<Rightarrow> 1 | Returned _ _ \<Rightarrow> 0)"

lemma dd_step_decreases:
  assumes "dd_step h (idx, pcs) (idx', pcs')"
  shows "sum_list (map dd_left pcs') + 1 = sum_list (map dd_left pcs)"
  using assms
proof cases
  case (step_count i doc)
  then show ?thesis using sum_list_update [of i pcs dd_left "Counted doc"] by (simp add: dd_left_def)
next
  case (step_search i doc)
  then show ?thesis
    using sum_list_update [of i pcs dd_left "Searched doc (dd_search h doc idx)"] by (simp add: dd_left_def)
next
  case (step_finish i doc ns res)
  then show ?thesis using sum_list_update [of i pcs dd_left "Returned doc res"] by (simp add: dd_left_def)
qed

lemma dd_step_exists:
  assumes "p \<in> set pcs" and "dd_left p \<noteq> 0"
  shows "\<exists>t. dd_step h (idx, pcs) t"
proof -
  obtain i where i: "i < length pcs" "pcs ! i = p" using assms(1) by (auto simp: in_set_conv_nth)
  show ?thesis
  proof (cases p)
    case (Searched doc ns)
    obtain idx' res where "dd_finish h doc ns idx = (idx', res)" by fastforce
    with i Searched show ?thesis by (blast intro: step_finish)
  next
    case (Returned doc r)
    with assms(2) show ?thesis by (simp add: dd_left_def)
  qed (use i in \<open>blast intro: step_count step_search\<close>)+
qed

section \<open>Properties\<close>

text \<open>
  \<open>NewEmbeddingIndex\<close> refuses every threshold outside \<open>(0, 1]\<close>, infinities included, but
  accepts NaN, since both comparisons with it are false; with a NaN threshold no document is ever a
  duplicate.  An accepted index starts with an empty graph and has reported its threshold once.
\<close>

theorem new_index_thresholds:
  "(case NewEmbeddingIndex h t m of
      Inl e \<Rightarrow> t \<in> {PInf, NInf} \<or> (\<exists>x. t = Fin x \<and> \<not> (0 < x \<and> x \<le> 1))
    | Inr idx \<Rightarrow> (t = NaN \<or> (\<exists>x. t = Fin x \<and> 0 < x \<and> x \<le> 1)) \<and> ix_graph idx = hn_new h \<and>
        ix_threshold idx = t \<and> im_threshold (ix_metrics idx) = im_threshold m @ [t]) \<and>
   \<not> f_le NaN sim"
  by (cases t) (auto simp: NewEmbeddingIndex_def f_le_def f_lt_def split: gofloat.splits)

text \<open>
  C11: with one worker, as the program runs it, a sequence of documents with distinct ids on an
  index built from the documents \<open>S\<close> is deduplicated greedily: every call succeeds, the graph
  ends up holding exactly \<open>S\<close> and the documents not flagged; the verdict on the \<open>i\<close>-th document
  names one indexed before it, with its similarity, and flags it exactly when that similarity
  reaches the threshold; the two counters count the calls and the flagged documents.
\<close>

theorem sequential_dedup:
  assumes "hnsw_ok h nodes dst" and "nodes (ix_graph idx) = stored S" and "distinct (map ed_ID (S @ docs))"
  shows "\<exists>idx' rs. dedup_all h docs idx = (idx', map Inr rs) \<and> length rs = length docs \<and>
    im_processed (ix_metrics idx') = im_processed (ix_metrics idx) + length docs \<and>
    im_duplicates (ix_metrics idx') = im_duplicates (ix_metrics idx) + dup_count rs \<and>
    nodes (ix_graph idx') = stored (S @ kept docs rs) \<and>
    (\<forall>i < length docs. verdict_ok dst (ix_threshold idx) (S @ kept (take i docs) (take i rs)) (docs ! i) (rs ! i))"
  using dedup_all_spec [OF assms] by blast

definition unit_doc :: "string \<Rightarrow> embedded_doc" where
  "unit_doc i = \<lparr>ed_ID = i, ed_Embedding = [Fin 1]\<rparr>"

definition fresh_metrics :: index_metrics where
  "fresh_metrics = \<lparr>im_threshold = [], im_processed = 0, im_duplicates = 0\<rparr>"

definition scan_index :: "(string \<times> embedding) list embedding_index" where
  "scan_index = \<lparr>ix_graph = [], ix_threshold = Fin (4 / 5),
     ix_metrics = fresh_metrics\<lparr>im_threshold := [Fin (4 / 5)]\<rparr>\<rparr>"

lemma scan_index_new: "NewEmbeddingIndex (scan_hnsw d) (Fin (4 / 5)) fresh_metrics = Inr scan_index"
  by (simp add: NewEmbeddingIndex_def scan_index_def scan_hnsw_def fresh_metrics_def f_le_def f_lt_def)

theorem sequential_dedup_witness:
  "\<exists>idx' rs. dedup_all (scan_hnsw equal_dist) [unit_doc ''a'', unit_doc ''b''] scan_index = (idx', map Inr rs) \<and>
     length rs = 2 \<and> map_of (ix_graph idx') = stored (kept [unit_doc ''a'', unit_doc ''b''] rs)"
proof -
  have "map_of (ix_graph scan_index) = stored []" "distinct (map ed_ID ([] @ [unit_doc ''a'', unit_doc ''b'']))"
    by (simp_all add: scan_index_def unit_doc_def)
  from sequential_dedup [OF scan_hnsw_ok this, of equal_dist] obtain idx' rs where
      "dedup_all (scan_hnsw equal_dist) [unit_doc ''a'', unit_doc ''b''] scan_index = (idx', map Inr rs)"
      "length rs = length [unit_doc ''a'', unit_doc ''b'']"
      "map_of (ix_graph idx') = stored ([] @ kept [unit_doc ''a'', unit_doc ''b''] rs)"
    by blast
  then show ?thesis by (intro exI [of _ idx'] exI [of _ rs]) simp
qed

text \<open>
  C12: concurrent calls, in every interleaving of their lock acquisitions: the processed counter is the
  number of calls that passed their first statement, the duplicate counter the number of calls that
  returned a duplicate, the graph holds the keys it started with and those of the calls that
  returned a non-duplicate, and every duplicate names a key of the graph and a similarity over the
  threshold.  The calls finish: as long as one has not returned some step is possible, and every
  step uses up one of the three each call takes.
\<close>

theorem concurrent_calls:
  assumes "hnsw_ok h nodes dst" and "dd_reach h idx docs (idx', pcs)"
  shows "im_processed (ix_metrics idx') = im_processed (ix_metrics idx) + number counted pcs \<and>
    im_duplicates (ix_metrics idx') = im_duplicates (ix_metrics idx) + number flagged pcs \<and>
    dom (nodes (ix_graph idx')) =
      dom (nodes (ix_graph idx)) \<union> ed_ID ` doc_of ` {p \<in> set pcs. inserted p} \<and>
    (\<forall>d r. Returned d r \<in> set pcs \<longrightarrow> dr_ID r = ed_ID d \<and>
       (dr_IsDuplicate r \<longrightarrow> dr_NearestID r \<in> dom (nodes (ix_graph idx')) \<and>
          f_le (ix_threshold idx) (dr_Similarity r))) \<and>
    ((\<exists>p \<in> set pcs. dd_left p \<noteq> 0) \<longrightarrow> (\<exists>t. dd_step h (idx', pcs) t)) \<and>
    (\<forall>idx'' pcs''. dd_step h (idx', pcs) (idx'', pcs'') \<longrightarrow>
       sum_list (map dd_left pcs'') + 1 = sum_list (map dd_left pcs))"
proof (intro conjI)
  have inv: "dd_inv nodes idx docs (idx', pcs)" by (rule dd_reach_inv [OF assms])
  then show "im_processed (ix_metrics idx') = im_processed (ix_metrics idx) + number counted pcs"
    "im_duplicates (ix_metrics idx') = im_duplicates (ix_metrics idx) + number flagged pcs"
    unfolding dd_inv_def by simp_all
  show "dom (nodes (ix_graph idx')) =
      dom (nodes (ix_graph idx)) \<union> ed_ID ` doc_of ` {p \<in> set pcs. inserted p}"
    by (rule dd_inv_parts(1) [OF inv])
  have "ix_threshold idx' = ix_threshold idx" using inv unfolding dd_inv_def by simp
  then show "\<forall>d r. Returned d r \<in> set pcs \<longrightarrow> dr_ID r = ed_ID d \<and>
       (dr_IsDuplicate r \<longrightarrow> dr_NearestID r \<in> dom (nodes (ix_graph idx')) \<and>
          f_le (ix_threshold idx) (dr_Similarity r))"
    using dd_inv_parts(3) [OF inv] by simp
  show "(\<exists>p \<in> set pcs. dd_left p \<noteq> 0) \<longrightarrow> (\<exists>t. dd_step h (idx', pcs) t)"
    using dd_step_exists by blast
  show "\<forall>idx'' pcs''. dd_step h (idx', pcs) (idx'', pcs'') \<longrightarrow>
      sum_list (map dd_left pcs'') + 1 = sum_list (map dd_left pcs)"
    using dd_step_decreases by blast
qed

theorem concurrent_calls_witness:
  "\<exists>idx'. dd_reach (scan_hnsw equal_dist) scan_index [unit_doc ''a''] (idx', [Counted (unit_doc ''a'')]) \<and>
     im_processed (ix_metrics idx') = im_processed (ix_metrics scan_index) + 1"
proof -
  let ?h = "scan_hnsw equal_dist" and ?a = "unit_doc ''a''"
  have "dd_step ?h (scan_index, [Called ?a]) (dd_count scan_index, [Called ?a][0 := Counted ?a])"
    by (rule step_count) simp_all
  then have r: "dd_reach ?h scan_index [?a] (dd_count scan_index, [Counted ?a])"
    using reach_step [OF reach_init [of ?h scan_index "[?a]"]] by simp
  have n: "number counted [Counted ?a] = 1" by (simp add: number_def counted_def)
  from concurrent_calls [OF scan_hnsw_ok r] r show ?thesis unfolding n by blast
qed

text \<open>
  The search and the insertion are two critical sections, not one, so the check does not cover the
  act: two concurrent calls with the same embedding can both search the empty graph before either
  inserts, and then both are indexed and neither is flagged; the same two calls one after the other
  flag the second, as they should.
\<close>

theorem concurrent_duplicates_indexed:
  assumes ok: "hnsw_ok h nodes dst" and new: "NewEmbeddingIndex h t m = Inr idx"
    and ids: "ed_ID d1 \<noteq> ed_ID d2" and same: "ed_Embedding d2 = ed_Embedding d1"
    and similar: "f_le t (similarity_of dst (ed_Embedding d1) (ed_Embedding d1))"
  shows "(\<exists>idx' r1 r2. dd_reach h idx [d1, d2] (idx', [Returned d1 r1, Returned d2 r2]) \<and>
       \<not> dr_IsDuplicate r1 \<and> \<not> dr_IsDuplicate r2 \<and> dom (nodes (ix_graph idx')) = {ed_ID d1, ed_ID d2}) \<and>
    (\<exists>idx' r1 r2. dedup_all h [d1, d2] idx = (idx', map Inr [r1, r2]) \<and>
       \<not> dr_IsDuplicate r1 \<and> dr_IsDuplicate r2 \<and> dom (nodes (ix_graph idx')) = {ed_ID d1})"
proof
  have idx: "ix_graph idx = hn_new h" "ix_threshold idx = t"
    using new by (auto simp: NewEmbeddingIndex_def split: if_splits)
  then have n0: "nodes (ix_graph idx) = stored []" using hnsw_new [OF ok] by simp
  have empty: "dd_search h d (dd_count i) = []" if "ix_graph i = ix_graph idx" for d i
    by (rule hnsw_search_cases [OF ok, of "ix_graph idx" "ed_Embedding d"])
      (simp_all add: dd_search_def that n0)
  let ?c = "dd_count (dd_count idx)"
  obtain i1 r1 where f1: "dd_finish h d1 [] ?c = (i1, r1)" by fastforce
  obtain i2 r2 where f2: "dd_finish h d2 [] i1 = (i2, r2)" by fastforce
  have "dd_reach h idx [d1, d2] (idx, [Called d1, Called d2])"
    using reach_init [of h idx "[d1, d2]"] by simp
  then have "dd_reach h idx [d1, d2] (dd_count idx, [Counted d1, Called d2])"
    by (rule reach_step) (use step_count [of 0 "[Called d1, Called d2]" d1] in simp)
  then have "dd_reach h idx [d1, d2] (?c, [Counted d1, Counted d2])"
    by (rule reach_step) (use step_count [of 1 "[Counted d1, Called d2]" d2] in simp)
  then have "dd_reach h idx [d1, d2] (?c, [Searched d1 [], Counted d2])"
    by (rule reach_step) (use step_search [of 0 "[Counted d1, Counted d2]" d1 h ?c] empty in simp)
  then have "dd_reach h idx [d1, d2] (?c, [Searched d1 [], Searched d2 []])"
    by (rule reach_step) (use step_search [of 1 "[Searched d1 [], Counted d2]" d2 h ?c] empty in simp)
  then have "dd_reach h idx [d1, d2] (i1, [Returned d1 r1, Searched d2 []])"
    by (rule reach_step) (use step_finish [of 0 "[Searched d1 [], Searched d2 []]" d1 "[]" h, OF _ _ f1] in simp)
  then have r: "dd_reach h idx [d1, d2] (i2, [Returned d1 r1, Returned d2 r2])"
    by (rule reach_step) (use step_finish [of 1 "[Returned d1 r1, Searched d2 []]" d2 "[]" h, OF _ _ f2] in simp)
  have "\<not> dr_IsDuplicate r1" "\<not> dr_IsDuplicate r2" using f1 f2 by (auto simp: dd_finish_empty)
  moreover from this have "dom (nodes (ix_graph i2)) = {ed_ID d1, ed_ID d2}"
    using dd_finish_counts(5) [OF f1] dd_finish_counts(5) [OF f2] n0 by (auto simp: hnsw_add [OF ok])
  ultimately show "\<exists>idx' r1 r2. dd_reach h idx [d1, d2] (idx', [Returned d1 r1, Returned d2 r2]) \<and>
       \<not> dr_IsDuplicate r1 \<and> \<not> dr_IsDuplicate r2 \<and> dom (nodes (ix_graph idx')) = {ed_ID d1, ed_ID d2}"
    using r by blast
  obtain i' rs where s: "dedup_all h [d1, d2] idx = (i', map Inr rs)" "length rs = 2"
      "nodes (ix_graph i') = stored (kept [d1, d2] rs)"
      "\<And>i. i < 2 \<Longrightarrow> verdict_ok dst t (kept (take i [d1, d2]) (take i rs)) ([d1, d2] ! i) (rs ! i)"
    using dedup_all_spec [OF ok n0, of "[d1, d2]"] ids idx(2) by (auto simp: numeral_2_eq_2)
  obtain a b where rs: "rs = [a, b]" using s(2) by (auto simp: numeral_2_eq_2 length_Suc_conv)
  have a: "\<not> dr_IsDuplicate a" using s(4) [of 0] by (simp add: rs verdict_ok_def)
  moreover have "dr_IsDuplicate b"
    using s(4) [of 1] a similar by (simp add: rs verdict_ok_def same)
  moreover have "dom (nodes (ix_graph i')) = {ed_ID d1}"
    using s(3) calculation by (simp add: rs stored_def)
  ultimately show "\<exists>idx' r1 r2. dedup_all h [d1, d2] idx = (idx', map Inr [r1, r2]) \<and>
       \<not> dr_IsDuplicate r1 \<and> dr_IsDuplicate r2 \<and> dom (nodes (ix_graph idx')) = {ed_ID d1}"
    using s(1) rs by blast
qed

lemma unit_similar: "f_le (Fin (4 / 5)) (similarity_of equal_dist [Fin 1] [Fin 1])"
  using rnd32_int [of 1] by (simp add: similarity_of_def equal_dist_def f_sub_def f_neg_def f_add_def f_le_def)

theorem concurrent_duplicates_indexed_witness:
  "\<exists>idx' r1 r2. dd_reach (scan_hnsw equal_dist) scan_index [unit_doc ''a'', unit_doc ''b'']
       (idx', [Returned (unit_doc ''a'') r1, Returned (unit_doc ''b'') r2]) \<and>
     \<not> dr_IsDuplicate r1 \<and> \<not> dr_IsDuplicate r2 \<and> dom (map_of (ix_graph idx')) = {''a'', ''b''}"
proof -
  have s: "f_le (Fin (4 / 5)) (similarity_of equal_dist (ed_Embedding (unit_doc ''a'')) (ed_Embedding (unit_doc ''a'')))"
    using unit_similar by (simp add: unit_doc_def)
  have "ed_ID (unit_doc ''a'') \<noteq> ed_ID (unit_doc ''b'')"
      "ed_Embedding (unit_doc ''b'') = ed_Embedding (unit_doc ''a'')" by (simp_all add: unit_doc_def)
  from concurrent_duplicates_indexed [OF scan_hnsw_ok scan_index_new this s, THEN conjunct1]
  have "\<exists>idx' r1 r2. dd_reach (scan_hnsw equal_dist) scan_index [unit_doc ''a'', unit_doc ''b'']
       (idx', [Returned (unit_doc ''a'') r1, Returned (unit_doc ''b'') r2]) \<and>
     \<not> dr_IsDuplicate r1 \<and> \<not> dr_IsDuplicate r2 \<and>
     dom (map_of (ix_graph idx')) = {ed_ID (unit_doc ''a''), ed_ID (unit_doc ''b'')}" .
  then show ?thesis by (simp only: unit_doc_def embedded_doc.simps)
qed

text \<open>
  What becomes of documents without tokens.  Their embedding is a vector of NaNs; if, as for any
  distance computed with IEEE arithmetic, the distance to a vector with a NaN in it is NaN, such a
  document is never a duplicate, whatever is indexed and whatever the threshold: every empty document
  is added to the graph, even after an identical one.
\<close>

theorem empty_documents_never_duplicates:
  assumes ok: "hnsw_ok h nodes dst" and nan: "\<And>w v. NaN \<in> set v \<Longrightarrow> dst w v = NaN"
    and n: "0 < n" "n < 2 ^ 63"
    and emb: "Embed (NewEmbedder n) \<lparr>td_ID = i, td_Tokens = []\<rparr> = Some (Inr ed)"
  shows "\<exists>idx' r. DedupAndIndex h ed idx = (idx', Inr r) \<and> \<not> dr_IsDuplicate r \<and>
    nodes (ix_graph idx') = (nodes (ix_graph idx))(i \<mapsto> replicate (nat n) NaN)"
proof -
  have "normalize (int_vec (nat n) (bucket_sum n [])) = replicate (nat n) NaN"
    by (rule normalize_zero) (simp add: bucket_sum_def)
  then have ed: "ed_ID ed = i" "ed_Embedding ed = replicate (nat n) NaN"
    using emb Embed_sums [OF n, of "\<lparr>td_ID = i, td_Tokens = []\<rparr>"] by auto
  let ?ns = "hn_search h (ix_graph idx) (ed_Embedding ed) 1"
  obtain idx' r where f: "dd_finish h ed ?ns (dd_count idx) = (idx', r)" by fastforce
  have "\<not> dr_IsDuplicate r"
  proof (rule hnsw_search_cases [OF ok, of "ix_graph idx" "ed_Embedding ed"])
    assume "?ns = []"
    then show ?thesis using f by (auto simp: dd_finish_empty)
  next
    fix k w assume s: "?ns = [(k, dst w (ed_Embedding ed))]"
    have "dst w (ed_Embedding ed) = NaN" using nan n by (simp add: ed)
    then have "similarity_of dst w (ed_Embedding ed) = NaN"
      by (simp add: similarity_of_def f_sub_def f_neg_def f_add_def)
    then have "\<not> f_le (ix_threshold (dd_count idx)) (similarity_of dst w (ed_Embedding ed))"
      by (simp add: f_le_def split: gofloat.splits)
    then show ?thesis using f unfolding s dd_finish_found by auto
  qed
  moreover have "DedupAndIndex h ed idx = (idx', Inr r)"
    unfolding DedupAndIndex_def dd_search_def Let_def dd_count_simps f by simp
  ultimately show ?thesis using dd_finish_counts(5) [OF f] by (auto simp: hnsw_add [OF ok] ed)
qed

theorem empty_documents_never_duplicates_witness:
  "\<exists>ed idx' r. Embed (NewEmbedder 2) \<lparr>td_ID = ''e'', td_Tokens = []\<rparr> = Some (Inr ed) \<and>
     DedupAndIndex (scan_hnsw equal_dist) ed (scan_index\<lparr>ix_graph := [(''d'', [NaN, NaN])]\<rparr>) = (idx', Inr r) \<and>
     \<not> dr_IsDuplicate r"
proof -
  obtain ed where ed: "Embed (NewEmbedder 2) \<lparr>td_ID = ''e'', td_Tokens = []\<rparr> = Some (Inr ed)"
    by (simp add: Embed_def NewEmbedder_def)
  have nan: "\<And>w v. NaN \<in> set v \<Longrightarrow> equal_dist w v = NaN" by (simp add: equal_dist_def)
  have n: "(0 :: int) < 2" "(2 :: int) < 2 ^ 63" by simp_all
  from empty_documents_never_duplicates
      [where idx = "scan_index\<lparr>ix_graph := [(''d'', [NaN, NaN])]\<rparr>", where dst = equal_dist,
        OF scan_hnsw_ok nan n ed]
  obtain idx' r where "DedupAndIndex (scan_hnsw equal_dist) ed (scan_index\<lparr>ix_graph := [(''d'', [NaN, NaN])]\<rparr>) = (idx', Inr r)"
      "\<not> dr_IsDuplicate r" by blast
  with ed show ?thesis by blast
qed

end
