(* ===== verification/Doc_Stage.thy ===== *)
theory Doc_Stage
  imports Go_Chan
begin

text \<open>
  \<open>doc-pipeline/internal/pipeline/stage.go\<close>: a stage is a pool of worker goroutines between two
  channels.  Each worker is a program counter; a step is one channel operation, one metrics call or
  one call of the stage function, in any interleaving.  The stage function may keep a state of its
  own (the index does): it is a function of the input and that state.  The producer, the consumer and
  the cancellation of the context are steps of the environment.  The lists of items fed, taken, called,
  delivered and dropped are history variables that the code does not have.
\<close>

section \<open>Stages\<close>

record ('i, 'o, 'w) stage =
  sg_Name :: string
  sg_Workers :: int
  sg_BufferSize :: int
  sg_in :: "'i chan"
  sg_fn :: "'i \<Rightarrow> 'w \<Rightarrow> (string + 'o) \<times> 'w"

definition DefaultStageBufferSize :: int where
  "DefaultStageBufferSize = 100"

definition NewStage ::
  "string \<Rightarrow> int \<Rightarrow> int \<Rightarrow> 'i chan \<Rightarrow> ('i \<Rightarrow> 'w \<Rightarrow> (string + 'o) \<times> 'w) \<Rightarrow> ('i, 'o, 'w) stage" where
  "NewStage name workers bufferSize input fn =
     (let workers = (if workers \<le> 0 then 1 else workers);
          bufferSize = (if bufferSize \<le> 0 then DefaultStageBufferSize else bufferSize)
      in \<lparr>sg_Name = name, sg_Workers = workers, sg_BufferSize = bufferSize, sg_in = input, sg_fn = fn\<rparr>)"

datatype ('i, 'o) worker = Selecting | Received_Item 'i | Calling 'i | Emitting 'o | Exited

record ('i, 'o, 'w) stage_state =
  ss_in :: "'i chan"
  ss_out :: "'o chan"
  ss_workers :: "('i, 'o) worker list"
  ss_wg :: nat
  ss_cancelled :: bool
  ss_world :: 'w
  ss_processed :: nat
  ss_errors :: nat
  ss_latencies :: nat
  ss_fed :: "'i list"
  ss_taken :: "'i list"
  ss_calls :: "('i \<times> (string + 'o)) list"
  ss_got :: "'o list"
  ss_dropped :: "'o list"

text \<open>\<open>Run\<close> panics for a negative buffer size or worker count.\<close>

definition stage_start :: "('i, 'o, 'w) stage \<Rightarrow> 'w \<Rightarrow> ('i, 'o, 'w) stage_state option" where
  "stage_start sg w =
     (if sg_BufferSize sg < 0 \<or> sg_Workers sg < 0 then None
      else Some \<lparr>ss_in = sg_in sg, ss_out = make_chan (nat (sg_BufferSize sg)),
                 ss_workers = replicate (nat (sg_Workers sg)) Selecting, ss_wg = nat (sg_Workers sg),
                 ss_cancelled = False, ss_world = w, ss_processed = 0, ss_errors = 0, ss_latencies = 0,
                 ss_fed = ch_buf (sg_in sg), ss_taken = [], ss_calls = [], ss_got = [], ss_dropped = []\<rparr>)"

abbreviation set_worker ::
  "nat \<Rightarrow> ('i, 'o) worker \<Rightarrow> ('i, 'o, 'w) stage_state \<Rightarrow> ('i, 'o, 'w) stage_state" where
  "set_worker i p s \<equiv> s\<lparr>ss_workers := (ss_workers s)[i := p]\<rparr>"

definition at_worker :: "('i, 'o, 'w) stage_state \<Rightarrow> nat \<Rightarrow> ('i, 'o) worker \<Rightarrow> bool" where
  "at_worker s i p \<longleftrightarrow> i < length (ss_workers s) \<and> ss_workers s ! i = p"

text \<open>The steps of the pool: the workers and the goroutine that closes the output.\<close>

inductive pool_step :: "('i, 'o, 'w) stage \<Rightarrow> ('i, 'o, 'w) stage_state \<Rightarrow> ('i, 'o, 'w) stage_state \<Rightarrow> bool"
  for sg where
  w_cancelled: "at_worker s i Selecting \<Longrightarrow> ss_cancelled s \<Longrightarrow>
    pool_step sg s (set_worker i Exited (s\<lparr>ss_wg := ss_wg s - 1\<rparr>))"
| w_closed: "at_worker s i Selecting \<Longrightarrow> chan_recv (ss_in s) = Recv_Closed \<Longrightarrow>
    pool_step sg s (set_worker i Exited (s\<lparr>ss_wg := ss_wg s - 1\<rparr>))"
| w_receive: "at_worker s i Selecting \<Longrightarrow> chan_recv (ss_in s) = Received x in' \<Longrightarrow>
    pool_step sg s (set_worker i (Received_Item x) (s\<lparr>ss_in := in', ss_taken := ss_taken s @ [x]\<rparr>))"
| w_count: "at_worker s i (Received_Item x) \<Longrightarrow>
    pool_step sg s (set_worker i (Calling x) (s\<lparr>ss_processed := ss_processed s + 1\<rparr>))"
| w_error: "at_worker s i (Calling x) \<Longrightarrow> sg_fn sg x (ss_world s) = (Inl e, w') \<Longrightarrow>
    pool_step sg s (set_worker i Selecting
      (s\<lparr>ss_world := w', ss_errors := ss_errors s + 1, ss_calls := ss_calls s @ [(x, Inl e)]\<rparr>))"
| w_success: "at_worker s i (Calling x) \<Longrightarrow> sg_fn sg x (ss_world s) = (Inr y, w') \<Longrightarrow>
    pool_step sg s (set_worker i (Emitting y)
      (s\<lparr>ss_world := w', ss_latencies := ss_latencies s + 1, ss_calls := ss_calls s @ [(x, Inr y)]\<rparr>))"
| w_emit: "at_worker s i (Emitting y) \<Longrightarrow> chan_send y (ss_out s) = Sent out' \<Longrightarrow>
    pool_step sg s (set_worker i Selecting (s\<lparr>ss_out := out'\<rparr>))"
| w_abandon: "at_worker s i (Emitting y) \<Longrightarrow> ss_cancelled s \<Longrightarrow>
    pool_step sg s (set_worker i Exited (s\<lparr>ss_wg := ss_wg s - 1, ss_dropped := ss_dropped s @ [y]\<rparr>))"
| w_close: "ss_wg s = 0 \<Longrightarrow> chan_close (ss_out s) = Some out' \<Longrightarrow> pool_step sg s (s\<lparr>ss_out := out'\<rparr>)"

inductive env_step :: "('i, 'o, 'w) stage_state \<Rightarrow> ('i, 'o, 'w) stage_state \<Rightarrow> bool" where
  e_feed: "chan_send x (ss_in s) = Sent in' \<Longrightarrow> env_step s (s\<lparr>ss_in := in', ss_fed := ss_fed s @ [x]\<rparr>)"
| e_close: "chan_close (ss_in s) = Some in' \<Longrightarrow> env_step s (s\<lparr>ss_in := in'\<rparr>)"
| e_cancel: "env_step s (s\<lparr>ss_cancelled := True\<rparr>)"
| e_consume: "chan_recv (ss_out s) = Received y out' \<Longrightarrow>
    env_step s (s\<lparr>ss_out := out', ss_got := ss_got s @ [y]\<rparr>)"

inductive stage_reach :: "('i, 'o, 'w) stage \<Rightarrow> 'w \<Rightarrow> ('i, 'o, 'w) stage_state \<Rightarrow> bool" for sg w where
  sr_start: "stage_start sg w = Some s \<Longrightarrow> stage_reach sg w s"
| sr_pool: "stage_reach sg w s \<Longrightarrow> pool_step sg s t \<Longrightarrow> stage_reach sg w t"
| sr_env: "stage_reach sg w s \<Longrightarrow> env_step s t \<Longrightarrow> stage_reach sg w t"

inductive_cases pool_stepE: "pool_step sg s t"
inductive_cases env_stepE: "env_step s t"

section \<open>Contributions of a worker\<close>

fun alive :: "('i, 'o) worker \<Rightarrow> nat" where
  "alive Exited = 0"
| "alive _ = 1"

fun held_in :: "('i, 'o) worker \<Rightarrow> 'i multiset" where
  "held_in (Received_Item x) = {#x#}"
| "held_in (Calling x) = {#x#}"
| "held_in _ = {#}"

fun held_out :: "('i, 'o) worker \<Rightarrow> 'o multiset" where
  "held_out (Emitting y) = {#y#}"
| "held_out _ = {#}"

fun counting :: "('i, 'o) worker \<Rightarrow> nat" where
  "counting (Calling _) = 1"
| "counting _ = 0"

definition total :: "(('i, 'o) worker \<Rightarrow> 'm :: comm_monoid_add) \<Rightarrow> ('i, 'o, 'w) stage_state \<Rightarrow> 'm" where
  "total f s = sum_list (map f (ss_workers s))"

text \<open>The results of the calls made so far, and the state they leave.\<close>

fun run_calls :: "('i \<Rightarrow> 'w \<Rightarrow> (string + 'o) \<times> 'w) \<Rightarrow> 'w \<Rightarrow> 'i list \<Rightarrow> 'w \<times> ('i \<times> (string + 'o)) list" where
  "run_calls fn w [] = (w, [])"
| "run_calls fn w (x # xs) =
     (let (r, w') = fn x w; (w'', rs) = run_calls fn w' xs in (w'', (x, r) # rs))"

definition successes :: "('i \<times> (string + 'o)) list \<Rightarrow> 'o list" where
  "successes cs = List.map_filter (\<lambda>(x, r). case r of Inr y \<Rightarrow> Some y | Inl _ \<Rightarrow> None) cs"

definition failures :: "('i \<times> (string + 'o)) list \<Rightarrow> nat" where
  "failures cs = length (filter (\<lambda>(x, r). case r of Inl _ \<Rightarrow> True | Inr _ \<Rightarrow> False) cs)"

lemma run_calls_snoc:
  "run_calls fn w (xs @ [x]) =
     (let (w', rs) = run_calls fn w xs; (r, w'') = fn x w' in (w'', rs @ [(x, r)]))"
  by (induction xs arbitrary: w) (auto simp: Let_def split: prod.splits)

lemma successes_simps [simp]:
  "successes [] = []" "successes (cs @ [(x, Inr y)]) = successes cs @ [y]"
  "successes (cs @ [(x, Inl e)]) = successes cs"
  by (simp_all add: successes_def List.map_filter_def)

lemma failures_simps [simp]:
  "failures [] = 0" "failures (cs @ [(x, Inr y)]) = failures cs" "failures (cs @ [(x, Inl e)]) = failures cs + 1"
  by (simp_all add: failures_def)

lemma calls_length: "length cs = length (successes cs) + failures cs"
  by (induction cs) (auto simp: successes_def failures_def List.map_filter_def split: sum.splits)

lemma total_update:
  assumes "at_worker s i p"
  shows "total f s + f q = sum_list (map f ((ss_workers s)[i := q])) + f p"
  using sum_list_update [of i "ss_workers s" f q] assms by (simp add: total_def at_worker_def)

section \<open>The invariant\<close>

definition stage_inv :: "('i, 'o, 'w) stage \<Rightarrow> 'w \<Rightarrow> ('i, 'o, 'w) stage_state \<Rightarrow> bool" where
  "stage_inv sg w s \<longleftrightarrow>
     length (ss_workers s) = nat (sg_Workers sg) \<and> ss_wg s = total alive s \<and>
     mset (ss_taken s) = total held_in s + mset (map fst (ss_calls s)) \<and>
     mset (successes (ss_calls s)) =
       mset (ss_got s) + mset (ch_buf (ss_out s)) + total held_out s + mset (ss_dropped s) \<and>
     ss_fed s = ss_taken s @ ch_buf (ss_in s) \<and>
     ss_processed s = length (ss_calls s) + total counting s \<and>
     ss_errors s = failures (ss_calls s) \<and> ss_latencies s = length (successes (ss_calls s)) \<and>
     run_calls (sg_fn sg) w (map fst (ss_calls s)) = (ss_world s, ss_calls s) \<and>
     ch_cap (ss_out s) = nat (sg_BufferSize sg) \<and> chan_ok (ss_out s) \<and>
     (ch_closed (ss_out s) \<longrightarrow> ss_wg s = 0) \<and>
     (\<not> ss_cancelled s \<longrightarrow> ss_dropped s = [] \<and>
        (Exited \<in> set (ss_workers s) \<longrightarrow> ch_closed (ss_in s) \<and> ch_buf (ss_in s) = []))"

lemma sum_list_zero: "sum_list (replicate n (0 :: 'm :: comm_monoid_add)) = 0"
  by (induction n) simp_all

lemma stage_inv_start: "stage_start sg w = Some s \<Longrightarrow> stage_inv sg w s"
  by (auto simp: stage_start_def stage_inv_def total_def sum_list_zero sum_list_replicate
      make_chan_def chan_ok_def split: if_splits)

lemma env_inv:
  assumes "stage_inv sg w s" and "env_step s t"
  shows "stage_inv sg w t"
  using assms(2)
proof cases
  case (e_feed x in')
  with assms(1) show ?thesis by (auto simp: stage_inv_def total_def chan_iffs)
next
  case (e_close in')
  with assms(1) show ?thesis by (auto simp: stage_inv_def total_def chan_iffs)
next
  case e_cancel
  with assms(1) show ?thesis by (auto simp: stage_inv_def total_def)
next
  case (e_consume y out')
  with assms(1) show ?thesis by (auto simp: stage_inv_def total_def chan_iffs chan_ok_def)
qed

lemma alive_pos: "at_worker s i p \<Longrightarrow> p \<noteq> Exited \<Longrightarrow> 0 < total alive s"
proof -
  assume "at_worker s i p" and "p \<noteq> Exited"
  then have "total alive s + 0 = sum_list (map alive ((ss_workers s)[i := Exited])) + alive p" "alive p = 1"
    using total_update [of s i p alive Exited] by (simp, cases p) simp_all
  then show ?thesis by simp
qed

lemma set_worker_Exited:
  "Exited \<in> set (ws[i := q]) \<Longrightarrow> q \<noteq> Exited \<Longrightarrow> Exited \<in> set ws"
  using set_update_subset_insert [of ws i q] by auto

lemma pool_inv:
  assumes inv: "stage_inv sg w s" and "pool_step sg s t"
  shows "stage_inv sg w t"
  using assms(2)
proof cases
  case (w_cancelled i)
  note u = total_update [OF w_cancelled(2), of _ Exited]
  show ?thesis
    using inv w_cancelled u [of alive] u [of held_in] u [of held_out] u [of counting]
    by (auto simp: stage_inv_def total_def)
next
  case (w_closed i)
  note u = total_update [OF w_closed(2), of _ Exited]
  show ?thesis
    using inv w_closed u [of alive] u [of held_in] u [of held_out] u [of counting]
    by (auto simp: stage_inv_def total_def chan_iffs)
next
  case (w_receive i x in')
  note u = total_update [OF w_receive(2), of _ "Received_Item x"]
  show ?thesis
    using inv w_receive u [of alive] u [of held_in] u [of held_out] u [of counting]
      set_worker_Exited [of "ss_workers s" i "Received_Item x"]
    by (auto simp: stage_inv_def total_def chan_iffs)
next
  case (w_count i x)
  note u = total_update [OF w_count(2), of _ "Calling x"]
  show ?thesis
    using inv w_count u [of alive] u [of held_in] u [of held_out] u [of counting]
      set_worker_Exited [of "ss_workers s" i "Calling x"]
    by (auto simp: stage_inv_def total_def)
next
  case (w_error i x e w')
  note u = total_update [OF w_error(2), of _ Selecting]
  show ?thesis
    using inv w_error u [of alive] u [of held_in] u [of held_out] u [of counting]
      set_worker_Exited [of "ss_workers s" i Selecting]
    by (auto simp: stage_inv_def total_def run_calls_snoc)
next
  case (w_success i x y w')
  note u = total_update [OF w_success(2), of _ "Emitting y"]
  show ?thesis
    using inv w_success u [of alive] u [of held_in] u [of held_out] u [of counting]
      set_worker_Exited [of "ss_workers s" i "Emitting y"]
    by (auto simp: stage_inv_def total_def run_calls_snoc)
next
  case (w_emit i y out')
  note u = total_update [OF w_emit(2), of _ Selecting]
  show ?thesis
    using inv w_emit u [of alive] u [of held_in] u [of held_out] u [of counting]
      set_worker_Exited [of "ss_workers s" i Selecting]
    by (auto simp: stage_inv_def total_def chan_iffs chan_ok_def)
next
  case (w_abandon i y)
  note u = total_update [OF w_abandon(2), of _ Exited]
  show ?thesis
    using inv w_abandon u [of alive] u [of held_in] u [of held_out] u [of counting]
    by (auto simp: stage_inv_def total_def)
next
  case (w_close out')
  with inv show ?thesis by (auto simp: stage_inv_def total_def chan_iffs chan_ok_def)
qed

lemma stage_reach_inv: "stage_reach sg w s \<Longrightarrow> stage_inv sg w s"
  by (induction rule: stage_reach.induct) (auto intro: stage_inv_start pool_inv env_inv)

section \<open>Order with a single worker\<close>

fun holding_in :: "('i, 'o) worker \<Rightarrow> 'i list" where
  "holding_in (Received_Item x) = [x]"
| "holding_in (Calling x) = [x]"
| "holding_in _ = []"

fun holding_out :: "('i, 'o) worker \<Rightarrow> 'o list" where
  "holding_out (Emitting y) = [y]"
| "holding_out _ = []"

definition order_inv :: "('i, 'o, 'w) stage_state \<Rightarrow> bool" where
  "order_inv s \<longleftrightarrow>
     (\<exists>p. ss_workers s = [p] \<and> ss_taken s = map fst (ss_calls s) @ holding_in p \<and>
        successes (ss_calls s) = ss_got s @ ch_buf (ss_out s) @ holding_out p @ ss_dropped s \<and>
        (p \<noteq> Exited \<longrightarrow> ss_dropped s = []))"

lemma order_inv_start: "stage_start sg w = Some s \<Longrightarrow> sg_Workers sg = 1 \<Longrightarrow> order_inv s"
  by (auto simp: stage_start_def order_inv_def make_chan_def split: if_splits)

lemma order_inv_env: "env_step s t \<Longrightarrow> order_inv s \<Longrightarrow> order_inv t"
  by (induction rule: env_step.induct) (auto simp: order_inv_def chan_iffs)

lemma order_inv_pool: "pool_step sg s t \<Longrightarrow> order_inv s \<Longrightarrow> order_inv t"
  by (induction rule: pool_step.induct) (auto simp: order_inv_def at_worker_def chan_iffs)

lemma stage_reach_order: "stage_reach sg w s \<Longrightarrow> sg_Workers sg = 1 \<Longrightarrow> order_inv s"
  by (induction rule: stage_reach.induct) (auto intro: order_inv_start order_inv_env order_inv_pool)

section \<open>Progress\<close>

fun rank :: "('i, 'o) worker \<Rightarrow> nat" where
  "rank Selecting = 1"
| "rank (Received_Item _) = 5"
| "rank (Calling _) = 4"
| "rank (Emitting _) = 3"
| "rank Exited = 0"

definition pool_work :: "('i, 'o, 'w) stage_state \<Rightarrow> nat" where
  "pool_work s = 5 * length (ch_buf (ss_in s)) + total rank s + (if ch_closed (ss_out s) then 0 else 1)"

lemma pool_step_work: "pool_step sg s t \<Longrightarrow> pool_work t < pool_work s"
proof (induction rule: pool_step.induct)
  case (w_cancelled s i)
  then show ?case using total_update [OF w_cancelled(1), of rank Exited] by (simp add: pool_work_def total_def)
next
  case (w_closed s i)
  then show ?case using total_update [OF w_closed(1), of rank Exited] by (simp add: pool_work_def total_def)
next
  case (w_receive s i x in')
  then show ?case
    using total_update [OF w_receive(1), of rank "Received_Item x"] by (auto simp: pool_work_def total_def chan_iffs)
next
  case (w_count s i x)
  then show ?case using total_update [OF w_count(1), of rank "Calling x"] by (simp add: pool_work_def total_def)
next
  case (w_error s i x e w')
  then show ?case using total_update [OF w_error(1), of rank Selecting] by (simp add: pool_work_def total_def)
next
  case (w_success s i x y w')
  then show ?case using total_update [OF w_success(1), of rank "Emitting y"] by (simp add: pool_work_def total_def)
next
  case (w_emit s i y out')
  then show ?case
    using total_update [OF w_emit(1), of rank Selecting] by (auto simp: pool_work_def total_def chan_iffs)
next
  case (w_abandon s i y)
  then show ?case using total_update [OF w_abandon(1), of rank Exited] by (simp add: pool_work_def total_def)
next
  case (w_close s out')
  then show ?case by (auto simp: pool_work_def total_def chan_iffs)
qed

interpretation pool: measured "pool_step sg" pool_work for sg
  by unfold_locales (rule pool_step_work)

definition finished :: "('i, 'o, 'w) stage_state \<Rightarrow> bool" where
  "finished s \<longleftrightarrow> set (ss_workers s) \<subseteq> {Exited} \<and> ch_closed (ss_out s)"

lemma total_alive_zero: "total alive s = 0 \<longleftrightarrow> set (ss_workers s) \<subseteq> {Exited}"
proof -
  have "alive p = 0 \<longleftrightarrow> p = Exited" for p :: "('a, 'b) worker" by (cases p) simp_all
  then show ?thesis by (auto simp: total_def)
qed

lemma blocked_worker:
  assumes "at_worker s i p" and "\<nexists>t. pool_step sg s t" and "\<not> ch_closed (ss_out s)"
  shows "p = Exited \<or> (\<not> ss_cancelled s \<and>
    (p = Selecting \<and> chan_recv (ss_in s) = Recv_Blocks \<or>
     (\<exists>y. p = Emitting y \<and> chan_send y (ss_out s) = Send_Blocks)))"
proof (cases p)
  case Selecting
  then have "\<not> ss_cancelled s" using assms(1, 2) w_cancelled [of s i sg] by auto
  moreover have "chan_recv (ss_in s) = Recv_Blocks"
  proof (cases "chan_recv (ss_in s)")
    case (Received x in')
    have "pool_step sg s (set_worker i (Received_Item x) (s\<lparr>ss_in := in', ss_taken := ss_taken s @ [x]\<rparr>))"
      by (rule w_receive) (use assms(1) Selecting Received in simp_all)
    with assms(2) show ?thesis by blast
  next
    case Recv_Closed
    have "pool_step sg s (set_worker i Exited (s\<lparr>ss_wg := ss_wg s - 1\<rparr>))"
      by (rule w_closed) (use assms(1) Selecting Recv_Closed in simp_all)
    with assms(2) show ?thesis by blast
  qed
  ultimately show ?thesis using Selecting by blast
next
  case (Received_Item x)
  then show ?thesis using assms(1, 2) w_count [of s i x sg] by simp
next
  case (Calling x)
  obtain r w' where r: "sg_fn sg x (ss_world s) = (r, w')" by fastforce
  show ?thesis
  proof (cases r)
    case (Inl e)
    then show ?thesis using assms(1, 2) Calling r w_error [of s i x sg e w'] by simp
  next
    case (Inr y)
    then show ?thesis using assms(1, 2) Calling r w_success [of s i x sg y w'] by simp
  qed
next
  case (Emitting y)
  then have "\<not> ss_cancelled s" using assms(1, 2) w_abandon [of s i y sg] by auto
  moreover have "chan_send y (ss_out s) = Send_Blocks"
  proof (cases "chan_send y (ss_out s)")
    case (Sent out')
    then show ?thesis using assms(1, 2) Emitting w_emit [of s i y out' sg] by simp
  next
    case Send_Panics
    then show ?thesis using assms(3) by (simp add: chan_send_def split: if_splits)
  qed
  ultimately show ?thesis using Emitting by blast
qed simp

lemma stuck_cases:
  assumes "stage_reach sg w s" and "\<nexists>t. pool_step sg s t"
  shows "finished s \<or> (\<not> ss_cancelled s \<and> (chan_recv (ss_in s) = Recv_Blocks \<or>
    length (ch_buf (ss_out s)) = ch_cap (ss_out s)))"
proof (cases "set (ss_workers s) \<subseteq> {Exited}")
  case True
  then have "ss_wg s = 0" using stage_reach_inv [OF assms(1)] total_alive_zero [of s] by (simp add: stage_inv_def)
  then have "ch_closed (ss_out s)" using assms(2) w_close [of s _ sg] by (fastforce simp: chan_iffs)
  with True show ?thesis by (simp add: finished_def)
next
  case False
  then obtain p where "p \<in> set (ss_workers s)" and ne: "p \<noteq> Exited" by blast
  then obtain i where "i < length (ss_workers s)" "ss_workers s ! i = p" by (auto simp: in_set_conv_nth)
  with ne have p: "at_worker s i p" "p \<noteq> Exited" by (simp_all add: at_worker_def)
  have inv: "stage_inv sg w s" by (rule stage_reach_inv [OF assms(1)])
  then have "0 < ss_wg s" using alive_pos [OF p] by (simp add: stage_inv_def)
  then have open_out: "\<not> ch_closed (ss_out s)" using inv by (auto simp: stage_inv_def)
  have "length (ch_buf (ss_out s)) \<le> ch_cap (ss_out s)" using inv by (simp add: stage_inv_def chan_ok_def)
  then show ?thesis
    using blocked_worker [OF p(1) assms(2) open_out] p(2) open_out
    by (auto simp: chan_send_def split: if_splits)
qed

section \<open>Runs of a prefix\<close>

lemma run_calls_append:
  "run_calls fn w (xs @ ys) =
     (let (w', cs) = run_calls fn w xs; (w'', ds) = run_calls fn w' ys in (w'', cs @ ds))"
  by (induction xs arbitrary: w) (auto simp: Let_def split: prod.splits)

lemma successes_append: "successes (cs @ ds) = successes cs @ successes ds"
  by (simp add: successes_def List.map_filter_def)

lemma successes_prefix:
  assumes "run_calls fn w xs = (w', cs)"
  shows "\<exists>zs. successes (snd (run_calls fn w (xs @ ys))) = successes cs @ zs"
  using assms by (auto simp: run_calls_append successes_append Let_def split: prod.splits)

lemma NewStage_simps [simp]:
  "sg_Workers (NewStage name workers bufferSize input fn) = (if workers \<le> 0 then 1 else workers)"
  "sg_BufferSize (NewStage name workers bufferSize input fn) = (if bufferSize \<le> 0 then 100 else bufferSize)"
  "sg_fn (NewStage name workers bufferSize input fn) = fn"
  "sg_in (NewStage name workers bufferSize input fn) = input"
  by (simp_all add: NewStage_def DefaultStageBufferSize_def)

lemma NewStage_starts:
  "\<exists>s. stage_start (NewStage name workers bufferSize input fn) w = Some s"
  by (simp add: stage_start_def)

lemma drained_stage:
  assumes "stage_reach sg w s" and "0 < sg_Workers sg" and "\<not> ss_cancelled s"
    and "chan_recv (ss_out s) = Recv_Closed"
  shows "chan_recv (ss_in s) = Recv_Closed \<and> set (ss_workers s) = {Exited} \<and> ss_taken s = ss_fed s \<and>
    mset (map fst (ss_calls s)) = mset (ss_fed s) \<and> mset (ss_got s) = mset (successes (ss_calls s))"
proof -
  have inv: "stage_inv sg w s" by (rule stage_reach_inv [OF assms(1)])
  have out: "ch_closed (ss_out s)" "ch_buf (ss_out s) = []" using assms(4) by (simp_all add: chan_iffs)
  then have "total alive s = 0" using inv by (simp add: stage_inv_def)
  then have sub: "set (ss_workers s) \<subseteq> {Exited}" by (simp add: total_alive_zero)
  moreover have "ss_workers s \<noteq> []" using inv assms(2) by (auto simp: stage_inv_def)
  ultimately have ex: "set (ss_workers s) = {Exited}" by (cases "ss_workers s") auto
  then have rep: "ss_workers s = replicate (length (ss_workers s)) Exited" by (metis replicate_eqI singletonD)
  have "total held_in s = {#}" "total held_out s = {#}"
    by (subst total_def, subst rep, simp add: sum_list_zero)+
  then show ?thesis using inv ex out assms(3) by (auto simp: stage_inv_def chan_iffs)
qed

section \<open>Properties\<close>

text \<open>
  C13: what every interleaving of any number of workers, the producer, the consumer and the
  cancellation preserves: no worker sends on a closed output (it is closed only after all have exited), the output holds at
  most \<open>BufferSize\<close> items; every item taken from the input, in the order it was fed, is held by a worker or has been
  passed to the stage function exactly once; every successful result has been delivered, is in the
  output, is held by a worker or was dropped, the last only after a cancellation; the results are those of
  running the function over the items in call order; and the three metrics count the items
  picked up, the errors and the successes.
\<close>

theorem stage_conservation:
  assumes "stage_reach sg w s"
  shows "(ch_closed (ss_out s) \<longrightarrow> set (ss_workers s) \<subseteq> {Exited}) \<and>
    length (ch_buf (ss_out s)) \<le> nat (sg_BufferSize sg) \<and>
    ss_fed s = ss_taken s @ ch_buf (ss_in s) \<and>
    mset (ss_taken s) = total held_in s + mset (map fst (ss_calls s)) \<and>
    mset (successes (ss_calls s)) =
      mset (ss_got s) + mset (ch_buf (ss_out s)) + total held_out s + mset (ss_dropped s) \<and>
    (ss_dropped s \<noteq> [] \<longrightarrow> ss_cancelled s) \<and>
    run_calls (sg_fn sg) w (map fst (ss_calls s)) = (ss_world s, ss_calls s) \<and>
    ss_processed s = length (ss_calls s) + total counting s \<and>
    ss_errors s = failures (ss_calls s) \<and> ss_latencies s = length (successes (ss_calls s))"
  using stage_reach_inv [OF assms] total_alive_zero [of s]
  by (auto simp: stage_inv_def chan_ok_def)

text \<open>
  C14: a stage made by \<open>NewStage\<close> loses nothing.  When its context is not cancelled and the consumer
  has seen the output closed, the input is closed and empty, each item ever fed has been processed
  once, the consumer has received exactly the successful results, and the metrics add up.
\<close>

theorem stage_complete:
  assumes "stage_reach (NewStage name workers bufferSize input fn) w s"
    and "\<not> ss_cancelled s" and "chan_recv (ss_out s) = Recv_Closed"
  shows "chan_recv (ss_in s) = Recv_Closed \<and>
    mset (map fst (ss_calls s)) = mset (ss_fed s) \<and>
    mset (ss_got s) = mset (successes (ss_calls s)) \<and>
    run_calls fn w (map fst (ss_calls s)) = (ss_world s, ss_calls s) \<and>
    ss_processed s = length (ss_fed s) \<and> ss_processed s = length (ss_got s) + ss_errors s"
proof -
  let ?sg = "NewStage name workers bufferSize input fn"
  have pos: "0 < sg_Workers ?sg" by simp
  note d = drained_stage [OF assms(1) pos assms(2, 3)]
  have inv: "stage_inv ?sg w s" by (rule stage_reach_inv [OF assms(1)])
  have rep: "ss_workers s = replicate (length (ss_workers s)) Exited" using d by (metis replicate_eqI singletonD)
  have "total counting s = 0" by (subst total_def, subst rep, simp add: sum_list_replicate)
  then have p: "ss_processed s = length (ss_calls s)" "ss_errors s = failures (ss_calls s)"
    using inv by (simp_all add: stage_inv_def)
  have "size (mset (map fst (ss_calls s))) = size (mset (ss_fed s))"
      "size (mset (ss_got s)) = size (mset (successes (ss_calls s)))" using d by simp_all
  then have l: "length (ss_calls s) = length (ss_fed s)" "length (ss_got s) = length (successes (ss_calls s))" by simp_all
  have "run_calls fn w (map fst (ss_calls s)) = (ss_world s, ss_calls s)" using inv by (simp add: stage_inv_def)
  then show ?thesis using d p l calls_length [of "ss_calls s"] by simp
qed

text \<open>
  With one worker (the load, embed and index stages) order is kept: at any time the consumer has
  received a prefix of the successful results of running the function over the items fed, in the
  order they were fed, and all of it when the stage has ended uncancelled.
\<close>

theorem single_worker_order:
  assumes "stage_reach (NewStage name 1 bufferSize input fn) w s"
  shows "(\<exists>zs. successes (snd (run_calls fn w (ss_fed s))) = ss_got s @ zs) \<and>
    (\<not> ss_cancelled s \<and> chan_recv (ss_out s) = Recv_Closed \<longrightarrow>
       ss_got s = successes (snd (run_calls fn w (ss_fed s))))"
proof -
  let ?sg = "NewStage name 1 bufferSize input fn"
  have "sg_Workers ?sg = 1" by simp
  then obtain p where p: "ss_taken s = map fst (ss_calls s) @ holding_in p" "ss_workers s = [p]"
      "successes (ss_calls s) = ss_got s @ ch_buf (ss_out s) @ holding_out p @ ss_dropped s"
    using stage_reach_order [OF assms] by (auto simp: order_inv_def)
  have inv: "stage_inv ?sg w s" by (rule stage_reach_inv [OF assms])
  then have run: "run_calls fn w (map fst (ss_calls s)) = (ss_world s, ss_calls s)"
    and fed: "ss_fed s = map fst (ss_calls s) @ holding_in p @ ch_buf (ss_in s)"
    using p(1) by (simp_all add: stage_inv_def)
  have "\<exists>zs. successes (snd (run_calls fn w (ss_fed s))) = ss_got s @ zs"
    using successes_prefix [OF run, of "holding_in p @ ch_buf (ss_in s)"] p(3) unfolding fed by auto
  moreover have "ss_got s = successes (snd (run_calls fn w (ss_fed s)))"
    if "\<not> ss_cancelled s" "chan_recv (ss_out s) = Recv_Closed"
  proof -
    have d: "chan_recv (ss_in s) = Recv_Closed" "set (ss_workers s) = {Exited}"
      using drained_stage [OF assms _ that] by simp_all
    then have "p = Exited" "ch_buf (ss_in s) = []" "ch_buf (ss_out s) = []" "ss_dropped s = []"
      using p(2) that inv by (auto simp: chan_iffs stage_inv_def)
    then show ?thesis using run fed p(3) by simp
  qed
  ultimately show ?thesis by blast
qed

text \<open>
  C15: the pool neither deadlocks nor spins.  Every step of it uses up work (so between two events of the
  environment it makes finitely many steps), and when it can make none it has finished, or it is
  uncancelled and waits for its environment: for input, or for room in the output.  A cancelled pool
  therefore ends by itself, even when nobody reads its output.
\<close>

theorem stage_progress:
  assumes "stage_reach sg w s"
  shows "(\<forall>t. pool_step sg s t \<longrightarrow> pool_work t < pool_work s) \<and>
    (\<exists>t. rtranclp (pool_step sg) s t \<and> (\<nexists>u. pool_step sg t u)) \<and>
    ((\<nexists>t. pool_step sg s t) \<longrightarrow> finished s \<or>
       \<not> ss_cancelled s \<and> (chan_recv (ss_in s) = Recv_Blocks \<or>
         length (ch_buf (ss_out s)) = ch_cap (ss_out s)))"
  using pool_step_work pool.comes_to_rest [of sg s] stuck_cases [OF assms] by blast

section \<open>A run\<close>

text \<open>
  One worker doubling the single item of a closed input; the states the witnesses look at.
\<close>

definition double :: "nat \<Rightarrow> unit \<Rightarrow> (string + nat) \<times> unit" where
  "double x w = (Inr (2 * x), w)"

definition demo_input :: "nat chan" where
  "demo_input = \<lparr>ch_cap = 1, ch_buf = [3], ch_closed = True\<rparr>"

definition demo_stage :: "(nat, nat, unit) stage" where
  "demo_stage = NewStage ''double'' 1 2 demo_input double"

definition demo_state ::
  "nat list \<Rightarrow> nat list \<Rightarrow> bool \<Rightarrow> (nat, nat) worker \<Rightarrow> nat \<Rightarrow> nat \<Rightarrow> nat list \<Rightarrow> (nat \<times> (string + nat)) list \<Rightarrow>
   nat list \<Rightarrow> (nat, nat, unit) stage_state" where
  "demo_state inb outb closed p wg n taken calls got =
     \<lparr>ss_in = \<lparr>ch_cap = 1, ch_buf = inb, ch_closed = True\<rparr>,
      ss_out = \<lparr>ch_cap = 2, ch_buf = outb, ch_closed = closed\<rparr>,
      ss_workers = [p], ss_wg = wg, ss_cancelled = False, ss_world = (), ss_processed = n, ss_errors = 0,
      ss_latencies = length calls, ss_fed = [3], ss_taken = taken, ss_calls = calls, ss_got = got, ss_dropped = []\<rparr>"

lemma demo_stage_start: "stage_reach demo_stage () (demo_state [3] [] False Selecting 1 0 [] [] [])"
  by (rule sr_start)
    (simp add: stage_start_def demo_stage_def demo_state_def demo_input_def make_chan_def)

lemma demo_stage_finish:
  "stage_reach demo_stage () (demo_state [] [] True Exited 0 1 [3] [(3, Inr 6)] [6])"
proof -
  note defs = demo_state_def at_worker_def chan_iffs demo_stage_def double_def
  have "pool_step demo_stage (demo_state [3] [] False Selecting 1 0 [] [] [])
      (demo_state [] [] False (Received_Item 3) 1 0 [3] [] [])"
    using w_receive [of "demo_state [3] [] False Selecting 1 0 [] [] []" 0 3 "demo_input\<lparr>ch_buf := []\<rparr>" demo_stage]
    by (simp add: defs demo_input_def)
  note r = sr_pool [OF demo_stage_start this]
  have "pool_step demo_stage (demo_state [] [] False (Received_Item 3) 1 0 [3] [] [])
      (demo_state [] [] False (Calling 3) 1 1 [3] [] [])"
    using w_count [of "demo_state [] [] False (Received_Item 3) 1 0 [3] [] []" 0 3 demo_stage] by (simp add: defs)
  note r = sr_pool [OF r this]
  have "pool_step demo_stage (demo_state [] [] False (Calling 3) 1 1 [3] [] [])
      (demo_state [] [] False (Emitting 6) 1 1 [3] [(3, Inr 6)] [])"
    using w_success [of "demo_state [] [] False (Calling 3) 1 1 [3] [] []" 0 3 demo_stage 6 "()"] by (simp add: defs)
  note r = sr_pool [OF r this]
  have "pool_step demo_stage (demo_state [] [] False (Emitting 6) 1 1 [3] [(3, Inr 6)] [])
      (demo_state [] [6] False Selecting 1 1 [3] [(3, Inr 6)] [])"
    using w_emit [of "demo_state [] [] False (Emitting 6) 1 1 [3] [(3, Inr 6)] []" 0 6
        "\<lparr>ch_cap = 2, ch_buf = [6], ch_closed = False\<rparr>" demo_stage] by (simp add: defs)
  note r = sr_pool [OF r this]
  have "env_step (demo_state [] [6] False Selecting 1 1 [3] [(3, Inr 6)] [])
      (demo_state [] [] False Selecting 1 1 [3] [(3, Inr 6)] [6])"
    using e_consume [of "demo_state [] [6] False Selecting 1 1 [3] [(3, Inr 6)] []" 6
        "\<lparr>ch_cap = 2, ch_buf = [], ch_closed = False\<rparr>"] by (simp add: defs)
  note r = sr_env [OF r this]
  have "pool_step demo_stage (demo_state [] [] False Selecting 1 1 [3] [(3, Inr 6)] [6])
      (demo_state [] [] False Exited 0 1 [3] [(3, Inr 6)] [6])"
    using w_closed [of "demo_state [] [] False Selecting 1 1 [3] [(3, Inr 6)] [6]" 0 demo_stage] by (simp add: defs)
  note r = sr_pool [OF r this]
  have "pool_step demo_stage (demo_state [] [] False Exited 0 1 [3] [(3, Inr 6)] [6])
      (demo_state [] [] True Exited 0 1 [3] [(3, Inr 6)] [6])"
    using w_close [of "demo_state [] [] False Exited 0 1 [3] [(3, Inr 6)] [6]"
        "\<lparr>ch_cap = 2, ch_buf = [], ch_closed = True\<rparr>" demo_stage] by (simp add: defs)
  from sr_pool [OF r this] show ?thesis .
qed

theorem stage_conservation_witness:
  "\<exists>s. stage_reach demo_stage () s \<and> ss_fed s = ss_taken s @ ch_buf (ss_in s) \<and> ss_fed s \<noteq> []"
  using stage_conservation [OF demo_stage_start] demo_stage_start
  by (intro exI [of _ "demo_state [3] [] False Selecting 1 0 [] [] []"]) (simp add: demo_state_def)

theorem stage_complete_witness:
  "\<exists>s. stage_reach demo_stage () s \<and> ss_processed s = length (ss_got s) + ss_errors s \<and> ss_got s = [6]"
proof -
  let ?s = "demo_state [] [] True Exited 0 1 [3] [(3, Inr 6)] [6]"
  have "\<not> ss_cancelled ?s" "chan_recv (ss_out ?s) = Recv_Closed" by (simp_all add: demo_state_def chan_iffs)
  from stage_complete [OF demo_stage_finish [unfolded demo_stage_def] this] demo_stage_finish
  show ?thesis by (intro exI [of _ ?s]) (simp add: demo_state_def)
qed

theorem single_worker_order_witness:
  "\<exists>s. stage_reach demo_stage () s \<and> ss_got s = successes (snd (run_calls double () (ss_fed s))) \<and> ss_fed s = [3]"
proof -
  let ?s = "demo_state [] [] True Exited 0 1 [3] [(3, Inr 6)] [6]"
  have "\<not> ss_cancelled ?s \<and> chan_recv (ss_out ?s) = Recv_Closed" by (simp add: demo_state_def chan_iffs)
  with single_worker_order [OF demo_stage_finish [unfolded demo_stage_def]]
  have "ss_got ?s = successes (snd (run_calls double () (ss_fed ?s)))" by blast
  with demo_stage_finish show ?thesis by (intro exI [of _ ?s]) (simp add: demo_state_def)
qed

theorem stage_progress_witness:
  "\<exists>s. stage_reach demo_stage () s \<and> (\<forall>t. pool_step demo_stage s t \<longrightarrow> pool_work t < pool_work s) \<and> pool_work s = 7"
  using stage_progress [OF demo_stage_start] demo_stage_start
  by (intro exI [of _ "demo_state [3] [] False Selecting 1 0 [] [] []"])
    (simp add: pool_work_def total_def demo_state_def)

end
