(* ===== verification/Doc_Pipeline.thy ===== *)
theory Doc_Pipeline
  imports Doc_Stage Doc_Index Doc_Load Doc_Tokenize
begin

text \<open>
  \<open>doc-pipeline/main.go\<close>: the generator and the four stages wired together, from line 43 on.  A channel
  between two parts is one value that both of them hold: when a step of one part changes it, the other
  part follows.  The stages start while the generator is already running; as the queue in front of them is empty
  until it ticks, the model starts all of them together.  The context is \<open>context.Background()\<close>, so nothing
  is ever cancelled.  The metrics servers and the telemetry client are not modelled; the file, the
  Unicode tables and the graph package are parameters.
\<close>

section \<open>The wiring\<close>

definition load_message :: "load_error \<Rightarrow> string" where
  "load_message e =
     (case e of Open_Error m \<Rightarrow> m | Seek_Error \<Rightarrow> ''invalid argument'' | Read_Error m \<Rightarrow> m)"

definition load_call :: "disk \<Rightarrow> data_loading_config \<Rightarrow> unit \<Rightarrow> (string + document) \<times> unit" where
  "load_call disk req w =
     ((case LoadData disk req of Inl e \<Rightarrow> Inl (load_message e) | Inr doc \<Rightarrow> Inr doc), w)"

definition tokenize_call :: "unicode_tables \<Rightarrow> document \<Rightarrow> unit \<Rightarrow> (string + tokenized_doc) \<times> unit" where
  "tokenize_call u doc w = (Tokenize u doc, w)"

text \<open>A panic of \<open>Embed\<close> would end the program; \<open>embed_call_total\<close> shows that there is none.\<close>

definition embed_call :: "embedder \<Rightarrow> tokenized_doc \<Rightarrow> unit \<Rightarrow> (string + embedded_doc) \<times> unit" where
  "embed_call e doc w = ((case Embed e doc of None \<Rightarrow> Inl ''panic'' | Some r \<Rightarrow> r), w)"

definition index_call ::
  "'g hnsw \<Rightarrow> embedded_doc \<Rightarrow> 'g embedding_index \<Rightarrow> (string + dedup_result) \<times> 'g embedding_index" where
  "index_call h doc idx = (let (idx, r) = DedupAndIndex h doc idx in (r, idx))"

definition generatorConfig :: load_generator_config where
  "generatorConfig = \<lparr>MinTextSize = 1000, MaxTextSize = 20000, IDPrefix = ''doc'', RatePerSec = 4000,
     FilePath = ''data/shakespeare.txt'', FileSize = 5436475\<rparr>"

definition dataLoadingStage :: "disk \<Rightarrow> (data_loading_config, document, unit) stage" where
  "dataLoadingStage disk = NewStage ''load'' 1 100 (make_chan 100) (load_call disk)"

definition tokenizeStage :: "unicode_tables \<Rightarrow> (document, tokenized_doc, unit) stage" where
  "tokenizeStage u = NewStage ''tokenize'' 3 100 (make_chan 100) (tokenize_call u)"

definition embedDocStage :: "(tokenized_doc, embedded_doc, unit) stage" where
  "embedDocStage = NewStage ''embed'' 1 100 (make_chan 100) (embed_call (NewEmbedder 1024))"

definition indexStage :: "'g hnsw \<Rightarrow> (embedded_doc, dedup_result, 'g embedding_index) stage" where
  "indexStage h = NewStage ''index'' 1 100 (make_chan 100) (index_call h)"

record 'g pipeline =
  pl_gen :: lg_state
  pl_load :: "(data_loading_config, document, unit) stage_state"
  pl_tok :: "(document, tokenized_doc, unit) stage_state"
  pl_emb :: "(tokenized_doc, embedded_doc, unit) stage_state"
  pl_idx :: "(embedded_doc, dedup_result, 'g embedding_index) stage_state"
  pl_printed :: "dedup_result list"
  pl_returned :: bool

definition threshold :: gofloat where
  "threshold = rnd32 (4 / 5)"

text \<open>\<open>None\<close> is \<open>log.Fatal\<close> or a panic while the parts are set up.\<close>

definition pl_start :: "disk \<Rightarrow> unicode_tables \<Rightarrow> 'g hnsw \<Rightarrow> rng \<Rightarrow> index_metrics \<Rightarrow> 'g pipeline option" where
  "pl_start disk u h seeded metrics =
     (case lg_start (NewLoadGenerator generatorConfig 100 seeded) of
        None \<Rightarrow> None
      | Some gen \<Rightarrow>
     (case stage_start (dataLoadingStage disk) () of
        None \<Rightarrow> None
      | Some load \<Rightarrow>
     (case stage_start (tokenizeStage u) () of
        None \<Rightarrow> None
      | Some tok \<Rightarrow>
     (case NewEmbeddingIndex h threshold metrics of
        Inl _ \<Rightarrow> None
      | Inr indexer \<Rightarrow>
     (case stage_start embedDocStage () of
        None \<Rightarrow> None
      | Some emb \<Rightarrow>
     (case stage_start (indexStage h) indexer of
        None \<Rightarrow> None
      | Some idx \<Rightarrow>
          Some \<lparr>pl_gen = gen, pl_load = load, pl_tok = tok, pl_emb = emb, pl_idx = idx,
                pl_printed = [], pl_returned = False\<rparr>))))))"

text \<open>
  How a part follows a change of a channel it shares: elements added to its input are fed to it,
  elements missing from its output have been taken by the next part.
\<close>

definition see_input :: "'i chan \<Rightarrow> ('i, 'o, 'w) stage_state \<Rightarrow> ('i, 'o, 'w) stage_state" where
  "see_input c s = s\<lparr>ss_in := c, ss_fed := ss_fed s @ drop (length (ch_buf (ss_in s))) (ch_buf c)\<rparr>"

definition see_output :: "'o chan \<Rightarrow> ('i, 'o, 'w) stage_state \<Rightarrow> ('i, 'o, 'w) stage_state" where
  "see_output c s = s\<lparr>ss_out := c,
     ss_got := ss_got s @ take (length (ch_buf (ss_out s)) - length (ch_buf c)) (ch_buf (ss_out s))\<rparr>"

definition see_requests :: "data_loading_config chan \<Rightarrow> lg_state \<Rightarrow> lg_state" where
  "see_requests c s = s\<lparr>lg_out := c,
     lg_got := lg_got s @ take (length (ch_buf (lg_out s)) - length (ch_buf c)) (ch_buf (lg_out s))\<rparr>"

text \<open>
  The steps: the generator ticks or sends, a stage moves, the main loop prints a result or returns
  when the last output is closed.
\<close>

inductive pl_step :: "disk \<Rightarrow> unicode_tables \<Rightarrow> 'g hnsw \<Rightarrow> 'g pipeline \<Rightarrow> 'g pipeline \<Rightarrow> bool"
  for disk u h where
  pl_generate: "lg_step (pl_gen p) gen \<Longrightarrow> \<not> lg_done gen \<Longrightarrow> lg_got gen = lg_got (pl_gen p) \<Longrightarrow>
    pl_step disk u h p (p\<lparr>pl_gen := gen, pl_load := see_input (lg_out gen) (pl_load p)\<rparr>)"
| pl_load_step: "pool_step (dataLoadingStage disk) (pl_load p) s \<Longrightarrow>
    pl_step disk u h p (p\<lparr>pl_gen := see_requests (ss_in s) (pl_gen p), pl_load := s,
      pl_tok := see_input (ss_out s) (pl_tok p)\<rparr>)"
| pl_tok_step: "pool_step (tokenizeStage u) (pl_tok p) s \<Longrightarrow>
    pl_step disk u h p (p\<lparr>pl_load := see_output (ss_in s) (pl_load p), pl_tok := s,
      pl_emb := see_input (ss_out s) (pl_emb p)\<rparr>)"
| pl_emb_step: "pool_step embedDocStage (pl_emb p) s \<Longrightarrow>
    pl_step disk u h p (p\<lparr>pl_tok := see_output (ss_in s) (pl_tok p), pl_emb := s,
      pl_idx := see_input (ss_out s) (pl_idx p)\<rparr>)"
| pl_idx_step: "pool_step (indexStage h) (pl_idx p) s \<Longrightarrow>
    pl_step disk u h p (p\<lparr>pl_emb := see_output (ss_in s) (pl_emb p), pl_idx := s\<rparr>)"
| pl_print: "\<not> pl_returned p \<Longrightarrow> chan_recv (ss_out (pl_idx p)) = Received r c \<Longrightarrow>
    pl_step disk u h p (p\<lparr>pl_idx := see_output c (pl_idx p), pl_printed := pl_printed p @ [r]\<rparr>)"
| pl_return: "\<not> pl_returned p \<Longrightarrow> chan_recv (ss_out (pl_idx p)) = Recv_Closed \<Longrightarrow>
    pl_step disk u h p (p\<lparr>pl_returned := True\<rparr>)"

inductive pl_reach ::
  "disk \<Rightarrow> unicode_tables \<Rightarrow> 'g hnsw \<Rightarrow> rng \<Rightarrow> index_metrics \<Rightarrow> 'g pipeline \<Rightarrow> bool"
  for disk u h seeded metrics where
  pl_init: "pl_start disk u h seeded metrics = Some p \<Longrightarrow> pl_reach disk u h seeded metrics p"
| pl_next: "pl_reach disk u h seeded metrics p \<Longrightarrow> pl_step disk u h p q \<Longrightarrow> pl_reach disk u h seeded metrics q"


section \<open>Shared channels\<close>

lemma pool_step_in:
  assumes "pool_step sg s t"
  shows "(ss_in t = ss_in s \<and> ss_taken t = ss_taken s) \<or>
    (\<exists>x. chan_recv (ss_in s) = Received x (ss_in t) \<and> ss_taken t = ss_taken s @ [x])"
  using assms by cases auto

lemma pool_step_out:
  assumes "pool_step sg s t"
  shows "ss_out t = ss_out s \<or> (\<exists>y. chan_send y (ss_out s) = Sent (ss_out t)) \<or>
    chan_close (ss_out s) = Some (ss_out t)"
  using assms by cases auto

lemma pool_step_frame: "pool_step sg s t \<Longrightarrow> ss_got t = ss_got s \<and> ss_fed t = ss_fed s \<and> ss_cancelled t = ss_cancelled s"
  by (induction rule: pool_step.induct) simp_all

lemma see_simps [simp]:
  "ss_in (see_input c s) = c" "ss_out (see_input c s) = ss_out s" "ss_taken (see_input c s) = ss_taken s"
  "ss_got (see_input c s) = ss_got s" "ss_cancelled (see_input c s) = ss_cancelled s"
  "ss_workers (see_input c s) = ss_workers s" "ss_world (see_input c s) = ss_world s"
  "ss_out (see_output d t) = d" "ss_in (see_output d t) = ss_in t" "ss_taken (see_output d t) = ss_taken t"
  "ss_fed (see_output d t) = ss_fed t" "ss_cancelled (see_output d t) = ss_cancelled t"
  "ss_workers (see_output d t) = ss_workers t" "ss_world (see_output d t) = ss_world t"
  by (simp_all add: see_input_def see_output_def)

lemma see_requests_simps [simp]:
  "lg_out (see_requests c g) = c" "lg_done (see_requests c g) = lg_done g"
  "lg_phase (see_requests c g) = lg_phase g" "lg_requests (see_requests c g) = lg_requests g"
  "lg_gen (see_requests c g) = lg_gen g"
  by (simp_all add: see_requests_def)

lemma see_same [simp]:
  "see_input (ss_in s) s = s" "see_output (ss_out s) s = s" "see_requests (lg_out g) g = g"
  by (simp_all add: see_input_def see_output_def see_requests_def)

lemma see_input_reach:
  assumes n: "stage_reach sg w n" and "ss_in n = c" and
    "c' = c \<or> (\<exists>y. chan_send y c = Sent c') \<or> chan_close c = Some c'"
  shows "stage_reach sg w (see_input c' n)"
  using assms(3)
proof (elim disjE exE)
  assume "c' = c"
  then show ?thesis using n assms(2) by auto
next
  fix y assume s: "chan_send y c = Sent c'"
  then have "see_input c' n = n\<lparr>ss_in := c', ss_fed := ss_fed n @ [y]\<rparr>"
    using assms(2) by (auto simp: see_input_def chan_iffs)
  then show ?thesis using sr_env [OF n e_feed] s assms(2) by simp
next
  assume s: "chan_close c = Some c'"
  then have "see_input c' n = n\<lparr>ss_in := c'\<rparr>"
    using assms(2) by (auto simp: see_input_def chan_iffs)
  then show ?thesis using sr_env [OF n e_close] s assms(2) by simp
qed

lemma see_output_reach:
  assumes n: "stage_reach sg w n" and "ss_out n = c" and "c' = c \<or> (\<exists>y. chan_recv c = Received y c')"
  shows "stage_reach sg w (see_output c' n)"
  using assms(3)
proof (elim disjE exE)
  assume "c' = c"
  then show ?thesis using n assms(2) by auto
next
  fix y assume s: "chan_recv c = Received y c'"
  then have "see_output c' n = n\<lparr>ss_out := c', ss_got := ss_got n @ [y]\<rparr>"
    using assms(2) by (auto simp: see_output_def chan_iffs)
  then show ?thesis using sr_env [OF n e_consume] s assms(2) by simp
qed

lemma see_requests_reach:
  assumes n: "lg_reach g n" and "lg_out n = c" and "c' = c \<or> (\<exists>y. chan_recv c = Received y c')"
  shows "lg_reach g (see_requests c' n)"
  using assms(3)
proof (elim disjE exE)
  assume "c' = c"
  then show ?thesis using n assms(2) by auto
next
  fix y assume s: "chan_recv c = Received y c'"
  then have "see_requests c' n = n\<lparr>lg_out := c', lg_got := lg_got n @ [y]\<rparr>"
    using assms(2) by (auto simp: see_requests_def chan_iffs)
  then show ?thesis using lg_next [OF n lg_consume] s assms(2) by simp
qed

text \<open>Two parts agree on the channel between them, and on what has passed through it.\<close>

definition linked :: "('i, 'm, 'v) stage_state \<Rightarrow> ('m, 'o, 'w) stage_state \<Rightarrow> bool" where
  "linked s n \<longleftrightarrow> ss_out s = ss_in n \<and> ss_got s = ss_taken n"

definition lg_linked :: "lg_state \<Rightarrow> (data_loading_config, 'o, 'w) stage_state \<Rightarrow> bool" where
  "lg_linked g n \<longleftrightarrow> lg_out g = ss_in n \<and> lg_got g = ss_taken n"

lemma linked_sees [simp]:
  "linked (see_input c s) n \<longleftrightarrow> linked s n" "linked s (see_output d n) \<longleftrightarrow> linked s n"
  by (simp_all add: linked_def)

lemma lg_linked_sees [simp]: "lg_linked g (see_output d n) \<longleftrightarrow> lg_linked g n"
  by (simp add: lg_linked_def)

lemma linked_right_step:
  assumes "linked s n" and "pool_step sg n t"
  shows "linked (see_output (ss_in t) s) t"
  using pool_step_in [OF assms(2)] assms(1) by (auto simp: linked_def see_output_def chan_iffs)

lemma linked_left_step:
  assumes "linked s n" and "pool_step sg s t"
  shows "linked t (see_input (ss_out t) n)"
  using pool_step_frame [OF assms(2)] assms(1) by (simp add: linked_def)

lemma lg_linked_right_step:
  assumes "lg_linked g n" and "pool_step sg n t"
  shows "lg_linked (see_requests (ss_in t) g) t"
  using pool_step_in [OF assms(2)] assms(1) by (auto simp: lg_linked_def see_requests_def chan_iffs)

lemma lg_step_out:
  assumes "lg_step g g'" and "\<not> lg_done g'" and "lg_got g' = lg_got g"
  shows "\<not> lg_done g \<and> lg_phase g' \<noteq> Stopped \<and>
    (lg_out g' = lg_out g \<or> (\<exists>y. chan_send y (lg_out g) = Sent (lg_out g')))"
  using assms by cases auto

section \<open>The parts of a reachable pipeline\<close>

abbreviation pl_generator :: "rng \<Rightarrow> load_generator" where
  "pl_generator seeded \<equiv> NewLoadGenerator generatorConfig 100 seeded"

definition pl_parts ::
  "disk \<Rightarrow> unicode_tables \<Rightarrow> 'g hnsw \<Rightarrow> rng \<Rightarrow> 'g embedding_index \<Rightarrow> 'g pipeline \<Rightarrow> bool" where
  "pl_parts disk u h seeded ix p \<longleftrightarrow>
     lg_reach (pl_generator seeded) (pl_gen p) \<and> \<not> lg_done (pl_gen p) \<and> lg_phase (pl_gen p) \<noteq> Stopped \<and>
     stage_reach (dataLoadingStage disk) () (pl_load p) \<and> stage_reach (tokenizeStage u) () (pl_tok p) \<and>
     stage_reach embedDocStage () (pl_emb p) \<and> stage_reach (indexStage h) ix (pl_idx p)"

definition pl_links :: "'g pipeline \<Rightarrow> bool" where
  "pl_links p \<longleftrightarrow> lg_linked (pl_gen p) (pl_load p) \<and> linked (pl_load p) (pl_tok p) \<and>
     linked (pl_tok p) (pl_emb p) \<and> linked (pl_emb p) (pl_idx p) \<and> pl_printed p = ss_got (pl_idx p)"

definition uncancelled :: "'g pipeline \<Rightarrow> bool" where
  "uncancelled p \<longleftrightarrow> \<not> ss_cancelled (pl_load p) \<and> \<not> ss_cancelled (pl_tok p) \<and>
     \<not> ss_cancelled (pl_emb p) \<and> \<not> ss_cancelled (pl_idx p)"

lemma stage_start_fresh:
  assumes "stage_start sg w = Some s"
  shows "ss_in s = sg_in sg" "ss_out s = make_chan (nat (sg_BufferSize sg))" "ss_taken s = []"
    "ss_got s = []" "ss_cancelled s = False" "ss_world s = w"
  using assms by (auto simp: stage_start_def split: if_splits)

lemma lg_start_fresh:
  assumes "lg_start g = Some s"
  shows "lg_out s = make_chan 100" "lg_got s = []" "\<not> lg_done s" "lg_phase s = Waiting"
  using assms by (auto simp: lg_start_def split: option.splits)

lemma pl_start_parts:
  assumes "pl_start disk u h seeded metrics = Some p"
  obtains ix where "NewEmbeddingIndex h threshold metrics = Inr ix" and "pl_parts disk u h seeded ix p"
    and "pl_links p" and "uncancelled p"
proof -
  obtain gen load tok ix emb idx where c:
    "lg_start (pl_generator seeded) = Some gen" "stage_start (dataLoadingStage disk) () = Some load"
    "stage_start (tokenizeStage u) () = Some tok" "NewEmbeddingIndex h threshold metrics = Inr ix"
    "stage_start embedDocStage () = Some emb" "stage_start (indexStage h) ix = Some idx"
    and p: "p = \<lparr>pl_gen = gen, pl_load = load, pl_tok = tok, pl_emb = emb, pl_idx = idx,
                pl_printed = [], pl_returned = False\<rparr>"
    using assms unfolding pl_start_def by (simp split: option.splits sum.splits)
  note f = lg_start_fresh [OF c(1)] stage_start_fresh [OF c(2)] stage_start_fresh [OF c(3)]
    stage_start_fresh [OF c(5)] stage_start_fresh [OF c(6)]
  show ?thesis
  proof (rule that [OF c(4)])
    show "pl_parts disk u h seeded ix p"
      using c f by (auto simp: pl_parts_def p intro: lg_init sr_start)
    show "pl_links p"
      using f by (simp add: pl_links_def p lg_linked_def linked_def dataLoadingStage_def tokenizeStage_def
          embedDocStage_def indexStage_def)
    show "uncancelled p" using f by (simp add: uncancelled_def p)
  qed
qed


text \<open>One stage moves between an upstream and a downstream part: all three stay reachable and linked.\<close>

lemma stage_move:
  assumes "stage_reach sg w s" and "pool_step sg s t"
  shows "stage_reach sg w t" "ss_got t = ss_got s" "ss_cancelled t = ss_cancelled s"
    and "linked a s \<Longrightarrow> linked (see_output (ss_in t) a) t"
    and "linked a s \<Longrightarrow> stage_reach sga wa a \<Longrightarrow> stage_reach sga wa (see_output (ss_in t) a)"
    and "linked s b \<Longrightarrow> linked t (see_input (ss_out t) b)"
    and "linked s b \<Longrightarrow> stage_reach sgb wb b \<Longrightarrow> stage_reach sgb wb (see_input (ss_out t) b)"
proof -
  show "stage_reach sg w t" by (rule sr_pool [OF assms])
  show "ss_got t = ss_got s" "ss_cancelled t = ss_cancelled s" using pool_step_frame [OF assms(2)] by auto
  show "linked a s \<Longrightarrow> linked (see_output (ss_in t) a) t" by (rule linked_right_step [OF _ assms(2)])
  show "linked s b \<Longrightarrow> linked t (see_input (ss_out t) b)" by (rule linked_left_step [OF _ assms(2)])
  show "stage_reach sga wa (see_output (ss_in t) a)" if "linked a s" "stage_reach sga wa a"
    using see_output_reach [OF that(2), of "ss_in s" "ss_in t"] that(1) pool_step_in [OF assms(2)]
    by (auto simp: linked_def)
  show "stage_reach sgb wb (see_input (ss_out t) b)" if "linked s b" "stage_reach sgb wb b"
    using see_input_reach [OF that(2), of "ss_out s" "ss_out t"] that(1) pool_step_out [OF assms(2)]
    by (auto simp: linked_def)
qed

lemma generator_move:
  assumes "lg_step g g'" "\<not> lg_done g'" "lg_got g' = lg_got g" and "lg_linked g n" and "stage_reach sg w n"
  shows "lg_linked g' (see_input (lg_out g') n)" "stage_reach sg w (see_input (lg_out g') n)" "lg_phase g' \<noteq> Stopped"
proof -
  note o = lg_step_out [OF assms(1-3)]
  show "lg_linked g' (see_input (lg_out g') n)" using assms(3,4) by (simp add: lg_linked_def)
  show "stage_reach sg w (see_input (lg_out g') n)"
    using see_input_reach [OF assms(5), of "lg_out g" "lg_out g'"] assms(4) o by (auto simp: lg_linked_def)
  show "lg_phase g' \<noteq> Stopped" using o by simp
qed

lemma requests_move:
  assumes "pool_step sg s t" and "lg_linked g s" and "lg_reach gen g"
  shows "lg_linked (see_requests (ss_in t) g) t" "lg_reach gen (see_requests (ss_in t) g)"
proof -
  show "lg_linked (see_requests (ss_in t) g) t" by (rule lg_linked_right_step [OF assms(2,1)])
  show "lg_reach gen (see_requests (ss_in t) g)"
    using see_requests_reach [OF assms(3), of "ss_in s" "ss_in t"] assms(2) pool_step_in [OF assms(1)]
    by (auto simp: lg_linked_def)
qed

lemmas pl_defs = pl_parts_def pl_links_def uncancelled_def

lemma pl_step_parts:
  assumes "pl_step disk u h p q" and inv: "pl_parts disk u h seeded ix p" "pl_links p" "uncancelled p"
  shows "pl_parts disk u h seeded ix q \<and> pl_links q \<and> uncancelled q"
  using assms(1)
proof cases
  case (pl_generate gen)
  have "lg_linked (pl_gen p) (pl_load p)" "stage_reach (dataLoadingStage disk) () (pl_load p)"
    using inv by (simp_all add: pl_defs)
  note m = generator_move [OF pl_generate(2-4) this]
  show ?thesis
    unfolding pl_generate(1) using inv m pl_generate(3) lg_next [OF _ pl_generate(2)]
    by (auto simp: pl_defs)
next
  case (pl_load_step s)
  have r: "stage_reach (dataLoadingStage disk) () (pl_load p)" using inv(1) by (simp add: pl_parts_def)
  note m = stage_move [OF r pl_load_step(2)] and g = requests_move [OF pl_load_step(2)]
  show ?thesis unfolding pl_load_step(1) using inv m g by (auto simp: pl_defs)
next
  case (pl_tok_step s)
  have r: "stage_reach (tokenizeStage u) () (pl_tok p)" using inv(1) by (simp add: pl_parts_def)
  note m = stage_move [OF r pl_tok_step(2)]
  show ?thesis unfolding pl_tok_step(1) using inv m by (auto simp: pl_defs)
next
  case (pl_emb_step s)
  have r: "stage_reach embedDocStage () (pl_emb p)" using inv(1) by (simp add: pl_parts_def)
  note m = stage_move [OF r pl_emb_step(2)]
  show ?thesis unfolding pl_emb_step(1) using inv m by (auto simp: pl_defs)
next
  case (pl_idx_step s)
  have r: "stage_reach (indexStage h) ix (pl_idx p)" using inv(1) by (simp add: pl_parts_def)
  note m = stage_move [OF r pl_idx_step(2)]
  show ?thesis unfolding pl_idx_step(1) using inv m by (auto simp: pl_defs)
next
  case (pl_print r c)
  have reach: "stage_reach (indexStage h) ix (pl_idx p)" using inv(1) by (simp add: pl_parts_def)
  have s: "stage_reach (indexStage h) ix (see_output c (pl_idx p))"
    using see_output_reach [OF reach] pl_print(3) by blast
  have "ss_got (see_output c (pl_idx p)) = ss_got (pl_idx p) @ [r]"
    using pl_print(3) by (auto simp: see_output_def chan_iffs)
  then show ?thesis unfolding pl_print(1) using inv s by (simp add: pl_defs)
next
  case pl_return
  show ?thesis unfolding pl_return(1) using inv by (simp add: pl_defs)
qed

lemma pl_reach_parts:
  assumes "pl_reach disk u h seeded metrics p"
  shows "\<exists>ix. NewEmbeddingIndex h threshold metrics = Inr ix \<and> pl_parts disk u h seeded ix p \<and>
    pl_links p \<and> uncancelled p"
  using assms
proof induction
  case (pl_init p)
  then show ?case by (blast elim: pl_start_parts)
next
  case (pl_next p q)
  then show ?case using pl_step_parts by blast
qed

text \<open>Without a cancellation no stage ends before its input does, so no channel of the pipeline is closed.\<close>

lemma stage_stays_open:
  assumes "stage_reach sg w s" and "\<not> ss_cancelled s" and "0 < sg_Workers sg" and "\<not> ch_closed (ss_in s)"
  shows "\<not> ch_closed (ss_out s)" "Exited \<notin> set (ss_workers s)" "ss_dropped s = []"
proof -
  have inv: "stage_inv sg w s" by (rule stage_reach_inv [OF assms(1)])
  then show ex: "Exited \<notin> set (ss_workers s)" and "ss_dropped s = []" using assms(2,4) by (auto simp: stage_inv_def)
  have "ss_workers s \<noteq> []" using inv assms(3) by (auto simp: stage_inv_def)
  then have "ss_wg s \<noteq> 0" using inv total_alive_zero [of s] ex by (cases "ss_workers s") (auto simp: stage_inv_def)
  then show "\<not> ch_closed (ss_out s)" using inv by (auto simp: stage_inv_def)
qed

lemma stages_workers [simp]:
  "sg_Workers (dataLoadingStage disk) = 1" "sg_Workers (tokenizeStage u) = 3" "sg_Workers embedDocStage = 1"
  "sg_Workers (indexStage h) = 1" "sg_BufferSize (dataLoadingStage disk) = 100"
  "sg_BufferSize (tokenizeStage u) = 100" "sg_BufferSize embedDocStage = 100" "sg_BufferSize (indexStage h) = 100"
  "sg_fn (dataLoadingStage disk) = load_call disk" "sg_fn (tokenizeStage u) = tokenize_call u"
  "sg_fn embedDocStage = embed_call (NewEmbedder 1024)" "sg_fn (indexStage h) = index_call h"
  by (simp_all add: dataLoadingStage_def tokenizeStage_def embedDocStage_def indexStage_def)

lemma pl_open:
  assumes "pl_parts disk u h seeded ix p" and "pl_links p" and "uncancelled p"
  shows "\<not> ch_closed (lg_out (pl_gen p))" "\<not> ch_closed (ss_out (pl_load p))" "\<not> ch_closed (ss_out (pl_tok p))"
    "\<not> ch_closed (ss_out (pl_emb p))" "\<not> ch_closed (ss_out (pl_idx p))"
    "ss_dropped (pl_load p) = []" "ss_dropped (pl_tok p) = []" "ss_dropped (pl_emb p) = []" "ss_dropped (pl_idx p) = []"
proof -
  have ok: "config_ok generatorConfig" by (simp add: config_ok_def generatorConfig_def int64_range_def)
  have "lg_inv (pl_generator seeded) (pl_gen p)"
    by (rule lg_reach_inv) (use assms(1) ok in \<open>simp_all add: pl_parts_def NewLoadGenerator_def\<close>)
  then show g: "\<not> ch_closed (lg_out (pl_gen p))" using assms(1) by (simp add: pl_parts_def lg_inv_def)
  note l = assms [unfolded pl_defs linked_def lg_linked_def]
  note o1 = stage_stays_open [of "dataLoadingStage disk" "()" "pl_load p"]
  note o2 = stage_stays_open [of "tokenizeStage u" "()" "pl_tok p"]
  note o3 = stage_stays_open [of embedDocStage "()" "pl_emb p"]
  note o4 = stage_stays_open [of "indexStage h" ix "pl_idx p"]
  show 1: "\<not> ch_closed (ss_out (pl_load p))" "ss_dropped (pl_load p) = []" using o1 g l by simp_all
  show 2: "\<not> ch_closed (ss_out (pl_tok p))" "ss_dropped (pl_tok p) = []" using o2 1 l by simp_all
  show 3: "\<not> ch_closed (ss_out (pl_emb p))" "ss_dropped (pl_emb p) = []" using o3 2 l by simp_all
  show "\<not> ch_closed (ss_out (pl_idx p))" "ss_dropped (pl_idx p) = []" using o4 3 l by simp_all
qed


section \<open>Stages that keep the key of an item\<close>

text \<open>
  What the pipeline relies on in a stage function: on the inputs it gets it succeeds, whatever state it
  keeps, and its result carries the id of its input.
\<close>

locale keyed_stage =
  fixes fn :: "'i \<Rightarrow> 'w \<Rightarrow> (string + 'o) \<times> 'w"
    and key_in :: "'i \<Rightarrow> string" and key_out :: "'o \<Rightarrow> string" and good :: "'i \<Rightarrow> bool"
  assumes call_keeps_key: "good x \<Longrightarrow> \<exists>y w'. fn x w = (Inr y, w') \<and> key_out y = key_in x"
begin

lemma run_keys:
  "\<forall>x \<in> set xs. good x \<Longrightarrow> run_calls fn w xs = (w', cs) \<Longrightarrow>
   failures cs = 0 \<and> map key_out (successes cs) = map key_in xs"
proof (induction xs arbitrary: w' cs rule: rev_induct)
  case (snoc x xs)
  obtain v ds where d: "run_calls fn w xs = (v, ds)" by fastforce
  obtain y v' where y: "fn x v = (Inr y, v')" "key_out y = key_in x"
    using call_keeps_key [of x v] snoc.prems(1) by auto
  have "cs = ds @ [(x, Inr y)]" using snoc.prems(2) by (simp add: run_calls_snoc d y)
  then show ?case using snoc.IH [OF _ d] snoc.prems(1) y(2) by simp
qed auto

definition keys_held :: "('i, 'o, 'w) stage_state \<Rightarrow> string multiset" where
  "keys_held s = image_mset key_in (total held_in s) + image_mset key_out (total held_out s)"

lemma stage_keys:
  assumes "stage_reach sg w s" and "sg_fn sg = fn" and "\<forall>x \<in> set (ss_fed s). good x" and "ss_dropped s = []"
  shows "ss_errors s = 0"
    and "mset (map key_in (ss_taken s)) =
      keys_held s + mset (map key_out (ch_buf (ss_out s))) + mset (map key_out (ss_got s))"
proof -
  have inv: "stage_inv sg w s" by (rule stage_reach_inv [OF assms(1)])
  then have t: "mset (ss_taken s) = total held_in s + mset (map fst (ss_calls s))"
    and o: "mset (successes (ss_calls s)) = mset (ss_got s) + mset (ch_buf (ss_out s)) + total held_out s"
    and r: "run_calls fn w (map fst (ss_calls s)) = (ss_world s, ss_calls s)"
    and fed: "ss_fed s = ss_taken s @ ch_buf (ss_in s)" and e: "ss_errors s = failures (ss_calls s)"
    using assms(2,4) by (simp_all add: stage_inv_def)
  have "set_mset (mset (map fst (ss_calls s))) \<subseteq> set_mset (mset (ss_taken s))" unfolding t by simp
  then have "\<forall>x \<in> set (map fst (ss_calls s)). good x" using assms(3) fed by auto
  from run_keys [OF this r] have k: "failures (ss_calls s) = 0"
    "map key_out (successes (ss_calls s)) = map key_in (map fst (ss_calls s))" by auto
  then show "ss_errors s = 0" using e by simp
  have "mset (map key_in (ss_taken s)) = image_mset key_in (total held_in s) + mset (map key_in (map fst (ss_calls s)))"
    by (subst mset_map, subst t, subst (2) mset_map, rule image_mset_union)
  also have "mset (map key_in (map fst (ss_calls s))) = image_mset key_out (mset (successes (ss_calls s)))"
    using k(2) by (metis mset_map)
  also have "\<dots> = mset (map key_out (ss_got s)) + mset (map key_out (ch_buf (ss_out s))) + image_mset key_out (total held_out s)"
    by (simp add: o)
  finally show "mset (map key_in (ss_taken s)) =
      keys_held s + mset (map key_out (ch_buf (ss_out s))) + mset (map key_out (ss_got s))"
    by (simp add: keys_held_def)
qed

lemma keys_held_size: "size (keys_held s) \<le> length (ss_workers s)"
proof -
  have one: "size (held_in p) + size (held_out p) \<le> 1" for p :: "('i, 'o) worker" by (cases p) auto
  have "size (sum_list (map held_in ps)) + size (sum_list (map held_out ps)) \<le> length ps"
    for ps :: "('i, 'o) worker list"
  proof (induction ps)
    case (Cons p ps)
    then show ?case using one [of p] by simp
  qed simp
  from this [of "ss_workers s"] show ?thesis by (simp add: keys_held_def total_def)
qed

lemma keys_held_empty: "set (ss_workers s) \<subseteq> {Selecting} \<Longrightarrow> keys_held s = {#}"
proof -
  assume "set (ss_workers s) \<subseteq> {Selecting}"
  then have "ss_workers s = replicate (length (ss_workers s)) Selecting" by (metis replicate_eqI singletonD subsetD)
  then have "total held_in s = {#}" "total held_out s = {#}"
    by (subst total_def, metis held_in.simps(3) held_out.simps(2) map_replicate sum_list_zero)+
  then show ?thesis by (simp add: keys_held_def)
qed

end

text \<open>The requests that the load stage serves without an error, and the four stage functions.\<close>

definition readable :: "disk \<Rightarrow> bytes \<Rightarrow> bool" where
  "readable disk content \<longleftrightarrow>
     disk (FilePath generatorConfig) = Some \<lparr>df_open_err = None, df_read_err = None, df_content = content\<rparr>"

definition loadable :: "disk \<Rightarrow> data_loading_config \<Rightarrow> bool" where
  "loadable disk req \<longleftrightarrow> (\<exists>content. readable disk content) \<and>
     dl_FilePath req = FilePath generatorConfig \<and> 0 \<le> dl_Offset req"

lemma Embed_total:
  assumes "0 < n" and "n < 2 ^ 63"
  shows "\<exists>y. Embed (NewEmbedder n) doc = Some (Inr y) \<and> ed_ID y = td_ID doc"
proof -
  obtain v where "embed_loop n (td_Tokens doc) (replicate (nat n) (Fin 0)) = Some v"
    using embed_loop_total [OF assms, of "replicate (nat n) (Fin 0)" "td_Tokens doc"] by auto
  then show ?thesis using assms(1) by (simp add: Embed_def NewEmbedder_def)
qed

lemma embed_call_total: "\<exists>y. Embed (NewEmbedder 1024) doc = Some (Inr y) \<and> ed_ID y = td_ID doc"
  by (rule Embed_total) simp_all

lemma load_keeps_key:
  "loadable disk x \<Longrightarrow> \<exists>y w'. load_call disk x w = (Inr y, w') \<and> doc_ID y = dl_ID x"
  by (auto simp: load_call_def loadable_def readable_def LoadData_def read_limited_def)

lemma index_keeps_key: "\<exists>y w'. index_call h x w = (Inr y, w') \<and> dr_ID y = ed_ID x"
proof -
  obtain idx' r where f: "dd_finish h x (dd_search h x (dd_count w)) (dd_count w) = (idx', r)" by fastforce
  then have "index_call h x w = (Inr r, idx')" by (simp add: index_call_def DedupAndIndex_def)
  with dd_finish_counts(4) [OF f] show ?thesis by blast
qed

interpretation load: keyed_stage "load_call disk" dl_ID doc_ID "loadable disk" for disk
  by unfold_locales (rule load_keeps_key)

interpretation tok: keyed_stage "tokenize_call u" doc_ID td_ID "\<lambda>_. True" for u
  by unfold_locales (simp add: tokenize_call_def Tokenize_def)

interpretation emb: keyed_stage "embed_call (NewEmbedder 1024)" td_ID ed_ID "\<lambda>_. True"
proof unfold_locales
  fix x :: tokenized_doc and w :: unit
  show "\<exists>y w'. embed_call (NewEmbedder 1024) x w = (Inr y, w') \<and> ed_ID y = td_ID x"
    using embed_call_total [of x] by (auto simp: embed_call_def)
qed

interpretation idx: keyed_stage "index_call h" ed_ID dr_ID "\<lambda>_. True" for h
  by unfold_locales (rule index_keeps_key)


section \<open>Documents in flight\<close>

definition in_flight :: "'g pipeline \<Rightarrow> string multiset" where
  "in_flight p =
     mset (map dl_ID (lg_pending (pl_gen p))) + mset (map dl_ID (ch_buf (lg_out (pl_gen p)))) +
     load.keys_held (pl_load p) + mset (map doc_ID (ch_buf (ss_out (pl_load p)))) +
     tok.keys_held (pl_tok p) + mset (map td_ID (ch_buf (ss_out (pl_tok p)))) +
     emb.keys_held (pl_emb p) + mset (map ed_ID (ch_buf (ss_out (pl_emb p)))) +
     idx.keys_held (pl_idx p) + mset (map dr_ID (ch_buf (ss_out (pl_idx p))))"

text \<open>Everything the proofs below use of a reachable pipeline whose generator has not wrapped its counter.\<close>

definition pl_ready ::
  "disk \<Rightarrow> unicode_tables \<Rightarrow> 'g hnsw \<Rightarrow> rng \<Rightarrow> 'g embedding_index \<Rightarrow> bytes \<Rightarrow> 'g pipeline \<Rightarrow> bool" where
  "pl_ready disk u h seeded ix content p \<longleftrightarrow>
     pl_parts disk u h seeded ix p \<and> pl_links p \<and> uncancelled p \<and> readable disk content \<and>
     lg_requests (pl_gen p) < 2 ^ 63"

lemma ready_dest:
  assumes "pl_ready disk u h seeded ix content p"
  shows "pl_parts disk u h seeded ix p" "pl_links p" "uncancelled p" "readable disk content"
    "lg_requests (pl_gen p) < 2 ^ 63"
    "stage_reach (dataLoadingStage disk) () (pl_load p)" "stage_reach (tokenizeStage u) () (pl_tok p)"
    "stage_reach embedDocStage () (pl_emb p)" "stage_reach (indexStage h) ix (pl_idx p)"
    "lg_inv (pl_generator seeded) (pl_gen p)"
proof -
  show d: "pl_parts disk u h seeded ix p" "pl_links p" "uncancelled p" "readable disk content"
    "lg_requests (pl_gen p) < 2 ^ 63"
    using assms by (simp_all add: pl_ready_def)
  show "stage_reach (dataLoadingStage disk) () (pl_load p)" "stage_reach (tokenizeStage u) () (pl_tok p)"
    "stage_reach embedDocStage () (pl_emb p)" "stage_reach (indexStage h) ix (pl_idx p)"
    using d(1) by (simp_all add: pl_parts_def)
  have "config_ok generatorConfig" by (simp add: config_ok_def generatorConfig_def int64_range_def)
  then show "lg_inv (pl_generator seeded) (pl_gen p)"
    by (intro lg_reach_inv) (use d(1) in \<open>simp_all add: pl_parts_def NewLoadGenerator_def\<close>)
qed

lemma pl_issued:
  assumes "pl_ready disk u h seeded ix content p"
  shows "list_all2 (valid_request generatorConfig) (map int [0..<length (lg_issued (pl_gen p))]) (lg_issued (pl_gen p))"
    and "lg_requests (pl_gen p) = int (length (lg_issued (pl_gen p)))"
    and "map dl_ID (lg_issued (pl_gen p)) =
      map (\<lambda>i. request_id generatorConfig (int i)) [0..<length (lg_issued (pl_gen p))]"
    and "distinct (map dl_ID (lg_issued (pl_gen p)))"
proof -
  let ?xs = "lg_issued (pl_gen p)"
  have c: "lg_config (pl_generator seeded) = generatorConfig" by (simp add: NewLoadGenerator_def)
  show v: "list_all2 (valid_request generatorConfig) (map int [0..<length ?xs]) ?xs"
    and "lg_requests (pl_gen p) = int (length ?xs)"
    using ready_dest [OF assms] by (simp_all add: lg_inv_def c)
  show ids: "map dl_ID ?xs = map (\<lambda>i. request_id generatorConfig (int i)) [0..<length ?xs]"
    by (rule nth_equalityI) (use v in \<open>simp_all add: list_all2_conv_all_nth valid_request_def\<close>)
  show "distinct (map dl_ID ?xs)"
    unfolding ids by (simp add: distinct_map inj_on_def request_id_inject)
qed

lemma valid_request_loadable:
  "readable disk content \<Longrightarrow> valid_request generatorConfig n req \<Longrightarrow> loadable disk req"
  by (auto simp: loadable_def valid_request_def)

lemma fed_loadable:
  assumes "pl_ready disk u h seeded ix content p"
  shows "\<forall>x \<in> set (ss_fed (pl_load p)). loadable disk x"
proof -
  note d = ready_dest [OF assms]
  have "ss_fed (pl_load p) = lg_got (pl_gen p) @ ch_buf (lg_out (pl_gen p))"
    using stage_reach_inv [OF d(6)] d(2) by (simp add: stage_inv_def pl_links_def lg_linked_def)
  then have "set (ss_fed (pl_load p)) \<subseteq> set (lg_issued (pl_gen p))" by (auto simp: lg_issued_def)
  moreover have "loadable disk x" if "x \<in> set (lg_issued (pl_gen p))" for x
    using pl_issued(1) [OF assms] that valid_request_loadable [OF d(4)]
    unfolding list_all2_conv_all_nth in_set_conv_nth by auto
  ultimately show ?thesis by blast
qed

lemma pl_stage_keys:
  assumes "pl_ready disk u h seeded ix content p"
  shows "ss_errors (pl_load p) = 0" "ss_errors (pl_tok p) = 0" "ss_errors (pl_emb p) = 0" "ss_errors (pl_idx p) = 0"
    and "mset (map dl_ID (ss_taken (pl_load p))) = load.keys_held (pl_load p) +
      mset (map doc_ID (ch_buf (ss_out (pl_load p)))) + mset (map doc_ID (ss_got (pl_load p)))"
    and "mset (map doc_ID (ss_taken (pl_tok p))) = tok.keys_held (pl_tok p) +
      mset (map td_ID (ch_buf (ss_out (pl_tok p)))) + mset (map td_ID (ss_got (pl_tok p)))"
    and "mset (map td_ID (ss_taken (pl_emb p))) = emb.keys_held (pl_emb p) +
      mset (map ed_ID (ch_buf (ss_out (pl_emb p)))) + mset (map ed_ID (ss_got (pl_emb p)))"
    and "mset (map ed_ID (ss_taken (pl_idx p))) = idx.keys_held (pl_idx p) +
      mset (map dr_ID (ch_buf (ss_out (pl_idx p)))) + mset (map dr_ID (ss_got (pl_idx p)))"
proof -
  note d = ready_dest [OF assms]
  note o = pl_open [OF d(1-3)]
  note l = load.stage_keys [OF d(6) _ fed_loadable [OF assms] o(6)]
  note t = tok.stage_keys [OF d(7) _ _ o(7)]
  note e = emb.stage_keys [OF d(8) _ _ o(8)]
  note i = idx.stage_keys [OF d(9) _ _ o(9)]
  show "ss_errors (pl_load p) = 0" "ss_errors (pl_tok p) = 0" "ss_errors (pl_emb p) = 0" "ss_errors (pl_idx p) = 0"
    using l(1) t(1) e(1) i(1) by simp_all
  show "mset (map dl_ID (ss_taken (pl_load p))) = load.keys_held (pl_load p) +
      mset (map doc_ID (ch_buf (ss_out (pl_load p)))) + mset (map doc_ID (ss_got (pl_load p)))"
    by (rule l(2)) simp
  show "mset (map doc_ID (ss_taken (pl_tok p))) = tok.keys_held (pl_tok p) +
      mset (map td_ID (ch_buf (ss_out (pl_tok p)))) + mset (map td_ID (ss_got (pl_tok p)))"
    by (rule t(2)) simp_all
  show "mset (map td_ID (ss_taken (pl_emb p))) = emb.keys_held (pl_emb p) +
      mset (map ed_ID (ch_buf (ss_out (pl_emb p)))) + mset (map ed_ID (ss_got (pl_emb p)))"
    by (rule e(2)) simp_all
  show "mset (map ed_ID (ss_taken (pl_idx p))) = idx.keys_held (pl_idx p) +
      mset (map dr_ID (ch_buf (ss_out (pl_idx p)))) + mset (map dr_ID (ss_got (pl_idx p)))"
    by (rule i(2)) simp_all
qed

text \<open>Every id that was ever issued is in flight once or has been printed once.\<close>

lemma pl_conservation:
  assumes "pl_ready disk u h seeded ix content p"
  shows "mset (map dl_ID (lg_issued (pl_gen p))) = in_flight p + mset (map dr_ID (pl_printed p))"
proof -
  note k = pl_stage_keys(5-8) [OF assms]
  have l: "lg_got (pl_gen p) = ss_taken (pl_load p)" "ss_got (pl_load p) = ss_taken (pl_tok p)"
    "ss_got (pl_tok p) = ss_taken (pl_emb p)" "ss_got (pl_emb p) = ss_taken (pl_idx p)"
    "pl_printed p = ss_got (pl_idx p)"
    using ready_dest(2) [OF assms] by (simp_all add: pl_links_def linked_def lg_linked_def)
  have "mset (map dl_ID (lg_issued (pl_gen p))) = mset (map dl_ID (ss_taken (pl_load p))) +
      mset (map dl_ID (ch_buf (lg_out (pl_gen p)))) + mset (map dl_ID (lg_pending (pl_gen p)))"
    by (simp add: lg_issued_def l(1))
  then show ?thesis
    unfolding k(1) l(2) k(2) l(3) k(3) l(4) k(4) in_flight_def l(5) by (simp only: ac_simps)
qed

lemma chan_small: "stage_reach sg w s \<Longrightarrow> length (ch_buf (ss_out s)) \<le> nat (sg_BufferSize sg)"
  "stage_reach sg w s \<Longrightarrow> length (ss_workers s) = nat (sg_Workers sg)"
  by (drule stage_reach_inv, simp add: stage_inv_def chan_ok_def)+

lemma in_flight_size:
  assumes "pl_ready disk u h seeded ix content p"
  shows "size (in_flight p) \<le> 507"
proof -
  note d = ready_dest [OF assms]
  note w = chan_small [OF d(6)] chan_small [OF d(7)] chan_small [OF d(8)] chan_small [OF d(9)]
  have "length (lg_pending (pl_gen p)) \<le> 1" by (simp add: lg_pending_def split: lg_phase.split)
  moreover have "length (ch_buf (lg_out (pl_gen p))) \<le> 100" using d(10) by (simp add: lg_inv_def chan_ok_def)
  moreover have "size (load.keys_held (pl_load p)) \<le> 1" using load.keys_held_size [of "pl_load p"] w by simp
  moreover have "size (tok.keys_held (pl_tok p)) \<le> 3" using tok.keys_held_size [of "pl_tok p"] w by simp
  moreover have "size (emb.keys_held (pl_emb p)) \<le> 1" using emb.keys_held_size [of "pl_emb p"] w by simp
  moreover have "size (idx.keys_held (pl_idx p)) \<le> 1" using idx.keys_held_size [of "pl_idx p"] w by simp
  ultimately show ?thesis using w by (simp add: in_flight_def)
qed


section \<open>Origin of a result\<close>

lemma run_calls_origin:
  "run_calls fn w xs = (w', cs) \<Longrightarrow> y \<in> set (successes cs) \<Longrightarrow> \<exists>x \<in> set xs. \<exists>v v'. fn x v = (Inr y, v')"
proof (induction xs arbitrary: w' cs rule: rev_induct)
  case (snoc x xs)
  obtain v ds where d: "run_calls fn w xs = (v, ds)" by fastforce
  obtain r v' where r: "fn x v = (r, v')" by fastforce
  have "cs = ds @ [(x, r)]" using snoc.prems(1) by (simp add: run_calls_snoc d r)
  then have "y \<in> set (successes ds) \<or> r = Inr y" using snoc.prems(2) by (cases r) auto
  then show ?case using snoc.IH [OF d] r by auto
qed simp

lemma stage_origin:
  assumes "stage_reach sg w s" and "y \<in> set (ss_got s)"
  shows "\<exists>x \<in> set (ss_taken s). \<exists>v v'. sg_fn sg x v = (Inr y, v')"
proof -
  have inv: "stage_inv sg w s" by (rule stage_reach_inv [OF assms(1)])
  then have t: "mset (ss_taken s) = total held_in s + mset (map fst (ss_calls s))"
    and o: "mset (successes (ss_calls s)) = mset (ss_got s) + mset (ch_buf (ss_out s)) + total held_out s + mset (ss_dropped s)"
    and r: "run_calls (sg_fn sg) w (map fst (ss_calls s)) = (ss_world s, ss_calls s)"
    by (simp_all add: stage_inv_def)
  have "y \<in># mset (successes (ss_calls s))" unfolding o using assms(2) by simp
  then have "y \<in> set (successes (ss_calls s))" by simp
  from run_calls_origin [OF r this] obtain x v v' where x: "x \<in> set (map fst (ss_calls s))" "sg_fn sg x v = (Inr y, v')"
    by blast
  have "x \<in># mset (ss_taken s)" unfolding t using x(1) by simp
  with x(2) show ?thesis by (metis set_mset_mset)
qed

text \<open>What the index is given for a request: the embedded tokens of the slice it names.\<close>

definition document_of :: "disk \<Rightarrow> unicode_tables \<Rightarrow> data_loading_config \<Rightarrow> embedded_doc \<Rightarrow> bool" where
  "document_of disk u req ed \<longleftrightarrow>
     (\<exists>doc td. LoadData disk req = Inr doc \<and> Tokenize u doc = Inr td \<and>
       Embed (NewEmbedder 1024) td = Some (Inr ed) \<and> ed_ID ed = dl_ID req)"

lemma index_inputs:
  assumes "pl_ready disk u h seeded ix content p" and "ed \<in> set (ss_taken (pl_idx p))"
  shows "\<exists>req \<in> set (lg_issued (pl_gen p)). document_of disk u req ed"
proof -
  note d = ready_dest [OF assms(1)]
  have l: "lg_got (pl_gen p) = ss_taken (pl_load p)" "ss_got (pl_load p) = ss_taken (pl_tok p)"
    "ss_got (pl_tok p) = ss_taken (pl_emb p)" "ss_got (pl_emb p) = ss_taken (pl_idx p)"
    using d(2) by (simp_all add: pl_links_def linked_def lg_linked_def)
  obtain td v v' where td: "td \<in> set (ss_got (pl_tok p))" "embed_call (NewEmbedder 1024) td v = (Inr ed, v')"
    using stage_origin [OF d(8)] assms(2) l by auto
  obtain doc x x' where doc: "doc \<in> set (ss_got (pl_load p))" "tokenize_call u doc x = (Inr td, x')"
    using stage_origin [OF d(7)] td(1) l by auto
  obtain req y y' where req: "req \<in> set (lg_got (pl_gen p))" "load_call disk req y = (Inr doc, y')"
    using stage_origin [OF d(6)] doc(1) l by auto
  have 1: "LoadData disk req = Inr doc" "Tokenize u doc = Inr td"
    using req(2) doc(2) by (auto simp: load_call_def tokenize_call_def split: sum.splits)
  obtain e where e: "Embed (NewEmbedder 1024) td = Some (Inr e)" "ed_ID e = td_ID td" using embed_call_total by blast
  with td(2) have 2: "e = ed" by (simp add: embed_call_def)
  have "ed_ID ed = dl_ID req"
    using e 1 2 by (auto simp: Tokenize_def LoadData_def split: option.splits sum.splits if_splits)
  then have "document_of disk u req ed" using 1 e 2 by (auto simp: document_of_def)
  then show ?thesis using req(1) by (auto simp: lg_issued_def)
qed

section \<open>The index stage\<close>

lemma dedup_all_length: "length (snd (dedup_all h xs ix)) = length xs"
proof (induction xs arbitrary: ix)
  case (Cons x xs)
  obtain ix' r where D: "DedupAndIndex h x ix = (ix', r)" by fastforce
  obtain ix'' rs where "dedup_all h xs ix' = (ix'', rs)" by fastforce
  then show ?case using Cons.IH [of ix'] by (simp add: D)
qed simp

lemma run_index:
  "run_calls (index_call h) ix xs = (fst (dedup_all h xs ix), zip xs (snd (dedup_all h xs ix)))"
  by (induction xs arbitrary: ix) (auto simp: index_call_def Let_def split: prod.splits)

lemma successes_zip: "length rs = length xs \<Longrightarrow> successes (zip xs (map Inr rs)) = rs"
  by (induction rs xs rule: list_induct2) (simp_all add: successes_def List.map_filter_def)

lemma distinct_submset: "mset xs \<subseteq># mset ys \<Longrightarrow> distinct ys \<Longrightarrow> distinct xs"
proof -
  assume "mset xs \<subseteq># mset ys" and d: "distinct ys"
  then obtain M where "mset ys = mset xs + M" by (auto simp: mset_subset_eq_exists_conv)
  moreover obtain zs where "mset zs = M" using ex_mset by blast
  ultimately have "mset ys = mset (xs @ zs)" by simp
  then have "distinct (xs @ zs)" using d by (metis mset_eq_imp_distinct_iff)
  then show ?thesis by simp
qed

lemma index_distinct:
  assumes "pl_ready disk u h seeded ix content p"
  shows "distinct (map ed_ID (ss_taken (pl_idx p)))"
proof -
  have k: "mset (map ed_ID (ss_taken (pl_idx p))) \<subseteq># mset (map dl_ID (lg_issued (pl_gen p)))"
  proof -
    note d = ready_dest [OF assms]
    have "pl_printed p = ss_got (pl_idx p)" using d(2) by (simp add: pl_links_def)
    then have "mset (map ed_ID (ss_taken (pl_idx p))) = idx.keys_held (pl_idx p) +
      mset (map dr_ID (ch_buf (ss_out (pl_idx p)))) + mset (map dr_ID (pl_printed p))"
      using pl_stage_keys(8) [OF assms] by simp
    then show ?thesis
      unfolding pl_conservation [OF assms] in_flight_def by (simp add: subset_mset.add_mono ac_simps)
  qed
  then show ?thesis by (rule distinct_submset) (rule pl_issued(4) [OF assms])
qed

lemma index_results:
  assumes ready: "pl_ready disk u h seeded ix content p" and ok: "hnsw_ok h nodes dst"
    and ix: "NewEmbeddingIndex h threshold metrics = Inr ix"
  defines "docs \<equiv> map fst (ss_calls (pl_idx p))"
  shows "\<exists>rs. length rs = length docs \<and> distinct (map ed_ID docs) \<and> (\<exists>zs. rs = pl_printed p @ zs) \<and>
    nodes (ix_graph (ss_world (pl_idx p))) = stored (kept docs rs) \<and>
    im_processed (ix_metrics (ss_world (pl_idx p))) = im_processed metrics + length docs \<and>
    im_duplicates (ix_metrics (ss_world (pl_idx p))) = im_duplicates metrics + dup_count rs \<and>
    (\<forall>i < length docs. verdict_ok dst threshold (kept (take i docs) (take i rs)) (docs ! i) (rs ! i))"
proof -
  note d = ready_dest [OF ready]
  have i0: "nodes (ix_graph ix) = stored []" "ix_threshold ix = threshold"
    "im_processed (ix_metrics ix) = im_processed metrics" "im_duplicates (ix_metrics ix) = im_duplicates metrics"
    using ix hnsw_new [OF ok] by (auto simp: NewEmbeddingIndex_def split: if_splits)
  obtain w where o: "ss_taken (pl_idx p) = docs @ holding_in w"
      "successes (ss_calls (pl_idx p)) = ss_got (pl_idx p) @ ch_buf (ss_out (pl_idx p)) @ holding_out w @ ss_dropped (pl_idx p)"
    using stage_reach_order [OF d(9)] by (auto simp: order_inv_def docs_def)
  have dis: "distinct (map ed_ID docs)" using index_distinct [OF ready] unfolding o(1) by simp
  have run: "run_calls (index_call h) ix docs = (ss_world (pl_idx p), ss_calls (pl_idx p))"
    using stage_reach_inv [OF d(9)] by (simp add: stage_inv_def docs_def)
  from dedup_all_spec [OF ok i0(1), of docs] dis obtain ix' rs where r: "dedup_all h docs ix = (ix', map Inr rs)"
      "length rs = length docs" "im_processed (ix_metrics ix') = im_processed (ix_metrics ix) + length docs"
      "im_duplicates (ix_metrics ix') = im_duplicates (ix_metrics ix) + dup_count rs"
      "nodes (ix_graph ix') = stored (kept docs rs)"
      "\<forall>i < length docs. verdict_ok dst (ix_threshold ix) (kept (take i docs) (take i rs)) (docs ! i) (rs ! i)"
    by auto
  have w: "ss_world (pl_idx p) = ix'" "ss_calls (pl_idx p) = zip docs (map Inr rs)" using run by (simp_all add: run_index r(1))
  have "rs = ss_got (pl_idx p) @ ch_buf (ss_out (pl_idx p)) @ holding_out w @ ss_dropped (pl_idx p)"
    using o(2) successes_zip [OF r(2)] by (simp add: w(2))
  then have "\<exists>zs. rs = pl_printed p @ zs" using d(2) by (simp add: pl_links_def)
  then show ?thesis using r dis i0 by (intro exI [of _ rs]) (simp add: w(1))
qed


section \<open>Progress\<close>

text \<open>What a stage still has to do for the items it holds, when an item in its output costs \<open>c\<close>.\<close>

fun item_cost :: "nat \<Rightarrow> ('i, 'o) worker \<Rightarrow> nat" where
  "item_cost c (Received_Item _) = c + 3"
| "item_cost c (Calling _) = c + 2"
| "item_cost c (Emitting _) = c + 1"
| "item_cost c _ = 0"

definition stage_work :: "nat \<Rightarrow> ('i, 'o, 'w) stage_state \<Rightarrow> nat" where
  "stage_work c s = total (item_cost c) s + c * length (ch_buf (ss_out s))"

lemma stage_work_step:
  assumes "pool_step sg s t" and "\<not> ss_cancelled s" and "\<not> ch_closed (ss_in s)" and "\<not> ch_closed (ss_out s)"
    and "ss_wg s \<noteq> 0"
  shows "(c + 4) * length (ch_buf (ss_in t)) + stage_work c t < (c + 4) * length (ch_buf (ss_in s)) + stage_work c s"
  using assms(1)
proof cases
  case (w_receive i x in')
  then show ?thesis
    using total_update [OF w_receive(2), of "item_cost c" "Received_Item x"]
    by (auto simp: stage_work_def total_def chan_iffs)
next
  case (w_count i x)
  then show ?thesis using total_update [OF w_count(2), of "item_cost c" "Calling x"] by (simp add: stage_work_def total_def)
next
  case (w_error i x e w')
  then show ?thesis using total_update [OF w_error(2), of "item_cost c" Selecting] by (simp add: stage_work_def total_def)
next
  case (w_success i x y w')
  then show ?thesis using total_update [OF w_success(2), of "item_cost c" "Emitting y"] by (simp add: stage_work_def total_def)
next
  case (w_emit i y out')
  then show ?thesis
    using total_update [OF w_emit(2), of "item_cost c" Selecting] by (auto simp: stage_work_def total_def chan_iffs)
qed (use assms in \<open>simp_all add: chan_iffs\<close>)

definition pl_work :: "'g pipeline \<Rightarrow> nat" where
  "pl_work p = 18 * length (lg_pending (pl_gen p)) + 17 * length (ch_buf (lg_out (pl_gen p))) +
     stage_work 13 (pl_load p) + stage_work 9 (pl_tok p) + stage_work 5 (pl_emb p) + stage_work 1 (pl_idx p)"

lemma stage_work_sees [simp]:
  "stage_work c (see_input d s) = stage_work c s"
  "stage_work c (see_output e s) + c * length (ch_buf (ss_out s)) = stage_work c s + c * length (ch_buf e)"
  by (simp_all add: stage_work_def total_def)

lemma lg_pending_sees [simp]: "lg_pending (see_requests c g) = lg_pending g"
  by (simp add: lg_pending_def)

lemma wg_nonzero:
  assumes "stage_reach sg w s" and "\<not> ch_closed (ss_in s)" "\<not> ss_cancelled s" "0 < sg_Workers sg"
  shows "ss_wg s \<noteq> 0"
proof -
  have inv: "stage_inv sg w s" by (rule stage_reach_inv [OF assms(1)])
  have "ss_workers s \<noteq> []" using inv assms(4) by (auto simp: stage_inv_def)
  then show ?thesis
    using inv total_alive_zero [of s] stage_stays_open(2) [OF assms(1,3,4,2)]
    by (cases "ss_workers s") (auto simp: stage_inv_def)
qed

lemma stage_work_reach:
  assumes "stage_reach sg w s" and "pool_step sg s t" and "\<not> ss_cancelled s" and "\<not> ch_closed (ss_in s)"
    and "0 < sg_Workers sg"
  shows "(c + 4) * length (ch_buf (ss_in t)) + stage_work c t < (c + 4) * length (ch_buf (ss_in s)) + stage_work c s"
  by (rule stage_work_step [OF assms(2-4) stage_stays_open(1) [OF assms(1,3,5,4)] wg_nonzero [OF assms(1,4,3,5)]])

lemma generator_work:
  assumes "lg_step g g'" and "\<not> lg_done g'" and "lg_got g' = lg_got g"
  shows "lg_requests g < lg_requests g' \<or>
    lg_requests g' = lg_requests g \<and> 18 * length (lg_pending g') + 17 * length (ch_buf (lg_out g')) <
      18 * length (lg_pending g) + 17 * length (ch_buf (lg_out g))"
  using assms by cases (auto simp: lg_pending_def chan_iffs)

lemma pl_step_work:
  assumes parts: "pl_parts disk u h seeded ix p" "pl_links p" "uncancelled p" and "pl_step disk u h p q"
  shows "lg_requests (pl_gen p) < lg_requests (pl_gen q) \<or>
    lg_requests (pl_gen q) = lg_requests (pl_gen p) \<and> pl_work q < pl_work p"
proof -
  note o = pl_open [OF parts]
  note r = parts(1) [unfolded pl_parts_def]
  note l = parts(2) [unfolded pl_links_def linked_def lg_linked_def] and c = parts(3) [unfolded uncancelled_def]
  show ?thesis
    using assms(4)
  proof cases
    case (pl_generate gen)
    then show ?thesis using generator_work [OF pl_generate(2-4)] by (auto simp: pl_work_def)
  next
    case (pl_load_step s)
    have "(13 + 4) * length (ch_buf (ss_in s)) + stage_work 13 s <
        (13 + 4) * length (ch_buf (ss_in (pl_load p))) + stage_work 13 (pl_load p)"
      by (rule stage_work_reach [OF _ pl_load_step(2)]) (use r c l o in simp_all)
    then show ?thesis using l by (simp add: pl_work_def pl_load_step(1))
  next
    case (pl_tok_step s)
    have "(9 + 4) * length (ch_buf (ss_in s)) + stage_work 9 s <
        (9 + 4) * length (ch_buf (ss_in (pl_tok p))) + stage_work 9 (pl_tok p)"
      by (rule stage_work_reach [OF _ pl_tok_step(2)]) (use r c l o in simp_all)
    then show ?thesis using l stage_work_sees(2) [of 13 "ss_in s" "pl_load p"] by (simp add: pl_work_def pl_tok_step(1))
  next
    case (pl_emb_step s)
    have "(5 + 4) * length (ch_buf (ss_in s)) + stage_work 5 s <
        (5 + 4) * length (ch_buf (ss_in (pl_emb p))) + stage_work 5 (pl_emb p)"
      by (rule stage_work_reach [OF _ pl_emb_step(2)]) (use r c l o in simp_all)
    then show ?thesis using l stage_work_sees(2) [of 9 "ss_in s" "pl_tok p"] by (simp add: pl_work_def pl_emb_step(1))
  next
    case (pl_idx_step s)
    have "(1 + 4) * length (ch_buf (ss_in s)) + stage_work 1 s <
        (1 + 4) * length (ch_buf (ss_in (pl_idx p))) + stage_work 1 (pl_idx p)"
      by (rule stage_work_reach [where w = ix, OF _ pl_idx_step(2)]) (use r c l o in simp_all)
    then show ?thesis using l stage_work_sees(2) [of 5 "ss_in s" "pl_emb p"] by (simp add: pl_work_def pl_idx_step(1))
  next
    case (pl_print x d)
    then have "length (ch_buf d) < length (ch_buf (ss_out (pl_idx p)))" by (auto simp: chan_iffs)
    then show ?thesis
      using stage_work_sees(2) [of 1 d "pl_idx p"] by (simp add: pl_work_def pl_print(1))
  next
    case pl_return
    then show ?thesis using o(5) by (simp add: chan_iffs)
  qed
qed

text \<open>A pipeline in which only the generator's clock can move has nothing in flight.\<close>

lemma quiet_stage:
  assumes reach: "stage_reach sg w s" and stuck: "\<nexists>t. pool_step sg s t" and "\<not> ss_cancelled s"
    and "\<not> ch_closed (ss_in s)" and pos: "0 < sg_Workers sg" and room: "length (ch_buf (ss_out s)) < ch_cap (ss_out s)"
  shows "set (ss_workers s) \<subseteq> {Selecting}" and "ch_buf (ss_in s) = []"
proof -
  note o = stage_stays_open [OF reach assms(3) pos assms(4)]
  have w: "p = Selecting \<and> chan_recv (ss_in s) = Recv_Blocks" if "p \<in> set (ss_workers s)" for p
  proof -
    from that obtain i where "at_worker s i p" by (auto simp: in_set_conv_nth at_worker_def)
    then show ?thesis
      using blocked_worker [OF _ stuck o(1)] o(2) that room o(1) by (auto simp: chan_send_def)
  qed
  then show "set (ss_workers s) \<subseteq> {Selecting}" by auto
  have "ss_workers s \<noteq> []" using stage_reach_inv [OF reach] pos by (auto simp: stage_inv_def)
  then have "chan_recv (ss_in s) = Recv_Blocks" using w by (cases "ss_workers s") auto
  then show "ch_buf (ss_in s) = []" by (simp add: chan_recv_def split: list.splits if_splits)
qed

lemma out_cap: "stage_reach sg w s \<Longrightarrow> ch_cap (ss_out s) = nat (sg_BufferSize sg)"
  by (drule stage_reach_inv) (simp add: stage_inv_def)

lemma not_returned:
  assumes "pl_reach disk u h seeded metrics p"
  shows "\<not> pl_returned p"
  using assms
proof induction
  case (pl_init p)
  then show ?case by (auto simp: pl_start_def split: option.splits sum.splits)
next
  case (pl_next p q)
  obtain ix where "pl_parts disk u h seeded ix p" "pl_links p" "uncancelled p"
    using pl_reach_parts [OF pl_next(1)] by blast
  then have "\<not> ch_closed (ss_out (pl_idx p))" by (rule pl_open)
  with pl_next(2,3) show ?case by cases (auto simp: chan_iffs)
qed

lemma quiet_empty:
  assumes ready: "pl_ready disk u h seeded ix content p" and "\<not> pl_returned p"
    and quiet: "\<And>q. pl_step disk u h p q \<Longrightarrow> lg_requests (pl_gen p) < lg_requests (pl_gen q)"
  shows "in_flight p = {#}"
proof -
  note d = ready_dest [OF ready] and o = pl_open [OF ready_dest(1-3) [OF ready]]
  note l = d(2) [unfolded pl_links_def linked_def lg_linked_def] and c = d(3) [unfolded uncancelled_def]
  have out: "ch_buf (ss_out (pl_idx p)) = []"
  proof (rule ccontr)
    assume "ch_buf (ss_out (pl_idx p)) \<noteq> []"
    then obtain r d where "chan_recv (ss_out (pl_idx p)) = Received r d"
      by (cases "ch_buf (ss_out (pl_idx p))") (auto simp: chan_recv_def)
    from quiet [OF pl_print [OF assms(2) this]] show False by simp
  qed
  have s4: "\<nexists>t. pool_step (indexStage h) (pl_idx p) t" using quiet pl_idx_step by fastforce
  have q4: "set (ss_workers (pl_idx p)) \<subseteq> {Selecting}" "ch_buf (ss_in (pl_idx p)) = []"
    using quiet_stage [OF d(9) s4] c o l out out_cap [OF d(9)] by simp_all
  have s3: "\<nexists>t. pool_step embedDocStage (pl_emb p) t" using quiet pl_emb_step by fastforce
  have q3: "set (ss_workers (pl_emb p)) \<subseteq> {Selecting}" "ch_buf (ss_in (pl_emb p)) = []"
    using quiet_stage [OF d(8) s3] c o l q4 out_cap [OF d(8)] by simp_all
  have s2: "\<nexists>t. pool_step (tokenizeStage u) (pl_tok p) t" using quiet pl_tok_step by fastforce
  have q2: "set (ss_workers (pl_tok p)) \<subseteq> {Selecting}" "ch_buf (ss_in (pl_tok p)) = []"
    using quiet_stage [OF d(7) s2] c o l q3 out_cap [OF d(7)] by simp_all
  have s1: "\<nexists>t. pool_step (dataLoadingStage disk) (pl_load p) t" using quiet pl_load_step by fastforce
  have q1: "set (ss_workers (pl_load p)) \<subseteq> {Selecting}" "ch_buf (ss_in (pl_load p)) = []"
    using quiet_stage [OF d(6) s1] c o l q2 out_cap [OF d(6)] by simp_all
  have "lg_pending (pl_gen p) = []"
  proof (cases "lg_phase (pl_gen p)")
    case (Sending req)
    have "chan_send req (lg_out (pl_gen p)) = Sent ((lg_out (pl_gen p))\<lparr>ch_buf := [req]\<rparr>)"
      using d(10) q1(2) l o(1) by (simp add: chan_send_def lg_inv_def)
    from pl_generate [OF lg_send [OF Sending this]] d(1)
    have "pl_step disk u h p (p\<lparr>pl_gen := (pl_gen p)\<lparr>lg_out := (lg_out (pl_gen p))\<lparr>ch_buf := [req]\<rparr>, lg_phase := Waiting,
        lg_gen := (lg_gen (pl_gen p))\<lparr>lg_counter := wrap64 (lg_counter (lg_gen (pl_gen p)) + 1)\<rparr>\<rparr>,
      pl_load := see_input ((lg_out (pl_gen p))\<lparr>ch_buf := [req]\<rparr>) (pl_load p)\<rparr>)"
      by (simp add: pl_parts_def)
    from quiet [OF this] show ?thesis by simp
  qed (simp_all add: lg_pending_def)
  then show ?thesis
    using out q1 q2 q3 q4 l load.keys_held_empty tok.keys_held_empty emb.keys_held_empty idx.keys_held_empty
    by (simp add: in_flight_def)
qed


section \<open>Starting\<close>

lemma threshold_range: "\<exists>y. threshold = Fin y \<and> 0 < y \<and> y < 1"
proof -
  have "(2 :: rat) powi (- 126) \<le> \<bar>4 / 5\<bar>" "\<bar>4 / 5 :: rat\<bar> \<le> 2 ^ 100" by (simp_all add: power_int_minus)
  from rnd32_error [OF this] obtain y where y: "rnd32 (4 / 5) = Fin y" "\<bar>y - 4 / 5\<bar> \<le> \<bar>4 / 5\<bar> * 2 powi (- 24)" by blast
  have "\<bar>4 / 5\<bar> * 2 powi (- 24) < (1 / 10 :: rat)" by (simp add: power_int_minus)
  with y(2) have "\<bar>y - 4 / 5\<bar> < 1 / 10" by linarith
  then have "y - 4 / 5 < 1 / 10" "- (y - 4 / 5) < 1 / 10" by (simp_all only: abs_less_iff)
  then have "0 < y \<and> y < 1" by linarith
  with y(1) show ?thesis by (simp add: threshold_def)
qed

lemma threshold_accepted: "\<exists>ix. NewEmbeddingIndex h threshold metrics = Inr ix"
proof -
  obtain y where y: "threshold = Fin y" "0 < y" "y < 1" using threshold_range by blast
  show ?thesis unfolding y(1) NewEmbeddingIndex_def f_le_def f_lt_def using y(2,3) by simp
qed

lemma pl_starts: "\<exists>p. pl_start disk u h seeded metrics = Some p"
proof -
  have "\<exists>g. lg_start (pl_generator seeded) = Some g"
    by (simp add: lg_start_def NewLoadGenerator_def generatorConfig_def ticker_interval_def)
  then obtain g where "lg_start (pl_generator seeded) = Some g" ..
  moreover obtain l where "stage_start (dataLoadingStage disk) () = Some l"
    using NewStage_starts [of "''load''" 1 100 "make_chan 100" "load_call disk" "()"]
    by (auto simp: dataLoadingStage_def)
  moreover obtain t where "stage_start (tokenizeStage u) () = Some t"
    using NewStage_starts [of "''tokenize''" 3 100 "make_chan 100" "tokenize_call u" "()"]
    by (auto simp: tokenizeStage_def)
  moreover obtain e where "stage_start embedDocStage () = Some e"
    using NewStage_starts [of "''embed''" 1 100 "make_chan 100" "embed_call (NewEmbedder 1024)" "()"]
    by (auto simp: embedDocStage_def)
  moreover obtain ix where "NewEmbeddingIndex h threshold metrics = Inr ix" using threshold_accepted by blast
  moreover obtain i where "stage_start (indexStage h) ix = Some i"
    using NewStage_starts [of "''index''" 1 100 "make_chan 100" "index_call h" "ix"]
    by (auto simp: indexStage_def)
  ultimately show ?thesis by (simp add: pl_start_def)
qed

lemma reach_ready:
  assumes "pl_reach disk u h seeded metrics p" and "readable disk content" and "lg_requests (pl_gen p) < 2 ^ 63"
  shows "\<exists>ix. NewEmbeddingIndex h threshold metrics = Inr ix \<and> pl_ready disk u h seeded ix content p"
  using pl_reach_parts [OF assms(1)] assms(2,3) by (auto simp: pl_ready_def)

section \<open>Properties\<close>


text \<open>
  C17: what the pipeline prints is a greedy deduplication of the requested slices, in the order in which they reach the
  index.  Each of those documents is the embedding of the tokens of the slice its request names; the
  results printed are the first of their verdicts, each verdict refers to the documents kept before it and to the
  threshold 0.8 in single precision; the graph holds the kept documents, and the two counters of the
  index count the documents and the duplicates.
\<close>

theorem pipeline_dedup:
  assumes "pl_reach disk u h seeded metrics p" and "readable disk content" and "lg_requests (pl_gen p) < 2 ^ 63"
    and "hnsw_ok h nodes dst"
  shows "\<exists>docs rs. length rs = length docs \<and> distinct (map ed_ID docs) \<and> (\<exists>zs. rs = pl_printed p @ zs) \<and>
    (\<forall>d \<in> set docs. \<exists>req \<in> set (lg_issued (pl_gen p)). document_of disk u req d) \<and>
    (\<forall>i < length docs. verdict_ok dst (rnd32 (4 / 5)) (kept (take i docs) (take i rs)) (docs ! i) (rs ! i)) \<and>
    nodes (ix_graph (ss_world (pl_idx p))) = stored (kept docs rs) \<and>
    im_processed (ix_metrics (ss_world (pl_idx p))) = im_processed metrics + length docs \<and>
    im_duplicates (ix_metrics (ss_world (pl_idx p))) = im_duplicates metrics + dup_count rs"
proof -
  obtain ix where ix: "NewEmbeddingIndex h threshold metrics = Inr ix" and r: "pl_ready disk u h seeded ix content p"
    using reach_ready [OF assms(1-3)] by blast
  let ?docs = "map fst (ss_calls (pl_idx p))"
  have "mset (ss_taken (pl_idx p)) = total held_in (pl_idx p) + mset ?docs"
    using stage_reach_inv [OF ready_dest(9) [OF r]] by (simp add: stage_inv_def)
  then have "set ?docs \<subseteq> set (ss_taken (pl_idx p))" by (metis mset_subset_eq_add_right set_mset_mono set_mset_mset)
  then have "\<forall>d \<in> set ?docs. \<exists>req \<in> set (lg_issued (pl_gen p)). document_of disk u req d"
    using index_inputs [OF r] by blast
  with index_results [OF r assms(4) ix] show ?thesis unfolding threshold_def by blast
qed

text \<open>
  C18: the pipeline works off what it is given.  Every step other than a tick of the generator's clock brings
  the documents in flight closer to the printer, so between two ticks only finitely many steps are
  possible; and when nothing but the clock can move, every document requested so far has been printed.
\<close>

theorem pipeline_drains:
  assumes "pl_reach disk u h seeded metrics p" and "readable disk content" and "lg_requests (pl_gen p) < 2 ^ 63"
  shows "(\<forall>q. pl_step disk u h p q \<longrightarrow> lg_requests (pl_gen p) < lg_requests (pl_gen q) \<or> pl_work q < pl_work p) \<and>
    ((\<forall>q. pl_step disk u h p q \<longrightarrow> lg_requests (pl_gen p) < lg_requests (pl_gen q)) \<longrightarrow>
       mset (map dr_ID (pl_printed p)) = mset (map dl_ID (lg_issued (pl_gen p))) \<and>
       lg_requests (pl_gen p) = int (length (pl_printed p)))"
proof -
  obtain ix where r: "pl_ready disk u h seeded ix content p" using reach_ready [OF assms] by blast
  have "lg_requests (pl_gen p) = int (length (pl_printed p)) \<and>
      mset (map dr_ID (pl_printed p)) = mset (map dl_ID (lg_issued (pl_gen p)))"
    if "\<forall>q. pl_step disk u h p q \<longrightarrow> lg_requests (pl_gen p) < lg_requests (pl_gen q)"
  proof -
    have "in_flight p = {#}" by (rule quiet_empty [OF r not_returned [OF assms(1)]]) (use that in blast)
    then have m: "mset (map dl_ID (lg_issued (pl_gen p))) = mset (map dr_ID (pl_printed p))"
      using pl_conservation [OF r] by simp
    have "size (mset (map dl_ID (lg_issued (pl_gen p)))) = size (mset (map dr_ID (pl_printed p)))" by (simp only: m)
    then have "length (lg_issued (pl_gen p)) = length (pl_printed p)" by (simp only: size_mset length_map)
    with m show ?thesis using pl_issued(2) [OF r] by simp
  qed
  then show ?thesis using pl_step_work [OF ready_dest(1-3) [OF r]] by blast
qed


section \<open>A run\<close>

lemma runs_dry:
  assumes "pl_reach disk u h seeded metrics p"
  shows "\<exists>q. pl_reach disk u h seeded metrics q \<and> lg_requests (pl_gen q) = lg_requests (pl_gen p) \<and>
    (\<forall>r. pl_step disk u h q r \<longrightarrow> lg_requests (pl_gen q) < lg_requests (pl_gen r))"
  using assms
proof (induction "pl_work p" arbitrary: p rule: less_induct)
  case less
  show ?case
  proof (cases "\<forall>r. pl_step disk u h p r \<longrightarrow> lg_requests (pl_gen p) < lg_requests (pl_gen r)")
    case False
    then obtain r where r: "pl_step disk u h p r" "\<not> lg_requests (pl_gen p) < lg_requests (pl_gen r)" by blast
    obtain ix where "pl_parts disk u h seeded ix p" "pl_links p" "uncancelled p"
      using pl_reach_parts [OF less.prems] by blast
    from pl_step_work [OF this r(1)] r(2)
    have w: "lg_requests (pl_gen r) = lg_requests (pl_gen p)" "pl_work r < pl_work p" by blast+
    from less.hyps [OF w(2) pl_next [OF less.prems r(1)]] show ?thesis unfolding w(1) .
  qed (use less.prems in blast)
qed

lemma one_tick: "\<exists>p. pl_reach disk u h seeded metrics p \<and> lg_requests (pl_gen p) = 1"
proof -
  obtain p where p: "pl_start disk u h seeded metrics = Some p" using pl_starts by blast
  then obtain g where g: "lg_start (pl_generator seeded) = Some g" "pl_gen p = g"
    by (auto simp: pl_start_def split: option.splits sum.splits)
  have "config_ok generatorConfig" by (simp add: config_ok_def generatorConfig_def int64_range_def)
  from generate_valid [OF this] obtain req rng' where
    r: "generateRandomDataLoadingRequest generatorConfig (lg_counter (lg_gen g)) (lg_rng (lg_gen g)) = Some (req, rng')"
    by blast
  have cfg: "lg_config (lg_gen g) = generatorConfig" "lg_requests g = 0"
    using g(1) by (auto simp: lg_start_def NewLoadGenerator_def split: option.splits)
  have "lg_step (pl_gen p) (g\<lparr>lg_gen := (lg_gen g)\<lparr>lg_rng := rng'\<rparr>, lg_phase := Sending req,
      lg_requests := lg_requests g + 1, lg_sizes := lg_sizes g @ [dl_TextSize req]\<rparr>)"
    unfolding g(2) by (rule lg_tick) (use lg_start_fresh [OF g(1)] r cfg in simp_all)
  from pl_next [OF pl_init [OF p] pl_generate [OF this]]
  show ?thesis using lg_start_fresh [OF g(1)] g(2) cfg(2) by force
qed

definition demo_pl_disk :: disk where
  "demo_pl_disk = [''data/shakespeare.txt'' \<mapsto> \<lparr>df_open_err = None, df_read_err = None, df_content = [97, 32, 98]\<rparr>]"

lemma demo_pl_readable: "readable demo_pl_disk [97, 32, 98]"
  by (simp add: readable_def demo_pl_disk_def generatorConfig_def)

abbreviation demo_pl_reach :: "(string \<times> embedding) list pipeline \<Rightarrow> bool" where
  "demo_pl_reach \<equiv> pl_reach demo_pl_disk latin1_only (scan_hnsw equal_dist) demo_rng
     \<lparr>im_threshold = [], im_processed = 0, im_duplicates = 0\<rparr>"

lemma demo_pl_quiet:
  obtains p where "demo_pl_reach p" and "lg_requests (pl_gen p) = 1" and "lg_requests (pl_gen p) < 2 ^ 63"
    and "\<forall>r. pl_step demo_pl_disk latin1_only (scan_hnsw equal_dist) p r \<longrightarrow> lg_requests (pl_gen p) < lg_requests (pl_gen r)"
proof -
  obtain p where "demo_pl_reach p" "lg_requests (pl_gen p) = 1" using one_tick by blast
  with runs_dry [of demo_pl_disk latin1_only "scan_hnsw equal_dist" demo_rng _ p] that show ?thesis by fastforce
qed

theorem pipeline_drains_witness:
  "\<exists>p. demo_pl_reach p \<and> length (pl_printed p) = 1 \<and>
     mset (map dr_ID (pl_printed p)) = mset (map dl_ID (lg_issued (pl_gen p)))"
proof -
  obtain p where p: "demo_pl_reach p" "lg_requests (pl_gen p) = 1" "lg_requests (pl_gen p) < 2 ^ 63"
    "\<forall>r. pl_step demo_pl_disk latin1_only (scan_hnsw equal_dist) p r \<longrightarrow> lg_requests (pl_gen p) < lg_requests (pl_gen r)"
    by (rule demo_pl_quiet)
  from pipeline_drains [OF p(1) demo_pl_readable p(3)] p(4)
  have "mset (map dr_ID (pl_printed p)) = mset (map dl_ID (lg_issued (pl_gen p)))"
    "lg_requests (pl_gen p) = int (length (pl_printed p))" by blast+
  with p(1,2) show ?thesis by (intro exI [of _ p]) simp
qed


theorem pipeline_dedup_witness:
  "\<exists>p docs rs. demo_pl_reach p \<and> length rs = length docs \<and> (\<exists>zs. rs = pl_printed p @ zs) \<and>
     map_of (ix_graph (ss_world (pl_idx p))) = stored (kept docs rs)"
proof -
  obtain p where p: "demo_pl_reach p" "lg_requests (pl_gen p) = 1" "lg_requests (pl_gen p) < 2 ^ 63" by (rule demo_pl_quiet)
  from pipeline_dedup [OF p(1) demo_pl_readable p(3) scan_hnsw_ok] p(1) show ?thesis by blast
qed


end
