(* ===== verification/Doc_Telemetry.thy ===== *)
theory Doc_Telemetry
  imports Doc_Pipeline
begin

text \<open>
  \<open>doc-pipeline/internal/telemetry/telemetry.go\<close>: the instruments and the methods through which the parts of the
  pipeline report.  The exporter, the meter and its instruments are third-party packages (OpenTelemetry, Prometheus) and
  a parameter; \<open>meter_ok\<close> states what is documented of a counter, that its value for a set of attributes is the
  sum of what was added with them.  The other theories count the calls of their parts; here every count is the call it stands for,
  and the exported counters are compared with the pipeline.
\<close>

section \<open>Instruments\<close>

datatype instrument_kind = Int64Counter | Int64Histogram | Float64Histogram | Float64Gauge

record instrument =
  in_kind :: instrument_kind
  in_name :: string
  in_bounds :: "gofloat list"

type_synonym attributes = "(string \<times> string) list"

datatype metric_call =
    Add_Int instrument attributes int
  | Record_Int instrument int
  | Record_Float instrument attributes gofloat

text \<open>The provider: its set-up, the creation of an instrument, a call, and the value a counter exports.\<close>

record 'm meter =
  mt_new :: "string + 'm"
  mt_create :: "'m \<Rightarrow> instrument \<Rightarrow> string + 'm"
  mt_call :: "'m \<Rightarrow> metric_call \<Rightarrow> 'm"
  mt_counter :: "'m \<Rightarrow> string \<Rightarrow> attributes \<Rightarrow> u64"

record telemetry_metrics =
  numDocumentsCounter :: instrument
  textSizeHistogram :: instrument
  processingLatencyHistogram :: instrument
  stageTotalProcessedItemsCounter :: instrument
  stageErrorsCounter :: instrument
  deduplicationThreshold :: instrument
  totalProcessedDocumentsForIndexing :: instrument
  totalDuplicateDocuments :: instrument

definition IncDataLoadingRequests :: "telemetry_metrics \<Rightarrow> int \<Rightarrow> metric_call" where
  "IncDataLoadingRequests t n = Add_Int (numDocumentsCounter t) [] n"

definition RecordDataLoadingRequestTextSize :: "telemetry_metrics \<Rightarrow> int \<Rightarrow> metric_call" where
  "RecordDataLoadingRequestTextSize t textSize = Record_Int (textSizeHistogram t) textSize"

definition RecordProcessingLatency :: "telemetry_metrics \<Rightarrow> int \<Rightarrow> string \<Rightarrow> metric_call" where
  "RecordProcessingLatency t latency stageName =
     Record_Float (processingLatencyHistogram t) [(''stage_name'', stageName)]
       (f_div rnd64 (rnd64 (of_int latency)) (Fin 1000000))"

definition IncStageTotalProcessedItems :: "telemetry_metrics \<Rightarrow> string \<Rightarrow> metric_call" where
  "IncStageTotalProcessedItems t stageName =
     Add_Int (stageTotalProcessedItemsCounter t) [(''stage_name'', stageName)] 1"

definition IncStageErrors :: "telemetry_metrics \<Rightarrow> string \<Rightarrow> metric_call" where
  "IncStageErrors t stageName = Add_Int (stageErrorsCounter t) [(''stage_name'', stageName)] 1"

definition SetDeduplicationThreshold :: "telemetry_metrics \<Rightarrow> gofloat \<Rightarrow> metric_call" where
  "SetDeduplicationThreshold t dedupThreshold = Record_Float (deduplicationThreshold t) [] (f_conv rnd64 dedupThreshold)"

definition IncTotalProcessedDocumentsForIndexing :: "telemetry_metrics \<Rightarrow> metric_call" where
  "IncTotalProcessedDocumentsForIndexing t = Add_Int (totalProcessedDocumentsForIndexing t) [] 1"

definition IncTotalDuplicateDocuments :: "telemetry_metrics \<Rightarrow> metric_call" where
  "IncTotalDuplicateDocuments t = Add_Int (totalDuplicateDocuments t) [] 1"

abbreviation counter_named :: "string \<Rightarrow> instrument" where
  "counter_named n \<equiv> \<lparr>in_kind = Int64Counter, in_name = n, in_bounds = []\<rparr>"

text \<open>The bounds of the latency histogram, in milliseconds.\<close>

definition latency_bounds :: "gofloat list" where
  "latency_bounds = map rnd64
     [5 / 1000, 1 / 100, 25 / 1000, 5 / 100, 1 / 10, 25 / 100, 1 / 2, 1, 2, 5, 10, 25, 50, 100, 250, 500]"

definition created_metrics :: telemetry_metrics where
  "created_metrics =
     \<lparr>numDocumentsCounter = counter_named ''num_documents'',
      textSizeHistogram = \<lparr>in_kind = Int64Histogram, in_name = ''text_size'', in_bounds = []\<rparr>,
      processingLatencyHistogram =
        \<lparr>in_kind = Float64Histogram, in_name = ''processing_latency'', in_bounds = latency_bounds\<rparr>,
      stageTotalProcessedItemsCounter = counter_named ''stage_total_processed_items'',
      stageErrorsCounter = counter_named ''stage_errors'',
      deduplicationThreshold = \<lparr>in_kind = Float64Gauge, in_name = ''deduplication_threshold'', in_bounds = []\<rparr>,
      totalProcessedDocumentsForIndexing = counter_named ''total_processed_documents_for_indexing'',
      totalDuplicateDocuments = counter_named ''total_duplicate_documents''\<rparr>"

fun create_all :: "'m meter \<Rightarrow> instrument list \<Rightarrow> 'm \<Rightarrow> string + 'm" where
  "create_all mt [] m = Inr m"
| "create_all mt (i # rest) m = (case mt_create mt m i of Inl e \<Rightarrow> Inl e | Inr m \<Rightarrow> create_all mt rest m)"

text \<open>\<open>InitMetrics\<close> creates the instruments in this order and gives up at the first error.\<close>

definition InitMetrics :: "'m meter \<Rightarrow> string + telemetry_metrics \<times> 'm" where
  "InitMetrics mt =
     (case mt_new mt of
        Inl e \<Rightarrow> Inl e
      | Inr m \<Rightarrow>
          (let t = created_metrics in
           case create_all mt [numDocumentsCounter t, textSizeHistogram t, processingLatencyHistogram t,
               stageTotalProcessedItemsCounter t, stageErrorsCounter t, deduplicationThreshold t,
               totalProcessedDocumentsForIndexing t, totalDuplicateDocuments t] m of
             Inl e \<Rightarrow> Inl e
           | Inr m \<Rightarrow> Inr (t, m)))"

section \<open>What is documented of the meter\<close>

fun added :: "string \<Rightarrow> attributes \<Rightarrow> metric_call \<Rightarrow> u64" where
  "added name attrs (Add_Int i a n) = (if in_name i = name \<and> a = attrs then of_int n else 0)"
| "added name attrs _ = 0"

definition meter_ok :: "'m meter \<Rightarrow> bool" where
  "meter_ok mt \<longleftrightarrow>
     (\<forall>m name attrs. mt_new mt = Inr m \<longrightarrow> mt_counter mt m name attrs = 0) \<and>
     (\<forall>m i m' name attrs. mt_create mt m i = Inr m' \<longrightarrow> mt_counter mt m' name attrs = mt_counter mt m name attrs) \<and>
     (\<forall>m c name attrs. mt_counter mt (mt_call mt m c) name attrs = mt_counter mt m name attrs + added name attrs c)"

text \<open>An instance: a meter that keeps the calls.\<close>

definition log_meter :: "metric_call list meter" where
  "log_meter = \<lparr>mt_new = Inr [], mt_create = (\<lambda>m i. Inr m), mt_call = (\<lambda>m c. m @ [c]),
     mt_counter = (\<lambda>m name attrs. sum_list (map (added name attrs) m))\<rparr>"

lemma log_meter_ok: "meter_ok log_meter"
  by (simp add: meter_ok_def log_meter_def)

section \<open>The pipeline with its meter\<close>

text \<open>The calls that a step of a part makes, for a latency that is measured.\<close>

definition stage_calls ::
  "telemetry_metrics \<Rightarrow> int \<Rightarrow> string \<Rightarrow> ('i, 'o, 'w) stage_state \<Rightarrow> ('i, 'o, 'w) stage_state \<Rightarrow> metric_call list" where
  "stage_calls t latency name s s' =
     replicate (ss_processed s' - ss_processed s) (IncStageTotalProcessedItems t name) @
     replicate (ss_errors s' - ss_errors s) (IncStageErrors t name) @
     replicate (ss_latencies s' - ss_latencies s) (RecordProcessingLatency t latency name)"

definition index_calls :: "telemetry_metrics \<Rightarrow> 'g embedding_index \<Rightarrow> 'g embedding_index \<Rightarrow> metric_call list" where
  "index_calls t x x' =
     replicate (im_processed (ix_metrics x') - im_processed (ix_metrics x)) (IncTotalProcessedDocumentsForIndexing t) @
     replicate (im_duplicates (ix_metrics x') - im_duplicates (ix_metrics x)) (IncTotalDuplicateDocuments t)"

definition generator_calls :: "telemetry_metrics \<Rightarrow> lg_state \<Rightarrow> lg_state \<Rightarrow> metric_call list" where
  "generator_calls t g g' =
     replicate (nat (lg_requests g' - lg_requests g)) (IncDataLoadingRequests t 1) @
     map (RecordDataLoadingRequestTextSize t) (drop (length (lg_sizes g)) (lg_sizes g'))"

definition pl_calls :: "telemetry_metrics \<Rightarrow> int \<Rightarrow> 'g pipeline \<Rightarrow> 'g pipeline \<Rightarrow> metric_call list" where
  "pl_calls t latency p q =
     generator_calls t (pl_gen p) (pl_gen q) @
     stage_calls t latency ''load'' (pl_load p) (pl_load q) @ stage_calls t latency ''tokenize'' (pl_tok p) (pl_tok q) @
     stage_calls t latency ''embed'' (pl_emb p) (pl_emb q) @ stage_calls t latency ''index'' (pl_idx p) (pl_idx q) @
     index_calls t (ss_world (pl_idx p)) (ss_world (pl_idx q))"

inductive metered ::
  "disk \<Rightarrow> unicode_tables \<Rightarrow> 'g hnsw \<Rightarrow> 'm meter \<Rightarrow> rng \<Rightarrow> telemetry_metrics \<Rightarrow> 'g pipeline \<Rightarrow> 'm \<Rightarrow> bool"
  for disk u h mt seeded where
  mt_init: "InitMetrics mt = Inr (t, m) \<Longrightarrow>
    pl_start disk u h seeded fresh_metrics = Some p \<Longrightarrow>
    metered disk u h mt seeded t p
      (foldl (mt_call mt) m (map (SetDeduplicationThreshold t) (im_threshold (ix_metrics (ss_world (pl_idx p))))))"
| mt_step: "metered disk u h mt seeded t p m \<Longrightarrow> pl_step disk u h p q \<Longrightarrow>
    metered disk u h mt seeded t q (foldl (mt_call mt) m (pl_calls t latency p q))"


section \<open>What has been added to a counter\<close>

definition total_added :: "string \<Rightarrow> attributes \<Rightarrow> metric_call list \<Rightarrow> u64" where
  "total_added name attrs cs = sum_list (map (added name attrs) cs)"

lemma total_added_simps [simp]:
  "total_added name attrs [] = 0"
  "total_added name attrs (c # cs) = added name attrs c + total_added name attrs cs"
  "total_added name attrs (cs @ ds) = total_added name attrs cs + total_added name attrs ds"
  "total_added name attrs (replicate k c) = of_nat k * added name attrs c"
  by (simp_all add: total_added_def sum_list_replicate)

lemma counter_calls:
  assumes "meter_ok mt"
  shows "mt_counter mt (foldl (mt_call mt) m cs) name attrs = mt_counter mt m name attrs + total_added name attrs cs"
  using assms by (induction cs arbitrary: m) (simp_all add: meter_ok_def add.assoc)

lemma create_all_counter:
  "meter_ok mt \<Longrightarrow> create_all mt is' m = Inr m' \<Longrightarrow> mt_counter mt m' name attrs = mt_counter mt m name attrs"
  by (induction mt is' m rule: create_all.induct) (auto simp: meter_ok_def split: sum.splits)

lemma InitMetrics_ok:
  assumes "meter_ok mt" and "InitMetrics mt = Inr (t, m)"
  shows "t = created_metrics" "mt_counter mt m name attrs = 0"
  using assms create_all_counter [OF assms(1)]
  by (auto simp: InitMetrics_def Let_def meter_ok_def split: sum.splits)

lemma recorded_simps [simp]:
  "total_added name attrs (map (RecordDataLoadingRequestTextSize t) ns) = 0"
  "total_added name attrs (map (SetDeduplicationThreshold t) ts) = 0"
  "added name attrs (RecordProcessingLatency t d n) = 0"
proof -
  show "total_added name attrs (map (RecordDataLoadingRequestTextSize t) ns) = 0"
    by (induction ns) (simp_all add: RecordDataLoadingRequestTextSize_def)
  show "total_added name attrs (map (SetDeduplicationThreshold t) ts) = 0"
    by (induction ts) (simp_all add: SetDeduplicationThreshold_def)
  show "added name attrs (RecordProcessingLatency t d n) = 0" by (simp add: RecordProcessingLatency_def)
qed

text \<open>What one counter gains from the calls of each kind.\<close>

lemma stage_added:
  "total_added name attrs (stage_calls created_metrics d n s s') =
     (if name = ''stage_total_processed_items'' \<and> attrs = [(''stage_name'', n)]
      then of_nat (ss_processed s' - ss_processed s) else 0) +
     (if name = ''stage_errors'' \<and> attrs = [(''stage_name'', n)] then of_nat (ss_errors s' - ss_errors s) else 0)"
  by (auto simp: stage_calls_def IncStageTotalProcessedItems_def IncStageErrors_def created_metrics_def)

lemma index_added:
  "total_added name attrs (index_calls created_metrics x x') =
     (if name = ''total_processed_documents_for_indexing'' \<and> attrs = []
      then of_nat (im_processed (ix_metrics x') - im_processed (ix_metrics x)) else 0) +
     (if name = ''total_duplicate_documents'' \<and> attrs = []
      then of_nat (im_duplicates (ix_metrics x') - im_duplicates (ix_metrics x)) else 0)"
  by (auto simp: index_calls_def IncTotalProcessedDocumentsForIndexing_def IncTotalDuplicateDocuments_def
      created_metrics_def)

lemma generator_added:
  "total_added name attrs (generator_calls created_metrics g g') =
     (if name = ''num_documents'' \<and> attrs = [] then of_nat (nat (lg_requests g' - lg_requests g)) else 0)"
  by (auto simp: generator_calls_def IncDataLoadingRequests_def created_metrics_def)

section \<open>The counts only grow\<close>

lemma pool_step_counts:
  assumes "pool_step sg s t"
  shows "ss_processed s \<le> ss_processed t" "ss_errors s \<le> ss_errors t"
  using assms by (cases, simp_all)+

lemma pool_step_world:
  assumes "pool_step sg s t"
  shows "ss_world t = ss_world s \<or> (\<exists>x. ss_world t = snd (sg_fn sg x (ss_world s)))"
  using assms by cases (simp_all, metis snd_conv, metis snd_conv)

lemma index_call_counts:
  assumes "index_call h x w = (r, w')"
  shows "im_processed (ix_metrics w') = im_processed (ix_metrics w) + 1"
    and "im_duplicates (ix_metrics w') =
      im_duplicates (ix_metrics w) + (case r of Inr y \<Rightarrow> of_bool (dr_IsDuplicate y) | Inl _ \<Rightarrow> 0)"
proof -
  obtain idx' res where f: "dd_finish h x (dd_search h x (dd_count w)) (dd_count w) = (idx', res)" by fastforce
  then have "r = Inr res" "w' = idx'" using assms by (auto simp: index_call_def DedupAndIndex_def Let_def)
  with dd_finish_counts(2,3) [OF f] show
    "im_processed (ix_metrics w') = im_processed (ix_metrics w) + 1"
    "im_duplicates (ix_metrics w') =
      im_duplicates (ix_metrics w) + (case r of Inr y \<Rightarrow> of_bool (dr_IsDuplicate y) | Inl _ \<Rightarrow> 0)" by simp_all
qed

lemma see_counts [simp]:
  "ss_processed (see_input c s) = ss_processed s" "ss_errors (see_input c s) = ss_errors s"
  "ss_processed (see_output d s) = ss_processed s" "ss_errors (see_output d s) = ss_errors s"
  by (simp_all add: see_input_def see_output_def)


lemma see_requests_count [simp]: "lg_requests (see_requests c g) = lg_requests g"
  by simp

lemma index_step_counts:
  assumes "pool_step (indexStage h) s t"
  shows "im_processed (ix_metrics (ss_world s)) \<le> im_processed (ix_metrics (ss_world t))"
    and "im_duplicates (ix_metrics (ss_world s)) \<le> im_duplicates (ix_metrics (ss_world t))"
proof -
  have "ss_world t = ss_world s \<or>
    im_processed (ix_metrics (ss_world s)) \<le> im_processed (ix_metrics (ss_world t)) \<and>
    im_duplicates (ix_metrics (ss_world s)) \<le> im_duplicates (ix_metrics (ss_world t))"
  proof (use pool_step_world [OF assms] in \<open>elim disjE exE\<close>)
    fix x assume "ss_world t = snd (sg_fn (indexStage h) x (ss_world s))"
    then obtain r where "index_call h x (ss_world s) = (r, ss_world t)" by (metis prod.collapse stages_workers(12))
    from index_call_counts [OF this] show ?thesis by simp
  qed simp
  then show "im_processed (ix_metrics (ss_world s)) \<le> im_processed (ix_metrics (ss_world t))"
    "im_duplicates (ix_metrics (ss_world s)) \<le> im_duplicates (ix_metrics (ss_world t))" by auto
qed

definition pl_grows :: "'g pipeline \<Rightarrow> 'g pipeline \<Rightarrow> bool" where
  "pl_grows p q \<longleftrightarrow> lg_requests (pl_gen p) \<le> lg_requests (pl_gen q) \<and>
     ss_processed (pl_load p) \<le> ss_processed (pl_load q) \<and> ss_errors (pl_load p) \<le> ss_errors (pl_load q) \<and>
     ss_processed (pl_tok p) \<le> ss_processed (pl_tok q) \<and> ss_errors (pl_tok p) \<le> ss_errors (pl_tok q) \<and>
     ss_processed (pl_emb p) \<le> ss_processed (pl_emb q) \<and> ss_errors (pl_emb p) \<le> ss_errors (pl_emb q) \<and>
     ss_processed (pl_idx p) \<le> ss_processed (pl_idx q) \<and> ss_errors (pl_idx p) \<le> ss_errors (pl_idx q) \<and>
     im_processed (ix_metrics (ss_world (pl_idx p))) \<le> im_processed (ix_metrics (ss_world (pl_idx q))) \<and>
     im_duplicates (ix_metrics (ss_world (pl_idx p))) \<le> im_duplicates (ix_metrics (ss_world (pl_idx q)))"

lemma lg_step_count: "lg_step g g' \<Longrightarrow> lg_requests g \<le> lg_requests g'"
  by (induction rule: lg_step.induct) simp_all

lemma pl_step_grows: "pl_step disk u h p q \<Longrightarrow> pl_grows p q"
  by (induction rule: pl_step.induct)
    (simp_all add: pl_grows_def lg_step_count pool_step_counts index_step_counts)

section \<open>What the counters show\<close>

text \<open>The value of a counter in terms of the counts of the parts.\<close>

definition stage_count :: "string \<Rightarrow> attributes \<Rightarrow> string \<Rightarrow> ('i, 'o, 'w) stage_state \<Rightarrow> u64" where
  "stage_count name attrs n s =
     (if name = ''stage_total_processed_items'' \<and> attrs = [(''stage_name'', n)] then of_nat (ss_processed s) else 0) +
     (if name = ''stage_errors'' \<and> attrs = [(''stage_name'', n)] then of_nat (ss_errors s) else 0)"

definition index_count :: "string \<Rightarrow> attributes \<Rightarrow> 'g embedding_index \<Rightarrow> u64" where
  "index_count name attrs x =
     (if name = ''total_processed_documents_for_indexing'' \<and> attrs = []
      then of_nat (im_processed (ix_metrics x)) else 0) +
     (if name = ''total_duplicate_documents'' \<and> attrs = [] then of_nat (im_duplicates (ix_metrics x)) else 0)"

definition generator_count :: "string \<Rightarrow> attributes \<Rightarrow> lg_state \<Rightarrow> u64" where
  "generator_count name attrs g = (if name = ''num_documents'' \<and> attrs = [] then of_int (lg_requests g) else 0)"

definition pl_count :: "string \<Rightarrow> attributes \<Rightarrow> 'g pipeline \<Rightarrow> u64" where
  "pl_count name attrs p =
     generator_count name attrs (pl_gen p) +
     stage_count name attrs ''load'' (pl_load p) + stage_count name attrs ''tokenize'' (pl_tok p) +
     stage_count name attrs ''embed'' (pl_emb p) + stage_count name attrs ''index'' (pl_idx p) +
     index_count name attrs (ss_world (pl_idx p))"

lemma of_nat_minus: "a \<le> b \<Longrightarrow> (of_nat (b - a) :: u64) = of_nat b - of_nat a"
  by (rule of_nat_diff)

lemma stage_grows:
  assumes "ss_processed s \<le> ss_processed s'" and "ss_errors s \<le> ss_errors s'"
  shows "stage_count name attrs n s + total_added name attrs (stage_calls created_metrics d n s s') =
    stage_count name attrs n s'"
  using assms by (simp add: stage_added stage_count_def of_nat_minus)

lemma index_grows:
  assumes "im_processed (ix_metrics x) \<le> im_processed (ix_metrics x')"
    and "im_duplicates (ix_metrics x) \<le> im_duplicates (ix_metrics x')"
  shows "index_count name attrs x + total_added name attrs (index_calls created_metrics x x') = index_count name attrs x'"
  using assms by (simp add: index_added index_count_def of_nat_minus)

lemma generator_grows:
  assumes "lg_requests g \<le> lg_requests g'"
  shows "generator_count name attrs g + total_added name attrs (generator_calls created_metrics g g') =
    generator_count name attrs g'"
  using assms by (simp add: generator_added generator_count_def of_nat_nat)

lemma pl_grows_count:
  assumes "pl_grows p q"
  shows "pl_count name attrs p + total_added name attrs (pl_calls created_metrics d p q) = pl_count name attrs q"
proof -
  note g = assms [unfolded pl_grows_def]
  note e = generator_grows [of "pl_gen p" "pl_gen q" name attrs] stage_grows [of "pl_load p" "pl_load q" name attrs]
    stage_grows [of "pl_tok p" "pl_tok q" name attrs] stage_grows [of "pl_emb p" "pl_emb q" name attrs]
    stage_grows [of "pl_idx p" "pl_idx q" name attrs]
    index_grows [of "ss_world (pl_idx p)" "ss_world (pl_idx q)" name attrs]
  have "pl_count name attrs q =
    (generator_count name attrs (pl_gen p) + total_added name attrs (generator_calls created_metrics (pl_gen p) (pl_gen q))) +
    (stage_count name attrs ''load'' (pl_load p) +
      total_added name attrs (stage_calls created_metrics d ''load'' (pl_load p) (pl_load q))) +
    (stage_count name attrs ''tokenize'' (pl_tok p) +
      total_added name attrs (stage_calls created_metrics d ''tokenize'' (pl_tok p) (pl_tok q))) +
    (stage_count name attrs ''embed'' (pl_emb p) +
      total_added name attrs (stage_calls created_metrics d ''embed'' (pl_emb p) (pl_emb q))) +
    (stage_count name attrs ''index'' (pl_idx p) +
      total_added name attrs (stage_calls created_metrics d ''index'' (pl_idx p) (pl_idx q))) +
    (index_count name attrs (ss_world (pl_idx p)) +
      total_added name attrs (index_calls created_metrics (ss_world (pl_idx p)) (ss_world (pl_idx q))))"
    unfolding pl_count_def by (simp only: e g)
  then show ?thesis by (simp only: pl_count_def pl_calls_def total_added_simps ac_simps)
qed

lemma stage_count_start: "stage_start sg w = Some s \<Longrightarrow> stage_count name attrs n s = 0"
  by (auto simp: stage_start_def stage_count_def split: if_splits)

lemma generator_count_start: "lg_start g = Some s \<Longrightarrow> generator_count name attrs s = 0"
  by (auto simp: lg_start_def generator_count_def split: option.splits)

lemma index_count_start: "NewEmbeddingIndex h d fresh_metrics = Inr ix \<Longrightarrow> index_count name attrs ix = 0"
  by (auto simp: NewEmbeddingIndex_def index_count_def fresh_metrics_def split: if_splits)

lemma pl_count_start:
  assumes "pl_start disk u h seeded fresh_metrics = Some p"
  shows "pl_count name attrs p = 0"
proof -
  obtain gen load tok ix emb idx where c:
    "lg_start (pl_generator seeded) = Some gen" "stage_start (dataLoadingStage disk) () = Some load"
    "stage_start (tokenizeStage u) () = Some tok" "NewEmbeddingIndex h threshold fresh_metrics = Inr ix"
    "stage_start embedDocStage () = Some emb" "stage_start (indexStage h) ix = Some idx"
    and p: "p = \<lparr>pl_gen = gen, pl_load = load, pl_tok = tok, pl_emb = emb, pl_idx = idx,
                pl_printed = [], pl_returned = False\<rparr>"
    using assms unfolding pl_start_def by (simp split: option.splits sum.splits)
  show ?thesis
    using stage_start_fresh(6) [OF c(6)] index_count_start [OF c(4)]
    by (simp add: p pl_count_def generator_count_start [OF c(1)] stage_count_start [OF c(2)]
        stage_count_start [OF c(3)] stage_count_start [OF c(5)] stage_count_start [OF c(6)])
qed

lemma metered_count:
  assumes "metered disk u h mt seeded t p m" and "meter_ok mt"
  shows "t = created_metrics \<and> pl_reach disk u h seeded fresh_metrics p \<and>
    mt_counter mt m name attrs = pl_count name attrs p"
  using assms(1)
proof induction
  case (mt_init t m p)
  note i = InitMetrics_ok [OF assms(2) mt_init(1)]
  show ?case
    unfolding counter_calls [OF assms(2)] by (simp add: i pl_count_start [OF mt_init(2)] pl_init [OF mt_init(2)])
next
  case (mt_step t p m q latency)
  then show ?case
    using pl_grows_count [OF pl_step_grows [OF mt_step(2)], of name attrs latency]
    by (auto simp: counter_calls [OF assms(2)] intro: pl_next)
qed


section \<open>Counts and items\<close>

lemma run_index_counts:
  "run_calls (index_call h) w xs = (w', cs) \<Longrightarrow>
   im_processed (ix_metrics w') = im_processed (ix_metrics w) + length cs \<and>
   im_duplicates (ix_metrics w') = im_duplicates (ix_metrics w) + dup_count (successes cs)"
proof (induction xs arbitrary: w' cs rule: rev_induct)
  case (snoc x xs)
  obtain v ds where d: "run_calls (index_call h) w xs = (v, ds)" by fastforce
  obtain r v' where y: "index_call h x v = (r, v')" by fastforce
  have "w' = v'" "cs = ds @ [(x, r)]" using snoc.prems by (simp_all add: run_calls_snoc d y)
  with snoc.IH [OF d] index_call_counts [OF y] show ?case by (cases r) (simp_all add: dup_count_def)
qed (simp add: dup_count_def)

lemma index_history:
  assumes "stage_reach (indexStage h) ix s" and "NewEmbeddingIndex h d fresh_metrics = Inr ix"
  shows "im_processed (ix_metrics (ss_world s)) = length (ss_calls s)"
    and "im_duplicates (ix_metrics (ss_world s)) = dup_count (successes (ss_calls s))"
proof -
  have "run_calls (index_call h) ix (map fst (ss_calls s)) = (ss_world s, ss_calls s)"
    using stage_reach_inv [OF assms(1)] by (simp add: stage_inv_def)
  from run_index_counts [OF this] assms(2) show
    "im_processed (ix_metrics (ss_world s)) = length (ss_calls s)"
    "im_duplicates (ix_metrics (ss_world s)) = dup_count (successes (ss_calls s))"
    by (auto simp: NewEmbeddingIndex_def fresh_metrics_def split: if_splits)
qed

lemma counting_held: "total counting s \<le> size (total held_in s)"
proof -
  have one: "counting p \<le> size (held_in p)" for p :: "('a, 'b) worker" by (cases p) simp_all
  have "sum_list (map counting ps) \<le> size (sum_list (map held_in ps))" for ps :: "('a, 'b) worker list"
  proof (induction ps)
    case (Cons p ps)
    with one [of p] show ?case by simp
  qed simp
  then show ?thesis by (simp add: total_def)
qed

text \<open>A stage counts no more items than it took, and hands out no more than it counted without an error.\<close>

lemma stage_history:
  assumes "stage_reach sg w s"
  shows "ss_processed s = length (ss_calls s) + total counting s"
    and "ss_errors s = failures (ss_calls s)"
    and "ss_processed s \<le> length (ss_taken s)"
    and "length (ss_got s) + ss_errors s \<le> ss_processed s"
proof -
  have inv: "stage_inv sg w s" by (rule stage_reach_inv [OF assms])
  then show p: "ss_processed s = length (ss_calls s) + total counting s" and e: "ss_errors s = failures (ss_calls s)"
    by (simp_all add: stage_inv_def)
  have "mset (ss_taken s) = total held_in s + mset (map fst (ss_calls s))" using inv by (simp add: stage_inv_def)
  from arg_cong [OF this, of size] have "length (ss_taken s) = size (total held_in s) + length (ss_calls s)" by simp
  with counting_held [of s] p show "ss_processed s \<le> length (ss_taken s)" by simp
  have "mset (successes (ss_calls s)) =
      mset (ss_got s) + mset (ch_buf (ss_out s)) + total held_out s + mset (ss_dropped s)"
    using inv by (simp add: stage_inv_def)
  from arg_cong [OF this, of size] have "length (ss_got s) \<le> length (successes (ss_calls s))" by simp
  with calls_length [of "ss_calls s"] p e show "length (ss_got s) + ss_errors s \<le> ss_processed s" by simp
qed

lemma generator_history:
  assumes "lg_reach (pl_generator seeded) g"
  shows "lg_requests g = int (length (lg_issued g))" and "length (lg_got g) \<le> length (lg_issued g)"
proof -
  have ok: "config_ok generatorConfig" by (simp add: config_ok_def generatorConfig_def int64_range_def)
  have "lg_inv (pl_generator seeded) g"
    by (rule lg_reach_inv [OF assms]) (use ok in \<open>simp_all add: NewLoadGenerator_def\<close>)
  then show "lg_requests g = int (length (lg_issued g))" by (simp add: lg_inv_def)
  show "length (lg_got g) \<le> length (lg_issued g)" by (simp add: lg_issued_def)
qed

lemma dup_count_le: "dup_count rs \<le> length rs"
  by (simp add: dup_count_def)

lemma stage_values:
  assumes "\<forall>name attrs. mt_counter mt m name attrs = pl_count name attrs p"
  shows "mt_counter mt m ''num_documents'' [] = of_int (lg_requests (pl_gen p))"
    and "mt_counter mt m ''total_processed_documents_for_indexing'' [] =
      of_nat (im_processed (ix_metrics (ss_world (pl_idx p))))"
    and "mt_counter mt m ''total_duplicate_documents'' [] =
      of_nat (im_duplicates (ix_metrics (ss_world (pl_idx p))))"
  by (simp_all add: assms pl_count_def generator_count_def stage_count_def index_count_def)

definition stage_exports :: "'m meter \<Rightarrow> 'm \<Rightarrow> string \<Rightarrow> nat \<Rightarrow> nat \<Rightarrow> bool" where
  "stage_exports mt m n processed errors \<longleftrightarrow>
     mt_counter mt m ''stage_total_processed_items'' [(''stage_name'', n)] = of_nat processed \<and>
     mt_counter mt m ''stage_errors'' [(''stage_name'', n)] = of_nat errors"

lemma stage_values_named:
  assumes "\<forall>name attrs. mt_counter mt m name attrs = pl_count name attrs p"
  shows "stage_exports mt m ''load'' (ss_processed (pl_load p)) (ss_errors (pl_load p))"
    and "stage_exports mt m ''tokenize'' (ss_processed (pl_tok p)) (ss_errors (pl_tok p))"
    and "stage_exports mt m ''embed'' (ss_processed (pl_emb p)) (ss_errors (pl_emb p))"
    and "stage_exports mt m ''index'' (ss_processed (pl_idx p)) (ss_errors (pl_idx p))"
  by (simp_all add: assms stage_exports_def pl_count_def generator_count_def stage_count_def index_count_def)


lemma metered_parts:
  assumes "metered disk u h mt seeded t p m" and "meter_ok mt"
  obtains ix where "stage_reach (dataLoadingStage disk) () (pl_load p)" and "stage_reach (tokenizeStage u) () (pl_tok p)"
    and "stage_reach embedDocStage () (pl_emb p)" and "stage_reach (indexStage h) ix (pl_idx p)"
    and "NewEmbeddingIndex h threshold fresh_metrics = Inr ix" and "pl_links p"
    and "lg_requests (pl_gen p) = int (length (lg_issued (pl_gen p)))"
    and "length (lg_got (pl_gen p)) \<le> length (lg_issued (pl_gen p))"
    and "\<forall>name attrs. mt_counter mt m name attrs = pl_count name attrs p"
proof -
  have v: "\<forall>name attrs. mt_counter mt m name attrs = pl_count name attrs p" using metered_count [OF assms] by blast
  obtain ix where r: "NewEmbeddingIndex h threshold fresh_metrics = Inr ix" "pl_parts disk u h seeded ix p" "pl_links p"
    using metered_count [OF assms] pl_reach_parts by blast
  note q = r(2) [unfolded pl_parts_def]
  show ?thesis
    by (rule that [of ix]) (use q r(1,3) v generator_history [of seeded "pl_gen p"] in simp_all)
qed

text \<open>Each part counts at most what the part in front of it handed out.\<close>

lemma funnel_counts:
  assumes l: "stage_reach (dataLoadingStage disk) () (pl_load p)" and k: "stage_reach (tokenizeStage u) () (pl_tok p)"
    and e: "stage_reach embedDocStage () (pl_emb p)" and i: "stage_reach (indexStage h) ix (pl_idx p)"
    and ix: "NewEmbeddingIndex h d fresh_metrics = Inr ix" and links: "pl_links p"
  shows "ss_processed (pl_load p) \<le> length (lg_got (pl_gen p))"
    and "ss_processed (pl_tok p) + ss_errors (pl_load p) \<le> ss_processed (pl_load p)"
    and "ss_processed (pl_emb p) + ss_errors (pl_tok p) \<le> ss_processed (pl_tok p)"
    and "ss_processed (pl_idx p) + ss_errors (pl_emb p) \<le> ss_processed (pl_emb p)"
    and "im_processed (ix_metrics (ss_world (pl_idx p))) \<le> ss_processed (pl_idx p)"
    and "im_duplicates (ix_metrics (ss_world (pl_idx p))) + ss_errors (pl_idx p)
      \<le> im_processed (ix_metrics (ss_world (pl_idx p)))"
proof -
  note n = links [unfolded pl_links_def linked_def lg_linked_def] and x = index_history [OF i ix]
  show "ss_processed (pl_load p) \<le> length (lg_got (pl_gen p))" using stage_history(3) [OF l] n by simp
  show "ss_processed (pl_tok p) + ss_errors (pl_load p) \<le> ss_processed (pl_load p)"
    using stage_history(3) [OF k] stage_history(4) [OF l] n by simp
  show "ss_processed (pl_emb p) + ss_errors (pl_tok p) \<le> ss_processed (pl_tok p)"
    using stage_history(3) [OF e] stage_history(4) [OF k] n by simp
  show "ss_processed (pl_idx p) + ss_errors (pl_emb p) \<le> ss_processed (pl_emb p)"
    using stage_history(3) [OF i] stage_history(4) [OF e] n by simp
  show "im_processed (ix_metrics (ss_world (pl_idx p))) \<le> ss_processed (pl_idx p)"
    using stage_history(1) [OF i] x by simp
  show "im_duplicates (ix_metrics (ss_world (pl_idx p))) + ss_errors (pl_idx p)
      \<le> im_processed (ix_metrics (ss_world (pl_idx p)))"
    using x stage_history(2) [OF i] calls_length [of "ss_calls (pl_idx p)"] dup_count_le [of "successes (ss_calls (pl_idx p))"]
    by simp
qed

section \<open>Properties\<close>

lemma reach_metered:
  assumes "pl_reach disk u h seeded fresh_metrics p" and "InitMetrics mt = Inr (t, m0)"
  shows "\<exists>m. metered disk u h mt seeded t p m"
  using assms(1) by induction (use assms(2) in \<open>blast intro: mt_init mt_step\<close>)+

lemma log_meter_init: "InitMetrics log_meter = Inr (created_metrics, [])"
  by (simp add: InitMetrics_def Let_def log_meter_def)

lemma demo_metered:
  obtains p m where "metered demo_pl_disk latin1_only (scan_hnsw equal_dist) log_meter demo_rng created_metrics p m"
    and "lg_requests (pl_gen p) = 1"
  using demo_pl_quiet reach_metered [OF _ log_meter_init, of demo_pl_disk latin1_only "scan_hnsw equal_dist" demo_rng]
  by (metis fresh_metrics_def)

text \<open>
  C21: What the exporter shows is what the pipeline did.  In every reachable state of the program, with any provider
  whose counters add up: \<open>num_documents\<close> is the number of requests generated; for each of the four stages, under its
  own name, the processed counter is the number of calls of the stage function that returned or are under way,
  and the error counter the number that returned an error; the indexing counters are the number of documents that
  were indexed and how many of the verdicts were "duplicate".  No part reports to the counter of another.
\<close>

theorem exported_counters:
  assumes "meter_ok mt" and "metered disk u h mt seeded t p m"
  shows "mt_counter mt m ''num_documents'' [] = of_nat (length (lg_issued (pl_gen p))) \<and>
    stage_exports mt m ''load'' (length (ss_calls (pl_load p)) + total counting (pl_load p)) (failures (ss_calls (pl_load p))) \<and>
    stage_exports mt m ''tokenize'' (length (ss_calls (pl_tok p)) + total counting (pl_tok p)) (failures (ss_calls (pl_tok p))) \<and>
    stage_exports mt m ''embed'' (length (ss_calls (pl_emb p)) + total counting (pl_emb p)) (failures (ss_calls (pl_emb p))) \<and>
    stage_exports mt m ''index'' (length (ss_calls (pl_idx p)) + total counting (pl_idx p)) (failures (ss_calls (pl_idx p))) \<and>
    mt_counter mt m ''total_processed_documents_for_indexing'' [] = of_nat (length (ss_calls (pl_idx p))) \<and>
    mt_counter mt m ''total_duplicate_documents'' [] = of_nat (dup_count (successes (ss_calls (pl_idx p))))"
proof (rule metered_parts [OF assms(2,1)])
  fix ix
  assume l: "stage_reach (dataLoadingStage disk) () (pl_load p)" and k: "stage_reach (tokenizeStage u) () (pl_tok p)"
    and e: "stage_reach embedDocStage () (pl_emb p)" and i: "stage_reach (indexStage h) ix (pl_idx p)"
    and r: "NewEmbeddingIndex h threshold fresh_metrics = Inr ix"
    and g: "lg_requests (pl_gen p) = int (length (lg_issued (pl_gen p)))"
    and v: "\<forall>name attrs. mt_counter mt m name attrs = pl_count name attrs p"
  show ?thesis
    using stage_values [OF v] stage_values_named [OF v]
    unfolding g of_int_of_nat_eq stage_history(1,2) [OF l] stage_history(1,2) [OF k] stage_history(1,2) [OF e]
      stage_history(1,2) [OF i] index_history [OF i r] by (intro conjI)
qed

theorem exported_counters_witness:
  "\<exists>p m. metered demo_pl_disk latin1_only (scan_hnsw equal_dist) log_meter demo_rng created_metrics p m \<and>
     mt_counter log_meter m ''num_documents'' [] = 1"
proof -
  obtain p m where m: "metered demo_pl_disk latin1_only (scan_hnsw equal_dist) log_meter demo_rng created_metrics p m"
    "lg_requests (pl_gen p) = 1" by (rule demo_metered)
  have "length (lg_issued (pl_gen p)) = 1" by (rule metered_parts [OF m(1) log_meter_ok]) (use m(2) in simp)
  with exported_counters [OF log_meter_ok m(1)] m(1) show ?thesis by auto
qed

text \<open>
  C22: The counters of a dashboard form a funnel: while fewer than \<open>2 ^ 63\<close> documents have been requested, no stage shows
  more processed items than the stage in front of it processed without an error, the first no more than \<open>num_documents\<close>,
  and the indexing counters stay below the processed items of the last stage.
\<close>

theorem exported_funnel:
  assumes "meter_ok mt" and "metered disk u h mt seeded t p m" and "lg_requests (pl_gen p) < 2 ^ 63"
  shows "let total = (\<lambda>name. unat (mt_counter mt m name []));
      items = (\<lambda>n. unat (mt_counter mt m ''stage_total_processed_items'' [(''stage_name'', n)]));
      errors = (\<lambda>n. unat (mt_counter mt m ''stage_errors'' [(''stage_name'', n)]))
    in items ''load'' \<le> total ''num_documents'' \<and>
      items ''tokenize'' + errors ''load'' \<le> items ''load'' \<and>
      items ''embed'' + errors ''tokenize'' \<le> items ''tokenize'' \<and>
      items ''index'' + errors ''embed'' \<le> items ''embed'' \<and>
      total ''total_processed_documents_for_indexing'' \<le> items ''index'' \<and>
      total ''total_duplicate_documents'' + errors ''index'' \<le> total ''total_processed_documents_for_indexing''"
proof (rule metered_parts [OF assms(2,1)])
  fix ix
  let ?R = "length (lg_issued (pl_gen p))"
  assume "stage_reach (dataLoadingStage disk) () (pl_load p)" and "stage_reach (tokenizeStage u) () (pl_tok p)"
    and "stage_reach embedDocStage () (pl_emb p)" and "stage_reach (indexStage h) ix (pl_idx p)"
    and "NewEmbeddingIndex h threshold fresh_metrics = Inr ix" and "pl_links p"
    and g: "lg_requests (pl_gen p) = int ?R" and got: "length (lg_got (pl_gen p)) \<le> ?R"
    and v: "\<forall>name attrs. mt_counter mt m name attrs = pl_count name attrs p"
  note f = funnel_counts [OF this(1-6)]
  have w: "unat (of_nat a :: u64) = a" if "a \<le> ?R" for a
    using that assms(3) g by (simp add: unsigned_of_nat take_bit_nat_eq_self)
  have bounds: "ss_processed (pl_load p) \<le> ?R" "ss_processed (pl_tok p) \<le> ?R" "ss_processed (pl_emb p) \<le> ?R"
    "ss_processed (pl_idx p) \<le> ?R"
    "ss_errors (pl_load p) \<le> ?R" "ss_errors (pl_tok p) \<le> ?R" "ss_errors (pl_emb p) \<le> ?R" "ss_errors (pl_idx p) \<le> ?R"
    "im_processed (ix_metrics (ss_world (pl_idx p))) \<le> ?R" "im_duplicates (ix_metrics (ss_world (pl_idx p))) \<le> ?R"
    using f got by linarith+
  note c = stage_values_named [OF v, unfolded stage_exports_def]
  show ?thesis
    unfolding Let_def stage_values [OF v] c [THEN conjunct1] c [THEN conjunct2] g of_int_of_nat_eq w [OF le_refl]
      bounds [THEN w]
    using f(2-) bounds(1) by (intro conjI)
qed

theorem exported_funnel_witness:
  "\<exists>p m. metered demo_pl_disk latin1_only (scan_hnsw equal_dist) log_meter demo_rng created_metrics p m \<and>
     unat (mt_counter log_meter m ''stage_total_processed_items'' [(''stage_name'', ''load'')])
       \<le> unat (mt_counter log_meter m ''num_documents'' [])"
proof -
  obtain p m where m: "metered demo_pl_disk latin1_only (scan_hnsw equal_dist) log_meter demo_rng created_metrics p m"
    "lg_requests (pl_gen p) = 1" by (rule demo_metered)
  from exported_funnel [OF log_meter_ok m(1)] m show ?thesis unfolding Let_def by auto
qed

end
