(* ===== verification/Doc_Typing.thy ===== *)
theory Doc_Typing
  imports Doc_Pipeline
begin

text \<open>
  What the parts of the pipeline (\<open>doc-pipeline/main.go\<close>) may assume of the items they get from each other: bounds on the requests,
  the texts and the numbers of tokens, terms that are not empty, and embeddings of the one dimension the index is filled with.
  They hold at every moment, for any file and Unicode tables, and however long the program runs.
\<close>

section \<open>Items on the channels\<close>

definition request_typed :: "data_loading_config \<Rightarrow> bool" where
  "request_typed r \<longleftrightarrow> dl_FilePath r = FilePath generatorConfig \<and> 1000 \<le> dl_TextSize r \<and> dl_TextSize r \<le> 20000 \<and>
     0 \<le> dl_Offset r \<and> dl_Offset r + dl_TextSize r \<le> FileSize generatorConfig"

definition document_typed :: "document \<Rightarrow> bool" where
  "document_typed d \<longleftrightarrow> length (doc_Text d) \<le> 20000"

definition tokens_typed :: "tokenized_doc \<Rightarrow> bool" where
  "tokens_typed t \<longleftrightarrow> length (td_Tokens t) \<le> 20000 \<and> (\<forall>tok \<in> set (td_Tokens t). tok_Term tok \<noteq> [])"

definition embedded_typed :: "embedded_doc \<Rightarrow> bool" where
  "embedded_typed e \<longleftrightarrow> length (ed_Embedding e) = 1024"

section \<open>A stage hands on typed items\<close>

lemma calls_fed:
  assumes "stage_reach sg w s"
  shows "set (map fst (ss_calls s)) \<subseteq> set (ss_fed s)"
proof -
  have inv: "stage_inv sg w s" by (rule stage_reach_inv [OF assms])
  then have "mset (ss_taken s) = total held_in s + mset (map fst (ss_calls s))" by (simp add: stage_inv_def)
  from arg_cong [OF this, of set_mset] have "set (map fst (ss_calls s)) \<subseteq> set (ss_taken s)" by auto
  with inv show ?thesis by (auto simp: stage_inv_def)
qed

locale typed_stage =
  fixes fn :: "'i \<Rightarrow> 'w \<Rightarrow> (string + 'o) \<times> 'w" and P :: "'i \<Rightarrow> bool" and Q :: "'o \<Rightarrow> bool"
  assumes call_typed: "P x \<Longrightarrow> fn x w = (Inr y, w') \<Longrightarrow> Q y"
begin

lemma run_typed:
  "\<forall>x \<in> set xs. P x \<Longrightarrow> run_calls fn w xs = (w', cs) \<Longrightarrow> \<forall>y \<in> set (successes cs). Q y"
proof (induction xs arbitrary: w' cs rule: rev_induct)
  case (snoc x xs)
  obtain v ds where d: "run_calls fn w xs = (v, ds)" by fastforce
  obtain r v' where y: "fn x v = (r, v')" by fastforce
  have "cs = ds @ [(x, r)]" using snoc.prems(2) by (simp add: run_calls_snoc d y)
  then show ?case using snoc.IH [OF _ d] snoc.prems(1) call_typed [of x v] y by (cases r) auto
qed auto

lemma outputs_typed:
  assumes "stage_reach sg w s" and "sg_fn sg = fn" and "\<forall>x \<in> set (ss_fed s). P x"
  shows "\<forall>y \<in> set (ss_got s @ ch_buf (ss_out s)). Q y"
proof -
  have inv: "stage_inv sg w s" by (rule stage_reach_inv [OF assms(1)])
  have "run_calls fn w (map fst (ss_calls s)) = (ss_world s, ss_calls s)" using inv assms(2) by (simp add: stage_inv_def)
  from run_typed [OF _ this] calls_fed [OF assms(1)] assms(3) have s: "\<forall>y \<in> set (successes (ss_calls s)). Q y" by blast
  have "mset (successes (ss_calls s)) =
      mset (ss_got s) + mset (ch_buf (ss_out s)) + total held_out s + mset (ss_dropped s)"
    using inv by (simp add: stage_inv_def)
  from arg_cong [OF this, of set_mset] have "set (ss_got s @ ch_buf (ss_out s)) \<subseteq> set (successes (ss_calls s))" by auto
  with s show ?thesis by blast
qed

end

section \<open>The four stage functions\<close>

lemma length_concat_nonempty: "\<forall>w \<in> set ws. w \<noteq> [] \<Longrightarrow> length ws \<le> length (concat ws)"
proof (induction ws)
  case (Cons w ws)
  then show ?case by (cases w) simp_all
qed simp

lemma words_of_bound: "length (words_of u s) \<le> length s"
proof -
  have "\<forall>w \<in> set (words_of u s). w \<noteq> []" using field_runs_nonempty unfolding words_of_def by blast
  then have "length (words_of u s) \<le> length (concat (words_of u s))" by (rule length_concat_nonempty)
  also have "concat (words_of u s) = filter (is_letter u) (lowered u s)" by (simp add: words_of_def concat_field_runs)
  also have "length \<dots> \<le> length (runes_of s)" by (metis length_filter_le length_map lowered_def)
  also have "\<dots> \<le> length s" by (rule length_runes_of)
  finally show ?thesis .
qed

lemma load_typed: "request_typed x \<Longrightarrow> load_call disk x w = (Inr y, w') \<Longrightarrow> document_typed y"
  by (auto simp: load_call_def LoadData_def read_limited_def request_typed_def document_typed_def
      split: option.splits if_splits sum.splits)

lemma tokenize_typed:
  assumes "unicode_ok u" and "document_typed x" and "tokenize_call u x w = (Inr y, w')"
  shows "tokens_typed y"
proof -
  have y: "y = \<lparr>td_ID = doc_ID x, td_Tokens = map (\<lambda>w. \<lparr>tok_Term = encode_runes w\<rparr>) (words_of u (doc_Text x))\<rparr>"
    using assms(3) by (simp add: tokenize_call_def Tokenize_words [OF assms(1)])
  have "\<forall>w \<in> set (words_of u (doc_Text x)). w \<noteq> []" using field_runs_nonempty unfolding words_of_def by blast
  moreover have "encode_runes w \<noteq> []" if "w \<noteq> []" for w using that by (cases w) simp_all
  ultimately show ?thesis
    using words_of_bound [of u "doc_Text x"] assms(2) by (auto simp: y tokens_typed_def document_typed_def)
qed

lemma length_normalize: "length (normalize v) = length v"
  by (simp add: normalize_def Let_def)

lemma embed_typed:
  assumes "embed_call (NewEmbedder 1024) x w = (Inr y, w')"
  shows "embedded_typed y"
proof -
  obtain v where "embed_loop 1024 (td_Tokens x) (replicate 1024 (Fin 0)) = Some v" "length v = 1024"
    using embed_loop_total [of 1024 "replicate 1024 (Fin 0)" "td_Tokens x"] by auto
  then have "Embed (NewEmbedder 1024) x = Some (Inr \<lparr>ed_ID = td_ID x, ed_Embedding = normalize v\<rparr>)"
    by (simp add: Embed_def NewEmbedder_def)
  then show ?thesis using assms \<open>length v = 1024\<close> by (auto simp: embed_call_def embedded_typed_def length_normalize)
qed

interpretation load_type: typed_stage "load_call disk" request_typed document_typed for disk
  by unfold_locales (rule load_typed)

interpretation tok_type: typed_stage "tokenize_call u" "\<lambda>d. unicode_ok u \<and> document_typed d" tokens_typed for u
  by unfold_locales (blast intro: tokenize_typed)

interpretation emb_type: typed_stage "embed_call (NewEmbedder 1024)" tokens_typed embedded_typed
  by unfold_locales (rule embed_typed)


section \<open>The graph of the index\<close>

text \<open>A stage whose function keeps a property of its own state, as long as its inputs are typed.\<close>

locale typed_world =
  fixes fn :: "'i \<Rightarrow> 'w \<Rightarrow> (string + 'o) \<times> 'w" and P :: "'i \<Rightarrow> bool" and G :: "'w \<Rightarrow> bool"
  assumes call_keeps: "P x \<Longrightarrow> G w \<Longrightarrow> G (snd (fn x w))"
begin

lemma run_keeps: "\<forall>x \<in> set xs. P x \<Longrightarrow> G w \<Longrightarrow> G (fst (run_calls fn w xs))"
proof (induction xs arbitrary: w)
  case (Cons x xs)
  then show ?case using call_keeps [of x w] by (auto split: prod.splits simp: case_prod_beta)
qed simp

lemma world_kept:
  assumes "stage_reach sg w s" and "sg_fn sg = fn" and "\<forall>x \<in> set (ss_fed s). P x" and "G w"
  shows "G (ss_world s)"
proof -
  have "run_calls fn w (map fst (ss_calls s)) = (ss_world s, ss_calls s)"
    using stage_reach_inv [OF assms(1)] assms(2) by (simp add: stage_inv_def)
  with run_keeps [of "map fst (ss_calls s)" w] calls_fed [OF assms(1)] assms(3,4) show ?thesis by auto
qed

end

text \<open>The graphs that can be built with vectors of dimension 1024.\<close>

inductive built :: "'g hnsw \<Rightarrow> 'g \<Rightarrow> bool" for h where
  built_new: "built h (hn_new h)"
| built_add: "built h g \<Longrightarrow> length v = 1024 \<Longrightarrow> built h (hn_add h g i v)"

lemma index_builds:
  assumes "embedded_typed x" and "built h (ix_graph w)"
  shows "built h (ix_graph (snd (index_call h x w)))"
proof -
  obtain idx' r where f: "dd_finish h x (dd_search h x (dd_count w)) (dd_count w) = (idx', r)" by fastforce
  then have "snd (index_call h x w) = idx'" by (simp add: index_call_def DedupAndIndex_def)
  then show ?thesis using dd_finish_counts(5) [OF f] assms by (simp add: built_add embedded_typed_def)
qed

interpretation idx_world: typed_world "index_call h" embedded_typed "\<lambda>w. built h (ix_graph w)" for h
  by unfold_locales (rule index_builds)

section \<open>The requests\<close>

lemma lg_config_kept: "lg_step s t \<Longrightarrow> lg_config (lg_gen t) = lg_config (lg_gen s)"
  by (induction rule: lg_step.induct) simp_all

lemma lg_issued_step:
  assumes "lg_step s t" and "config_ok (lg_config (lg_gen s))"
  shows "\<forall>r \<in> set (lg_issued t). r \<in> set (lg_issued s) \<or> (\<exists>n. valid_request (lg_config (lg_gen s)) n r)"
  using assms
proof cases
  case (lg_tick req rng')
  then show ?thesis using generate_Some_valid [OF assms(2) lg_tick(3)] by (auto simp: lg_issued_def lg_pending_def)
qed (auto simp: lg_issued_def lg_pending_def chan_iffs split: lg_phase.splits)

lemma issued_valid:
  "lg_reach g s \<Longrightarrow> config_ok (lg_config g) \<Longrightarrow>
   lg_config (lg_gen s) = lg_config g \<and> (\<forall>r \<in> set (lg_issued s). \<exists>n. valid_request (lg_config g) n r)"
proof (induction rule: lg_reach.induct)
  case (lg_init s)
  then show ?case
    by (auto simp: lg_start_def lg_issued_def lg_pending_def make_chan_def split: option.splits)
next
  case (lg_next s t)
  then show ?case using lg_config_kept [OF lg_next(2)] lg_issued_step [OF lg_next(2)] by metis
qed

lemma requests_typed:
  assumes "lg_reach (pl_generator seeded) g" and "r \<in> set (lg_issued g)"
  shows "request_typed r"
proof -
  have "config_ok (lg_config (pl_generator seeded))"
    by (simp add: config_ok_def generatorConfig_def int64_range_def NewLoadGenerator_def)
  from issued_valid [OF assms(1) this] assms(2) obtain n where "valid_request generatorConfig n r"
    by (auto simp: NewLoadGenerator_def)
  moreover have "clamp_sizes generatorConfig = (1000, 20000)" by (simp add: clamp_sizes_def generatorConfig_def)
  ultimately show ?thesis by (simp add: valid_request_def request_typed_def)
qed

section \<open>Properties\<close>

text \<open>
  C19: The types of the pipeline.  In every reachable state, with any file, any graph package and any random source, and however
  many requests there have been: every request that the loader has been given lies in the configured file and asks for 1000 to 20000
  bytes; every text given to the tokenizer has at most 20000 bytes; every document given to the embedder has at most 20000 tokens,
  none of them empty; every vector given to the index has dimension 1024, and so has every vector in its graph.
\<close>

theorem pipeline_typed:
  assumes "unicode_ok u" and "pl_reach disk u h seeded metrics p"
  shows "(\<forall>r \<in> set (ss_fed (pl_load p)). request_typed r) \<and>
    (\<forall>d \<in> set (ss_fed (pl_tok p)). document_typed d) \<and>
    (\<forall>t \<in> set (ss_fed (pl_emb p)). tokens_typed t) \<and>
    (\<forall>e \<in> set (ss_fed (pl_idx p)). embedded_typed e) \<and>
    built h (ix_graph (ss_world (pl_idx p)))"
proof -
  obtain ix where ix: "NewEmbeddingIndex h threshold metrics = Inr ix" and parts: "pl_parts disk u h seeded ix p"
    and links: "pl_links p"
    using pl_reach_parts [OF assms(2)] by blast
  note q = parts [unfolded pl_parts_def]
  note l = links [unfolded pl_links_def linked_def lg_linked_def]
  have 1: "\<forall>r \<in> set (ss_fed (pl_load p)). request_typed r"
    using requests_typed [of seeded "pl_gen p"] q l stage_reach_inv [of "dataLoadingStage disk" "()" "pl_load p"]
    by (simp add: stage_inv_def lg_issued_def) blast
  have 2: "\<forall>d \<in> set (ss_fed (pl_tok p)). document_typed d"
    using load_type.outputs_typed [of "dataLoadingStage disk" "()" "pl_load p"] 1 q l
      stage_reach_inv [of "tokenizeStage u" "()" "pl_tok p"] by (simp add: stage_inv_def)
  have 3: "\<forall>t \<in> set (ss_fed (pl_emb p)). tokens_typed t"
    using tok_type.outputs_typed [of "tokenizeStage u" "()" "pl_tok p" u] 2 assms(1) q l
      stage_reach_inv [of embedDocStage "()" "pl_emb p"] by (simp add: stage_inv_def)
  have 4: "\<forall>e \<in> set (ss_fed (pl_idx p)). embedded_typed e"
    using emb_type.outputs_typed [of embedDocStage "()" "pl_emb p"] 3 q l
      stage_reach_inv [of "indexStage h" ix "pl_idx p"] by (simp add: stage_inv_def)
  have "built h (ix_graph ix)" using ix by (auto simp: NewEmbeddingIndex_def built_new split: if_splits)
  then have "built h (ix_graph (ss_world (pl_idx p)))"
    using idx_world.world_kept [of "indexStage h" ix "pl_idx p" h] 4 q by simp
  with 1 2 3 4 show ?thesis by blast
qed


theorem pipeline_typed_witness:
  "\<exists>p. demo_pl_reach p \<and> lg_requests (pl_gen p) = 1 \<and>
     (\<forall>r \<in> set (ss_fed (pl_load p)). 1000 \<le> dl_TextSize r \<and> dl_TextSize r \<le> 20000) \<and>
     built (scan_hnsw equal_dist) (ix_graph (ss_world (pl_idx p)))"
proof -
  obtain p where p: "demo_pl_reach p" "lg_requests (pl_gen p) = 1" by (rule demo_pl_quiet)
  from pipeline_typed [OF latin1_only_ok p(1)] p show ?thesis by (auto simp: request_typed_def)
qed

end
