(* ===== verification/Doc_Main.thy ===== *)
theory Doc_Main
  imports Doc_Telemetry
begin

text \<open>
  The process of \<open>doc-pipeline/main.go\<close>: the set-up with its fatal errors, the two servers, and the pipeline with its meter.
  \<open>http.ListenAndServe\<close> returns only with an error; for the metrics server that is \<open>log.Fatal\<close>, which ends the process
  in the middle of whatever the pipeline is doing, for the profiling server it is a line in the log.
\<close>

section \<open>The process\<close>

record ('g, 'm) doc_process =
  dp_metrics :: telemetry_metrics
  dp_meter :: 'm
  dp_pipeline :: "'g pipeline"
  dp_metrics_server :: bool
  dp_pprof_server :: bool
  dp_exit :: "nat option"

text \<open>\<open>main\<close> up to the printing loop; \<open>Inl\<close> is the exit status of \<open>log.Fatal\<close>.\<close>

definition doc_main ::
  "disk \<Rightarrow> unicode_tables \<Rightarrow> 'g hnsw \<Rightarrow> 'm meter \<Rightarrow> rng \<Rightarrow> nat + ('g, 'm) doc_process" where
  "doc_main disk u h mt seeded =
     (case InitMetrics mt of
        Inl err \<Rightarrow> Inl 1
      | Inr (t, m) \<Rightarrow>
          (case pl_start disk u h seeded fresh_metrics of
             None \<Rightarrow> Inl 1
           | Some p \<Rightarrow>
               Inr \<lparr>dp_metrics = t,
                    dp_meter = foldl (mt_call mt) m
                      (map (SetDeduplicationThreshold t) (im_threshold (ix_metrics (ss_world (pl_idx p))))),
                    dp_pipeline = p, dp_metrics_server = True, dp_pprof_server = True, dp_exit = None\<rparr>))"

inductive doc_step ::
  "disk \<Rightarrow> unicode_tables \<Rightarrow> 'g hnsw \<Rightarrow> 'm meter \<Rightarrow> ('g, 'm) doc_process \<Rightarrow> ('g, 'm) doc_process \<Rightarrow> bool"
  for disk u h mt where
  dm_pipeline: "dp_exit s = None \<Longrightarrow> pl_step disk u h (dp_pipeline s) q \<Longrightarrow>
    doc_step disk u h mt s (s\<lparr>dp_pipeline := q,
      dp_meter := foldl (mt_call mt) (dp_meter s) (pl_calls (dp_metrics s) latency (dp_pipeline s) q)\<rparr>)"
| dm_metrics_server: "dp_exit s = None \<Longrightarrow> dp_metrics_server s \<Longrightarrow>
    doc_step disk u h mt s (s\<lparr>dp_metrics_server := False, dp_exit := Some 1\<rparr>)"
| dm_pprof_server: "dp_exit s = None \<Longrightarrow> dp_pprof_server s \<Longrightarrow>
    doc_step disk u h mt s (s\<lparr>dp_pprof_server := False\<rparr>)"
| dm_return: "dp_exit s = None \<Longrightarrow> pl_returned (dp_pipeline s) \<Longrightarrow>
    doc_step disk u h mt s (s\<lparr>dp_exit := Some 0\<rparr>)"

inductive doc_reach ::
  "disk \<Rightarrow> unicode_tables \<Rightarrow> 'g hnsw \<Rightarrow> 'm meter \<Rightarrow> rng \<Rightarrow> ('g, 'm) doc_process \<Rightarrow> bool"
  for disk u h mt seeded where
  dm_init: "doc_main disk u h mt seeded = Inr s \<Longrightarrow> doc_reach disk u h mt seeded s"
| dm_next: "doc_reach disk u h mt seeded s \<Longrightarrow> doc_step disk u h mt s t \<Longrightarrow> doc_reach disk u h mt seeded t"

section \<open>Properties\<close>

lemma doc_reach_inv:
  "doc_reach disk u h mt seeded s \<Longrightarrow>
     metered disk u h mt seeded (dp_metrics s) (dp_pipeline s) (dp_meter s) \<and>
     dp_exit s = (if dp_metrics_server s then None else Some 1)"
proof (induction rule: doc_reach.induct)
  case (dm_init s)
  then obtain t m p where i: "InitMetrics mt = Inr (t, m)" "pl_start disk u h seeded fresh_metrics = Some p"
    by (auto simp: doc_main_def split: sum.splits option.splits)
  then show ?case using dm_init mt_init [OF i] by (auto simp: doc_main_def)
next
  case (dm_next s t)
  have m: "metered disk u h mt seeded (dp_metrics s) (dp_pipeline s) (dp_meter s)" using dm_next by simp
  from dm_next(2) show ?case
  proof cases
    case (dm_pipeline q latency)
    then show ?thesis using dm_next(3) mt_step [OF m] by simp
  next
    case dm_return
    have "pl_reach disk u h seeded fresh_metrics (dp_pipeline s)" using m
      by (induction rule: metered.induct) (auto intro: pl_init pl_next)
    with dm_return not_returned show ?thesis by blast
  qed (use dm_next(3) m in simp_all)
qed

text \<open>
  C20: The process ends in two ways only.  At the start, with status 1, exactly if the telemetry cannot be set up: the generator,
  the stages and the index are configured so that none of their checks fails.  Later, with status 1, exactly when the metrics
  server gives up, whatever the pipeline is doing then; the printing loop never ends by itself, and without the profiling
  server every part goes on as before.  Up to that moment, and at it, pipeline and exported counters are in a state that the
  pipeline reaches with its meter, so that what the other theorems say holds of what has been printed and exported.
\<close>

theorem doc_process_ends:
  "(doc_main disk u h mt seeded = Inl status \<longleftrightarrow> status = 1 \<and> (\<exists>err. InitMetrics mt = Inl err)) \<and>
   (doc_reach disk u h mt seeded s \<longrightarrow>
      metered disk u h mt seeded (dp_metrics s) (dp_pipeline s) (dp_meter s) \<and>
      (dp_exit s = None \<longrightarrow> dp_metrics_server s \<and>
         doc_step disk u h mt s (s\<lparr>dp_metrics_server := False, dp_exit := Some 1\<rparr>) \<and>
         (\<forall>q. pl_step disk u h (dp_pipeline s) q \<longrightarrow> (\<exists>t. doc_step disk u h mt s t \<and> dp_pipeline t = q))) \<and>
      (dp_exit s \<noteq> None \<longrightarrow> dp_exit s = Some 1 \<and> \<not> dp_metrics_server s \<and> (\<nexists>t. doc_step disk u h mt s t)))"
proof -
  obtain p where p: "pl_start disk u h seeded fresh_metrics = Some p" using pl_starts by blast
  have "doc_main disk u h mt seeded = Inl status \<longleftrightarrow> status = 1 \<and> (\<exists>err. InitMetrics mt = Inl err)"
    by (auto simp: doc_main_def p split: sum.splits)
  moreover have "\<exists>t. doc_step disk u h mt s t \<and> dp_pipeline t = q"
    if "dp_exit s = None" "pl_step disk u h (dp_pipeline s) q" for q
    by (rule exI, rule conjI, rule dm_pipeline [OF that]) simp
  moreover have "\<nexists>t. doc_step disk u h mt s t" if "dp_exit s = Some 1"
    using that by (auto elim: doc_step.cases)
  ultimately show ?thesis
    using doc_reach_inv [of disk u h mt seeded s] dm_metrics_server [of s disk u h mt] by (auto split: if_splits)
qed

theorem doc_process_ends_witness:
  "\<exists>s t. doc_reach demo_pl_disk latin1_only (scan_hnsw equal_dist) log_meter demo_rng s \<and> dp_exit s = None \<and>
     doc_step demo_pl_disk latin1_only (scan_hnsw equal_dist) log_meter s t \<and> dp_exit t = Some 1 \<and>
     (\<nexists>u. doc_step demo_pl_disk latin1_only (scan_hnsw equal_dist) log_meter t u)"
proof -
  let ?main = "doc_main demo_pl_disk latin1_only (scan_hnsw equal_dist) log_meter demo_rng"
  let ?step = "doc_step demo_pl_disk latin1_only (scan_hnsw equal_dist) log_meter"
  have "\<nexists>err. InitMetrics log_meter = Inl err" by (simp add: InitMetrics_def log_meter_def Let_def)
  then have "?main \<noteq> Inl status" for status using doc_process_ends [THEN conjunct1] by blast
  then obtain s where s: "?main = Inr s" by (cases ?main) auto
  note r = dm_init [OF s]
  have x: "dp_exit s = None" using s by (auto simp: doc_main_def split: sum.splits option.splits)
  then have st: "?step s (s\<lparr>dp_metrics_server := False, dp_exit := Some 1\<rparr>)"
    using doc_process_ends [THEN conjunct2, THEN mp, OF r] by blast
  have "\<nexists>u. ?step (s\<lparr>dp_metrics_server := False, dp_exit := Some 1\<rparr>) u"
    using doc_process_ends [THEN conjunct2, THEN mp, OF dm_next [OF r st]] by simp
  with r x st show ?thesis by (intro exI [of _ s] exI [of _ "s\<lparr>dp_metrics_server := False, dp_exit := Some 1\<rparr>"]) simp
qed

end
