(* ===== verification/Proxy_Pool.thy ===== *)
theory Proxy_Pool
  imports Go_Chan
begin

text \<open>
  \<open>reverse-proxy/pkg/pool/pool.go\<close> and \<open>reverse-proxy/pkg/connector/connector.go\<close>: the connection
  pool over a buffered channel, and the two connectors, one dialling per session and one leasing
  from the pool.  The network decides which dials succeed (a stream of outcomes); a connection is
  identified by the dial that made it, and is open until the proxy closes it.  The locale
  \<open>backend_connector\<close> is the contract the engines rely on: a leased connection is open and nobody
  else has it.
\<close>

section \<open>The network\<close>

type_synonym conn = nat

record network =
  nt_outcome :: "nat \<Rightarrow> string option"
  nt_dials :: nat
  nt_open :: "conn set"

definition net_Dial :: "network \<Rightarrow> (string + conn) \<times> network" where
  "net_Dial net =
     (let k = nt_dials net; net = net\<lparr>nt_dials := k + 1\<rparr> in
      case nt_outcome net k of
        Some err \<Rightarrow> (Inl err, net)
      | None \<Rightarrow> (Inr k, net\<lparr>nt_open := insert k (nt_open net)\<rparr>))"

definition conn_Close :: "conn \<Rightarrow> network \<Rightarrow> network" where
  "conn_Close c net = net\<lparr>nt_open := nt_open net - {c}\<rparr>"

definition net_ok :: "network \<Rightarrow> bool" where
  "net_ok net \<longleftrightarrow> (\<forall>c \<in> nt_open net. c < nt_dials net)"

section \<open>The pool\<close>

record conn_pool =
  cp_backendAddr :: string
  cp_pool :: "conn chan"

fun fill_pool :: "nat \<Rightarrow> conn chan \<Rightarrow> network \<Rightarrow> (string + conn chan) \<times> network" where
  "fill_pool 0 ch net = (Inr ch, net)"
| "fill_pool (Suc i) ch net =
     (case net_Dial net of
        (Inl err, net) \<Rightarrow> (Inl err, net)
      | (Inr c, net) \<Rightarrow>
          (case chan_send c ch of
             Sent ch \<Rightarrow> fill_pool i ch net
           | _ \<Rightarrow> (Inl ''blocked'', net)))"

text \<open>\<open>make(chan net.Conn, size)\<close> panics (\<open>None\<close>) for a negative size.\<close>

definition NewConnPool :: "string \<Rightarrow> int \<Rightarrow> network \<Rightarrow> ((string + conn_pool) \<times> network) option" where
  "NewConnPool backendAddr sz net =
     (if sz < 0 then None
      else Some
        (case fill_pool (nat sz) (make_chan (nat sz)) net of
           (Inl err, net) \<Rightarrow> (Inl err, net)
         | (Inr ch, net) \<Rightarrow> (Inr \<lparr>cp_backendAddr = backendAddr, cp_pool = ch\<rparr>, net)))"

text \<open>A receive on an empty pool blocks the caller.\<close>

datatype 's get_result = Got conn 's | Get_Error string 's | Get_Blocks

definition pool_Get :: "conn_pool \<times> network \<Rightarrow> (conn_pool \<times> network) get_result" where
  "pool_Get s =
     (case s of (cp, net) \<Rightarrow>
        (case chan_recv (cp_pool cp) of
           Received c ch \<Rightarrow> Got c (cp\<lparr>cp_pool := ch\<rparr>, net)
         | _ \<Rightarrow> Get_Blocks))"

definition pool_Return :: "conn \<Rightarrow> conn_pool \<times> network \<Rightarrow> conn_pool \<times> network" where
  "pool_Return c s =
     (case s of (cp, net) \<Rightarrow>
        (case chan_send c (cp_pool cp) of
           Sent ch \<Rightarrow> (cp\<lparr>cp_pool := ch\<rparr>, net)
         | _ \<Rightarrow> (cp, conn_Close c net)))"

section \<open>The dialling connector\<close>

record dial_connector =
  adc_backendAddr :: string

definition NewAlwaysDialConnector :: "string \<Rightarrow> dial_connector" where
  "NewAlwaysDialConnector backendAddr = \<lparr>adc_backendAddr = backendAddr\<rparr>"

definition dial_Get :: "dial_connector \<times> network \<Rightarrow> (dial_connector \<times> network) get_result" where
  "dial_Get s =
     (case s of (adc, net) \<Rightarrow>
        (case net_Dial net of
           (Inl err, net) \<Rightarrow> Get_Error err (adc, net)
         | (Inr c, net) \<Rightarrow> Got c (adc, net)))"

definition dial_Return :: "conn \<Rightarrow> dial_connector \<times> network \<Rightarrow> dial_connector \<times> network" where
  "dial_Return c s = (case s of (adc, net) \<Rightarrow> (adc, conn_Close c net))"

definition NewPoolConnector :: "string \<Rightarrow> int \<Rightarrow> network \<Rightarrow> ((string + conn_pool) \<times> network) option" where
  "NewPoolConnector backendAddr sz net =
     (case NewConnPool backendAddr sz net of
        None \<Rightarrow> None
      | Some (Inl err, net) \<Rightarrow> Some (Inl err, net)
      | Some (Inr p, net) \<Rightarrow> Some (Inr p, net))"

section \<open>The connector contract\<close>

text \<open>
  \<open>ok s L\<close>: the connector's state is consistent when the sessions hold the connections \<open>L\<close>.
\<close>

locale backend_connector =
  fixes get :: "'s \<Rightarrow> 's get_result"
    and ret :: "conn \<Rightarrow> 's \<Rightarrow> 's"
    and opened :: "'s \<Rightarrow> conn set"
    and ok :: "'s \<Rightarrow> conn set \<Rightarrow> bool"
  assumes get_fresh: "ok s L \<Longrightarrow> get s = Got c s' \<Longrightarrow> c \<notin> L"
    and get_ok: "ok s L \<Longrightarrow> get s = Got c s' \<Longrightarrow> ok s' (insert c L)"
    and get_error_ok: "ok s L \<Longrightarrow> get s = Get_Error e s' \<Longrightarrow> ok s' L"
    and ret_ok: "ok s L \<Longrightarrow> c \<in> L \<Longrightarrow> ok (ret c s) (L - {c})"
    and leased_open: "ok s L \<Longrightarrow> L \<subseteq> opened s"
begin

text \<open>
  Sessions over the connector: \<open>holders\<close> maps a session to the connection it holds.  A session that
  holds nothing may get a connection; one that holds a connection may return it.
\<close>

inductive lease_run :: "'s \<Rightarrow> 's \<Rightarrow> (nat \<Rightarrow> conn option) \<Rightarrow> bool" for s0 where
  lr_start: "lease_run s0 s0 Map.empty"
| lr_get: "lease_run s0 s h \<Longrightarrow> h i = None \<Longrightarrow> get s = Got c s' \<Longrightarrow> lease_run s0 s' (h(i \<mapsto> c))"
| lr_error: "lease_run s0 s h \<Longrightarrow> h i = None \<Longrightarrow> get s = Get_Error e s' \<Longrightarrow> lease_run s0 s' h"
| lr_return: "lease_run s0 s h \<Longrightarrow> h i = Some c \<Longrightarrow> lease_run s0 (ret c s) (h(i := None))"

lemma lease_run_inv:
  "lease_run s0 s h \<Longrightarrow> ok s0 {} \<Longrightarrow> ok s (ran h) \<and> inj_on h (dom h)"
proof (induction rule: lease_run.induct)
  case (lr_get s h i c s')
  then have ok: "ok s (ran h)" and inj: "inj_on h (dom h)" by simp_all
  have "c \<notin> ran h" using get_fresh [OF ok lr_get.hyps(3)] .
  then have "h x \<noteq> Some c" "Some c \<noteq> h x" for x by (auto simp: ran_def)
  then have "inj_on (h(i \<mapsto> c)) (dom (h(i \<mapsto> c)))"
    using inj lr_get.hyps(2) by (auto simp: inj_on_def dom_def)
  moreover have "ran (h(i \<mapsto> c)) = insert c (ran h)" using lr_get.hyps(2) by simp
  ultimately show ?case using get_ok [OF ok lr_get.hyps(3)] by (simp only: simp_thms)
next
  case (lr_error s h i e s')
  then show ?case using get_error_ok by blast
next
  case (lr_return s h i c)
  then have ok: "ok s (ran h)" and inj: "inj_on h (dom h)" by simp_all
  have "ran (h(i := None)) = ran h - {c}"
  proof -
    have only: "j = i" if "h j = Some c" for j
      by (rule inj_onD [OF inj]) (use that lr_return.hyps(2) in auto)
    show ?thesis
    proof (intro equalityI subsetI)
      fix d assume "d \<in> ran (h(i := None))"
      then obtain j where "j \<noteq> i" "h j = Some d" by (auto simp: ran_def split: if_splits)
      then show "d \<in> ran h - {c}" using only by (auto intro: ranI)
    next
      fix d assume "d \<in> ran h - {c}"
      then obtain j where "h j = Some d" "d \<noteq> c" by (auto simp: ran_def)
      then have "(h(i := None)) j = Some d" using lr_return.hyps(2) by auto
      then show "d \<in> ran (h(i := None))" by (rule ranI)
    qed
  qed
  moreover have "c \<in> ran h" using lr_return.hyps(2) by (rule ranI)
  moreover have "inj_on (h(i := None)) (dom (h(i := None)))"
    using inj by (auto simp: inj_on_def)
  ultimately show ?case using ret_ok [OF ok, of c] by (simp only: simp_thms)
qed simp

lemma lease_exclusive:
  assumes "lease_run s0 s h" and "ok s0 {}"
  shows "(\<forall>i j c. h i = Some c \<longrightarrow> h j = Some c \<longrightarrow> i = j) \<and> ran h \<subseteq> opened s"
proof -
  have inv: "ok s (ran h)" "inj_on h (dom h)" using lease_run_inv [OF assms] by simp_all
  have "h i = Some c \<Longrightarrow> h j = Some c \<Longrightarrow> i = j" for i j c using inv(2) by (metis domI inj_onD)
  then show ?thesis using leased_open [OF inv(1)] by blast
qed

end

section \<open>Both connectors keep the contract\<close>

definition dial_ok :: "dial_connector \<times> network \<Rightarrow> conn set \<Rightarrow> bool" where
  "dial_ok s L \<longleftrightarrow> net_ok (snd s) \<and> L \<subseteq> nt_open (snd s)"

text \<open>
  The pool's consistency: what is pooled is open, pooled once and not leased, and pooled and leased
  connections together are as many as the pool has room for.
\<close>

definition pool_ok :: "conn_pool \<times> network \<Rightarrow> conn set \<Rightarrow> bool" where
  "pool_ok s L \<longleftrightarrow>
     (case s of (cp, net) \<Rightarrow>
        net_ok net \<and> \<not> ch_closed (cp_pool cp) \<and> finite L \<and> L \<subseteq> nt_open net \<and>
        set (ch_buf (cp_pool cp)) \<subseteq> nt_open net \<and> distinct (ch_buf (cp_pool cp)) \<and>
        L \<inter> set (ch_buf (cp_pool cp)) = {} \<and>
        card L + length (ch_buf (cp_pool cp)) = ch_cap (cp_pool cp))"

lemma net_Dial_Inr:
  "net_Dial net = (Inr c, net') \<longleftrightarrow> nt_outcome net (nt_dials net) = None \<and> c = nt_dials net \<and>
     net' = net\<lparr>nt_dials := nt_dials net + 1, nt_open := insert c (nt_open net)\<rparr>"
  by (auto simp: net_Dial_def Let_def split: option.splits)

lemma net_Dial_Inl:
  "net_Dial net = (Inl e, net') \<longleftrightarrow> nt_outcome net (nt_dials net) = Some e \<and>
     net' = net\<lparr>nt_dials := nt_dials net + 1\<rparr>"
  by (auto simp: net_Dial_def Let_def split: option.splits)

lemma dial_Get_Got: "dial_Get (adc, net) = Got c s' \<longleftrightarrow> (\<exists>net'. net_Dial net = (Inr c, net') \<and> s' = (adc, net'))"
  by (auto simp: dial_Get_def split: prod.splits sum.splits)

lemma dial_Get_Error: "dial_Get (adc, net) = Get_Error e s' \<longleftrightarrow> (\<exists>net'. net_Dial net = (Inl e, net') \<and> s' = (adc, net'))"
  by (auto simp: dial_Get_def split: prod.splits sum.splits)

interpretation dialler: backend_connector dial_Get dial_Return "\<lambda>s. nt_open (snd s)" dial_ok
proof unfold_locales
  fix s L c s' assume ok: "dial_ok s L" and g: "dial_Get s = Got c s'"
  obtain adc net where s: "s = (adc, net)" by fastforce
  show "c \<notin> L" using ok g unfolding s by (auto simp: dial_Get_Got net_Dial_Inr dial_ok_def net_ok_def)
  show "dial_ok s' (insert c L)"
    using ok g unfolding s by (auto simp: dial_Get_Got net_Dial_Inr dial_ok_def net_ok_def intro: less_SucI)
next
  fix s L e s' assume ok: "dial_ok s L" and g: "dial_Get s = Get_Error e s'"
  obtain adc net where s: "s = (adc, net)" by fastforce
  show "dial_ok s' L"
    using ok g unfolding s by (auto simp: dial_Get_Error net_Dial_Inl dial_ok_def net_ok_def intro: less_SucI)
next
  fix s L c assume "dial_ok s L" and "c \<in> L"
  then show "dial_ok (dial_Return c s) (L - {c})"
    by (auto simp: dial_ok_def dial_Return_def conn_Close_def net_ok_def split: prod.splits)
next
  fix s L assume "dial_ok s L"
  then show "L \<subseteq> nt_open (snd s)" by (simp add: dial_ok_def)
qed

lemma pool_Get_Got:
  "pool_Get (cp, net) = Got c s' \<longleftrightarrow>
     (\<exists>xs. ch_buf (cp_pool cp) = c # xs \<and> s' = (cp\<lparr>cp_pool := (cp_pool cp)\<lparr>ch_buf := xs\<rparr>\<rparr>, net))"
  by (auto simp: pool_Get_def chan_recv_def split: list.splits)

lemma pool_Get_no_error: "pool_Get s \<noteq> Get_Error e s'"
  by (auto simp: pool_Get_def split: prod.splits recv_result.splits)

text \<open>A leased connection always fits back: the branch for excess connections is not taken.\<close>

lemma pool_Return_fits:
  assumes "pool_ok (cp, net) L" and "c \<in> L"
  shows "pool_Return c (cp, net) = (cp\<lparr>cp_pool := (cp_pool cp)\<lparr>ch_buf := ch_buf (cp_pool cp) @ [c]\<rparr>\<rparr>, net)"
proof -
  have "0 < card L" using assms by (auto simp: pool_ok_def card_gt_0_iff)
  then have "length (ch_buf (cp_pool cp)) < ch_cap (cp_pool cp)" using assms(1) by (auto simp: pool_ok_def)
  then show ?thesis using assms(1) by (simp add: pool_Return_def chan_send_def pool_ok_def)
qed

interpretation pooled: backend_connector pool_Get pool_Return "\<lambda>s. nt_open (snd s)" pool_ok
proof unfold_locales
  fix s L c s' assume ok: "pool_ok s L" and g: "pool_Get s = Got c s'"
  obtain cp net where s: "s = (cp, net)" by fastforce
  show "c \<notin> L" using ok g unfolding s by (auto simp: pool_Get_Got pool_ok_def)
  show "pool_ok s' (insert c L)" using ok g unfolding s by (auto simp: pool_Get_Got pool_ok_def)
next
  fix s L e s' assume "pool_Get s = Get_Error e s'"
  then show "pool_ok s' L" using pool_Get_no_error by blast
next
  fix s L c assume ok: "pool_ok s L" and c: "c \<in> L"
  obtain cp net where s: "s = (cp, net)" by fastforce
  have "card (L - {c}) + 1 = card L"
    using ok c unfolding s by (simp add: pool_ok_def card_Diff_singleton card_gt_0_iff Suc_leI) (metis card_gt_0_iff emptyE Suc_pred)
  then show "pool_ok (pool_Return c s) (L - {c})"
    using ok c unfolding s pool_Return_fits [OF ok [unfolded s] c] by (auto simp: pool_ok_def)
next
  fix s L assume "pool_ok s L"
  then show "L \<subseteq> nt_open (snd s)" by (auto simp: pool_ok_def)
qed

section \<open>Filling the pool\<close>

lemma fill_pool_success:
  "\<forall>j < i. nt_outcome net (nt_dials net + j) = None \<Longrightarrow> \<not> ch_closed ch \<Longrightarrow>
   length (ch_buf ch) + i \<le> ch_cap ch \<Longrightarrow>
   fill_pool i ch net =
     (Inr (ch\<lparr>ch_buf := ch_buf ch @ [nt_dials net..<nt_dials net + i]\<rparr>),
      net\<lparr>nt_dials := nt_dials net + i, nt_open := nt_open net \<union> {nt_dials net..<nt_dials net + i}\<rparr>)"
proof (induction i arbitrary: ch net)
  case (Suc i)
  let ?k = "nt_dials net"
  let ?net = "net\<lparr>nt_dials := ?k + 1, nt_open := insert ?k (nt_open net)\<rparr>"
  let ?ch = "ch\<lparr>ch_buf := ch_buf ch @ [?k]\<rparr>"
  have "nt_outcome net ?k = None" using Suc.prems(1) [rule_format, of 0] by simp
  then have d: "net_Dial net = (Inr ?k, ?net)" by (simp add: net_Dial_def Let_def)
  have c: "chan_send ?k ch = Sent ?ch" using Suc.prems(2, 3) by (simp add: chan_send_def)
  have "nt_outcome ?net (nt_dials ?net + j) = None" if "j < i" for j
    using Suc.prems(1) [rule_format, of "Suc j"] that by simp
  then have "fill_pool i ?ch ?net =
      (Inr (?ch\<lparr>ch_buf := ch_buf ?ch @ [nt_dials ?net..<nt_dials ?net + i]\<rparr>),
       ?net\<lparr>nt_dials := nt_dials ?net + i, nt_open := nt_open ?net \<union> {nt_dials ?net..<nt_dials ?net + i}\<rparr>)"
    using Suc.prems(2, 3) by (intro Suc.IH) simp_all
  moreover have "[?k..<?k + Suc i] = ?k # [Suc ?k..<Suc ?k + i]" by (simp add: upt_conv_Cons)
  moreover have "{?k..<?k + Suc i} = insert ?k {Suc ?k..<Suc ?k + i}" by auto
  ultimately show ?case by (simp add: d c)
qed simp

lemma fill_pool_failure:
  "j < i \<Longrightarrow> \<forall>k < j. nt_outcome net (nt_dials net + k) = None \<Longrightarrow> nt_outcome net (nt_dials net + j) = Some e \<Longrightarrow>
   \<not> ch_closed ch \<Longrightarrow> length (ch_buf ch) + i \<le> ch_cap ch \<Longrightarrow>
   fill_pool i ch net =
     (Inl e, net\<lparr>nt_dials := nt_dials net + j + 1, nt_open := nt_open net \<union> {nt_dials net..<nt_dials net + j}\<rparr>)"
proof (induction i arbitrary: j ch net)
  case (Suc i)
  let ?k = "nt_dials net"
  show ?case
  proof (cases j)
    case 0
    then show ?thesis using Suc.prems(3) by (simp add: net_Dial_def Let_def)
  next
    case (Suc j')
    let ?net = "net\<lparr>nt_dials := ?k + 1, nt_open := insert ?k (nt_open net)\<rparr>"
    let ?ch = "ch\<lparr>ch_buf := ch_buf ch @ [?k]\<rparr>"
    have "nt_outcome net ?k = None" using Suc.prems(2) [rule_format, of 0] Suc by simp
    then have d: "net_Dial net = (Inr ?k, ?net)" by (simp add: net_Dial_def Let_def)
    have c: "chan_send ?k ch = Sent ?ch" using Suc.prems(4, 5) by (simp add: chan_send_def)
    have "nt_outcome ?net (nt_dials ?net + l) = None" if "l < j'" for l
      using Suc.prems(2) [rule_format, of "Suc l"] that Suc by simp
    then have "fill_pool i ?ch ?net = (Inl e, ?net\<lparr>nt_dials := nt_dials ?net + j' + 1,
        nt_open := nt_open ?net \<union> {nt_dials ?net..<nt_dials ?net + j'}\<rparr>)"
      using Suc.prems Suc by (intro Suc.IH) simp_all
    moreover have "{?k..<?k + Suc j'} = insert ?k {Suc ?k..<Suc ?k + j'}" by auto
    ultimately show ?thesis by (simp add: d c Suc)
  qed
qed simp

lemma new_pool_success:
  assumes "0 \<le> n" and "\<forall>j < nat n. nt_outcome net (nt_dials net + j) = None"
  shows "NewConnPool addr n net = Some
    (Inr \<lparr>cp_backendAddr = addr,
          cp_pool = \<lparr>ch_cap = nat n, ch_buf = [nt_dials net..<nt_dials net + nat n], ch_closed = False\<rparr>\<rparr>,
     net\<lparr>nt_dials := nt_dials net + nat n, nt_open := nt_open net \<union> {nt_dials net..<nt_dials net + nat n}\<rparr>)"
  using assms fill_pool_success [OF assms(2), of "make_chan (nat n)"]
  by (simp add: NewConnPool_def make_chan_def)

lemma new_pool_failure:
  assumes "int j < n" and "\<forall>k < j. nt_outcome net (nt_dials net + k) = None" and "nt_outcome net (nt_dials net + j) = Some e"
  shows "NewConnPool addr n net = Some
    (Inl e, net\<lparr>nt_dials := nt_dials net + j + 1, nt_open := nt_open net \<union> {nt_dials net..<nt_dials net + j}\<rparr>)"
proof -
  have "j < nat n" using assms(1) by simp
  then show ?thesis
    using assms fill_pool_failure [OF _ assms(2, 3), of "nat n" "make_chan (nat n)"]
    by (simp add: NewConnPool_def make_chan_def)
qed

lemma new_pool_dialled:
  assumes "NewConnPool addr n net = Some (Inr cp, net')"
  shows "0 \<le> n \<and> (\<forall>j < nat n. nt_outcome net (nt_dials net + j) = None)"
proof -
  have n: "0 \<le> n" using assms(1) by (auto simp: NewConnPool_def split: if_splits)
  have "nt_outcome net (nt_dials net + j) = None" if j: "j < nat n" for j
  proof (rule ccontr)
    assume bad: "nt_outcome net (nt_dials net + j) \<noteq> None"
    let ?P = "\<lambda>j. nt_outcome net (nt_dials net + j) \<noteq> None"
    define m where "m = (LEAST j. ?P j)"
    have m: "?P m" "m \<le> j" "\<forall>k < m. \<not> ?P k"
      using LeastI [of ?P, OF bad] Least_le [of ?P, OF bad] not_less_Least [of _ ?P] unfolding m_def by auto
    then obtain e where "nt_outcome net (nt_dials net + m) = Some e" by blast
    then have "\<exists>s. NewConnPool addr n net = Some (Inl e, s)"
      using new_pool_failure [of m n net e addr] m j by auto
    with assms(1) show False by auto
  qed
  with n show ?thesis by blast
qed

lemma new_pool_length:
  "NewConnPool addr n net = Some (Inr cp, net') \<Longrightarrow> length (ch_buf (cp_pool cp)) = nat n"
  using new_pool_dialled [of addr n net cp net'] new_pool_success [of n net addr] by auto

lemma new_pool_ok:
  assumes "NewConnPool addr n net = Some (Inr cp, net')" and "net_ok net"
  shows "pool_ok (cp, net') {} \<and> ch_cap (cp_pool cp) = nat n"
  using new_pool_dialled [OF assms(1)] new_pool_success [of n net addr] assms
  by (auto simp: pool_ok_def net_ok_def)

section \<open>Properties\<close>

text \<open>
  \<open>NewConnPool\<close> with a non-negative size either dials all its connections, and the pool holds
  exactly them, fresh, open and in dialling order; or a dial fails, the first failure is returned, and
  the connections dialled before it stay open although nobody holds them any more: they leak.
\<close>

theorem new_pool_outcomes:
  assumes "0 \<le> n"
  shows "((\<forall>j < nat n. nt_outcome net (nt_dials net + j) = None) \<longrightarrow>
      NewConnPool addr n net = Some
        (Inr \<lparr>cp_backendAddr = addr,
              cp_pool = \<lparr>ch_cap = nat n, ch_buf = [nt_dials net..<nt_dials net + nat n], ch_closed = False\<rparr>\<rparr>,
         net\<lparr>nt_dials := nt_dials net + nat n, nt_open := nt_open net \<union> {nt_dials net..<nt_dials net + nat n}\<rparr>)) \<and>
    (\<forall>j e. int j < n \<and> (\<forall>k < j. nt_outcome net (nt_dials net + k) = None) \<and>
       nt_outcome net (nt_dials net + j) = Some e \<longrightarrow>
      NewConnPool addr n net = Some
        (Inl e, net\<lparr>nt_dials := nt_dials net + j + 1, nt_open := nt_open net \<union> {nt_dials net..<nt_dials net + j}\<rparr>))"
  using new_pool_success [OF assms] new_pool_failure by blast

definition flaky_network :: "nat \<Rightarrow> network" where
  "flaky_network k = \<lparr>nt_outcome = (\<lambda>i. if i = k then Some ''refused'' else None), nt_dials = 0, nt_open = {}\<rparr>"

theorem new_pool_outcomes_witness:
  "NewConnPool ''b'' 3 (flaky_network 2) = Some
     (Inl ''refused'', (flaky_network 2)\<lparr>nt_dials := 3, nt_open := {0, 1}\<rparr>)"
proof -
  have f: "int 2 < 3 \<and> (\<forall>k < 2. nt_outcome (flaky_network 2) (nt_dials (flaky_network 2) + k) = None) \<and>
      nt_outcome (flaky_network 2) (nt_dials (flaky_network 2) + 2) = Some ''refused''"
    by (simp add: flaky_network_def)
  have n: "(0 :: int) \<le> 3" by simp
  have "{nt_dials (flaky_network 2)..<nt_dials (flaky_network 2) + 2} = {0, 1 :: nat}"
    by (auto simp: flaky_network_def)
  with new_pool_outcomes [OF n, THEN conjunct2, rule_format, OF f, of "''b''"]
  show ?thesis by (simp add: flaky_network_def)
qed

text \<open>
  C23: however the sessions get and return connections, no connection of the pool is ever held by two of them, what
  they hold is open, and held and pooled connections are together the \<open>n\<close> the pool was made with, so
  returning one always finds room (the branch that closes an excess connection is never taken) and the pool
  blocks only when all \<open>n\<close> are held.
\<close>

theorem pool_leases:
  assumes "NewConnPool addr n net = Some (Inr cp, net')" and "net_ok net"
    and "pooled.lease_run (cp, net') s h"
  shows "(\<forall>i j c. h i = Some c \<longrightarrow> h j = Some c \<longrightarrow> i = j) \<and> ran h \<subseteq> nt_open (snd s) \<and>
    card (ran h) + length (ch_buf (cp_pool (fst s))) = nat n \<and>
    (\<forall>i c. h i = Some c \<longrightarrow> nt_open (snd (pool_Return c s)) = nt_open (snd s)) \<and>
    (pool_Get s = Get_Blocks \<longleftrightarrow> card (ran h) = nat n)"
proof -
  have ok: "pool_ok (cp, net') {}" and cap: "ch_cap (cp_pool cp) = nat n"
    using new_pool_ok [OF assms(1, 2)] by simp_all
  have inv: "pool_ok s (ran h)" using pooled.lease_run_inv [OF assms(3) ok] by simp
  have caps: "ch_cap (cp_pool (fst s)) = nat n" using assms(3)
  proof (induction rule: pooled.lease_run.induct)
    case (lr_get s h i c s')
    then show ?case by (cases s) (auto simp: pool_Get_Got)
  next
    case (lr_error s h i e s')
    then show ?case using pool_Get_no_error by blast
  next
    case (lr_return s h i c)
    then show ?case by (cases s) (auto simp: pool_Return_def chan_send_def)
  qed (simp add: cap)
  obtain p m where s: "s = (p, m)" by fastforce
  have count: "card (ran h) + length (ch_buf (cp_pool p)) = nat n"
    using inv caps unfolding s by (auto simp: pool_ok_def)
  have "nt_open (snd (pool_Return c s)) = nt_open (snd s)" if "h i = Some c" for i c
    using pool_Return_fits [OF inv [unfolded s], of c] ranI [of h i c] that unfolding s by simp
  moreover have "pool_Get s = Get_Blocks \<longleftrightarrow> ch_buf (cp_pool p) = []"
    using inv unfolding s by (auto simp: pool_Get_def chan_recv_def pool_ok_def split: list.splits)
  ultimately show ?thesis
    using pooled.lease_exclusive [OF assms(3) ok] count unfolding s by auto
qed

theorem pool_leases_witness:
  "\<exists>cp net' s. NewConnPool ''b'' 1 (flaky_network 5) = Some (Inr cp, net') \<and>
     pooled.lease_run (cp, net') s [0 \<mapsto> 0] \<and> pool_Get s = Get_Blocks"
proof -
  let ?net' = "(flaky_network 5)\<lparr>nt_dials := 1, nt_open := {0}\<rparr>"
  let ?cp = "\<lparr>cp_backendAddr = ''b'', cp_pool = \<lparr>ch_cap = 1, ch_buf = [0], ch_closed = False\<rparr>\<rparr>"
  let ?cp' = "?cp\<lparr>cp_pool := \<lparr>ch_cap = 1, ch_buf = [], ch_closed = False\<rparr>\<rparr>"
  have new: "NewConnPool ''b'' 1 (flaky_network 5) = Some (Inr ?cp, ?net')"
    using new_pool_success [of 1 "flaky_network 5" "''b''"] by (simp add: flaky_network_def)
  have ok: "net_ok (flaky_network 5)" by (simp add: net_ok_def flaky_network_def)
  have "pool_Get (?cp, ?net') = Got 0 (?cp', ?net')" by (simp add: pool_Get_Got)
  from pooled.lr_get [OF pooled.lr_start _ this, of 0] have run: "pooled.lease_run (?cp, ?net') (?cp', ?net') [0 \<mapsto> 0]"
    by simp
  have "pool_Get (?cp', ?net') = Get_Blocks" using pool_leases [OF new ok run] by simp
  with new run show ?thesis by blast
qed

end
