(* ===== verification/Proxy_Engine.thy ===== *)
theory Proxy_Engine
  imports Proxy_Pool "HOL-Library.Sublist"
begin

text \<open>
  \<open>reverse-proxy/pkg/engine/engine.go\<close> and the selection of engine and connector in
  \<open>reverse-proxy/cmd/proxy/main.go\<close>.  The goroutine engine is a step relation over sessions: each
  is a goroutine that leases a connection, copies down, returns the connection and closes its client,
  with a second goroutine copying up.  The epoll engine is its table of connections and its handlers
  over a model of the kernel: per descriptor the bytes arrived, unread and written, and the queue
  of edge-triggered events.  The connector is the pair of operations \<open>get\<close> and \<open>ret\<close>.
\<close>

section \<open>Choosing the parts\<close>

datatype backend = Pool_Backend conn_pool | Dial_Backend dial_connector

datatype engine = Goroutine_Engine | Epoll_Engine

text \<open>An unknown name ends the process with status 2, and so is \<open>Inl 2\<close>; \<open>log.Fatalf\<close> is \<open>Inl 1\<close>.\<close>

definition resolveConnector :: "string \<Rightarrow> string \<Rightarrow> network \<Rightarrow> (nat + backend) \<times> network" where
  "resolveConnector backendAddr connectorType net =
     (if connectorType = ''pool'' then
        (case NewPoolConnector backendAddr 10 net of
           Some (Inr p, net) \<Rightarrow> (Inr (Pool_Backend p), net)
         | Some (Inl err, net) \<Rightarrow> (Inl 1, net)
         | None \<Rightarrow> (Inl 2, net))
      else if connectorType = ''dial'' then (Inr (Dial_Backend (NewAlwaysDialConnector backendAddr)), net)
      else (Inl 2, net))"

definition resolveEngine :: "string \<Rightarrow> string option \<Rightarrow> nat + engine" where
  "resolveEngine engineType epollCreate =
     (if engineType = ''goroutine'' then Inr Goroutine_Engine
      else if engineType = ''epoll'' then
        (case epollCreate of Some err \<Rightarrow> Inl 1 | None \<Rightarrow> Inr Epoll_Engine)
      else Inl 2)"

section \<open>The goroutine engine\<close>

text \<open>
  A session: before \<open>Get\<close>; relaying over a connection; after the deferred \<open>Return\<close>; after the deferred
  \<open>Close\<close> of the client.  The flag tells whether the goroutine of \<open>io.Copy(backendConn, clientConn)\<close> is
  still running: nothing waits for it.
\<close>

datatype session = Serving | Relaying conn bool | Handed_Back conn bool | Closed conn bool | Failed

record 's goroutine_engine =
  ge_backend :: 's
  ge_sessions :: "session list"
  ge_writes :: "(nat \<times> conn) list"

definition at_session :: "'s goroutine_engine \<Rightarrow> nat \<Rightarrow> session \<Rightarrow> bool" where
  "at_session s i p \<longleftrightarrow> i < length (ge_sessions s) \<and> ge_sessions s ! i = p"

abbreviation set_session :: "nat \<Rightarrow> session \<Rightarrow> 's goroutine_engine \<Rightarrow> 's goroutine_engine" where
  "set_session i p s \<equiv> s\<lparr>ge_sessions := (ge_sessions s)[i := p]\<rparr>"

fun copying_up :: "session \<Rightarrow> conn option" where
  "copying_up (Relaying c True) = Some c"
| "copying_up (Handed_Back c True) = Some c"
| "copying_up (Closed c True) = Some c"
| "copying_up _ = None"

fun up_ended :: "session \<Rightarrow> session" where
  "up_ended (Relaying c _) = Relaying c False"
| "up_ended (Handed_Back c _) = Handed_Back c False"
| "up_ended (Closed c _) = Closed c False"
| "up_ended p = p"

inductive ge_step ::
  "('s \<Rightarrow> 's get_result) \<Rightarrow> (conn \<Rightarrow> 's \<Rightarrow> 's) \<Rightarrow> 's goroutine_engine \<Rightarrow> 's goroutine_engine \<Rightarrow> bool"
  for get ret where
  g_accept: "ge_step get ret s (s\<lparr>ge_sessions := ge_sessions s @ [Serving]\<rparr>)"
| g_get: "at_session s i Serving \<Longrightarrow> get (ge_backend s) = Got c b \<Longrightarrow>
    ge_step get ret s (set_session i (Relaying c True) (s\<lparr>ge_backend := b\<rparr>))"
| g_fail: "at_session s i Serving \<Longrightarrow> get (ge_backend s) = Get_Error e b \<Longrightarrow>
    ge_step get ret s (set_session i Failed (s\<lparr>ge_backend := b\<rparr>))"
| g_up_write: "at_session s i p \<Longrightarrow> copying_up p = Some c \<Longrightarrow>
    ge_step get ret s (s\<lparr>ge_writes := ge_writes s @ [(i, c)]\<rparr>)"
| g_up_end: "at_session s i p \<Longrightarrow> copying_up p = Some c \<Longrightarrow>
    ge_step get ret s (set_session i (up_ended p) s)"
| g_return: "at_session s i (Relaying c u) \<Longrightarrow>
    ge_step get ret s (set_session i (Handed_Back c u) (s\<lparr>ge_backend := ret c (ge_backend s)\<rparr>))"
| g_close: "at_session s i (Handed_Back c u) \<Longrightarrow>
    ge_step get ret s (set_session i (Closed c u) s)"

inductive ge_reach ::
  "('s \<Rightarrow> 's get_result) \<Rightarrow> (conn \<Rightarrow> 's \<Rightarrow> 's) \<Rightarrow> 's \<Rightarrow> 's goroutine_engine \<Rightarrow> bool"
  for get ret b where
  ge_start: "ge_reach get ret b \<lparr>ge_backend = b, ge_sessions = [], ge_writes = []\<rparr>"
| ge_next: "ge_reach get ret b s \<Longrightarrow> ge_step get ret s t \<Longrightarrow> ge_reach get ret b t"

section \<open>The epoll engine\<close>

text \<open>
  The kernel's side: for a descriptor the bytes that have arrived, those not yet read, whether the peer
  has closed, and the bytes written to it; the descriptors in the epoll set; those whose edge has fired and not been
  collected; and the descriptors closed.
\<close>

record kernel =
  kn_arrived :: "int \<Rightarrow> bytes"
  kn_rx :: "int \<Rightarrow> bytes"
  kn_eof :: "int \<Rightarrow> bool"
  kn_tx :: "int \<Rightarrow> bytes"
  kn_watched :: "int set"
  kn_ready :: "int list"
  kn_closed :: "int list"

record proxy_conn =
  pc_clientFd :: int
  pc_backendFd :: int

definition buf_size :: nat where
  "buf_size = 32 * 1024"

record 's epoll_engine =
  en_conns :: "int \<Rightarrow> proxy_conn option"
  en_kernel :: kernel
  en_backend :: 's
  en_gets :: nat
  en_short :: nat

definition NewEpollEngine :: "'s \<Rightarrow> kernel \<Rightarrow> 's epoll_engine" where
  "NewEpollEngine b k = \<lparr>en_conns = Map.empty, en_kernel = k, en_backend = b, en_gets = 0, en_short = 0\<rparr>"

definition new_socket :: "int \<Rightarrow> kernel \<Rightarrow> kernel" where
  "new_socket fd k = k\<lparr>kn_arrived := (kn_arrived k)(fd := []), kn_rx := (kn_rx k)(fd := []),
     kn_eof := (kn_eof k)(fd := False), kn_tx := (kn_tx k)(fd := []),
     kn_watched := kn_watched k - {fd}\<rparr>"

text \<open>Adding a descriptor reports it once: a new socket is writable.\<close>

definition epoll_add :: "int \<Rightarrow> kernel \<Rightarrow> kernel" where
  "epoll_add fd k = k\<lparr>kn_watched := insert fd (kn_watched k), kn_ready := kn_ready k @ [fd]\<rparr>"

text \<open>
  \<open>Serve\<close>: \<open>None\<close> when \<open>Get\<close> blocks; otherwise the error, if any, and the state.  The results of
  \<open>fdFromConn\<close> for the client and the backend and of the two \<open>EpollCtl\<close> calls come from the system.
\<close>

definition epoll_Serve ::
  "('s \<Rightarrow> 's get_result) \<Rightarrow> string + int \<Rightarrow> string + int \<Rightarrow> string option \<Rightarrow> string option \<Rightarrow>
   's epoll_engine \<Rightarrow> (string option \<times> 's epoll_engine) option" where
  "epoll_Serve get client backend ctl1 ctl2 e =
     (case get (en_backend e) of
        Get_Blocks \<Rightarrow> None
      | Get_Error err b \<Rightarrow> Some (Some err, e\<lparr>en_backend := b\<rparr>)
      | Got c b \<Rightarrow>
          (let e = e\<lparr>en_backend := b, en_gets := en_gets e + 1\<rparr> in
           case client of
             Inl err \<Rightarrow> Some (Some err, e)
           | Inr clientFd \<Rightarrow>
               (case backend of
                  Inl err \<Rightarrow> Some (Some err, e)
                | Inr backendFd \<Rightarrow>
                    (let pc = \<lparr>pc_clientFd = clientFd, pc_backendFd = backendFd\<rparr>;
                         e = e\<lparr>en_conns := (en_conns e)(clientFd \<mapsto> pc, backendFd \<mapsto> pc),
                               en_kernel := new_socket backendFd (new_socket clientFd (en_kernel e))\<rparr>
                     in case ctl1 of
                          Some err \<Rightarrow> Some (Some err, e)
                        | None \<Rightarrow>
                            (let e = e\<lparr>en_kernel := epoll_add clientFd (en_kernel e)\<rparr>
                             in case ctl2 of
                                  Some err \<Rightarrow> Some (Some err, e)
                                | None \<Rightarrow> Some (None, e\<lparr>en_kernel := epoll_add backendFd (en_kernel e)\<rparr>))))))"

definition closeConn :: "proxy_conn \<Rightarrow> 's epoll_engine \<Rightarrow> 's epoll_engine" where
  "closeConn pc e =
     e\<lparr>en_conns := (en_conns e)(pc_clientFd pc := None, pc_backendFd pc := None),
       en_kernel := (en_kernel e)\<lparr>kn_closed := kn_closed (en_kernel e) @ [pc_clientFd pc, pc_backendFd pc]\<rparr>\<rparr>"

text \<open>
  A read takes what fits the buffer; with nothing to read it reports the end of the stream, or fails.
  The system may also fail it.  A write may fail, or accept only the first \<open>k\<close> bytes.
\<close>

definition sys_read :: "string option \<Rightarrow> int \<Rightarrow> kernel \<Rightarrow> (string + bytes) \<times> kernel" where
  "sys_read fault fd k =
     (case fault of
        Some err \<Rightarrow> (Inl err, k)
      | None \<Rightarrow>
          if kn_rx k fd = [] then (if kn_eof k fd then (Inr [], k) else (Inl ''EAGAIN'', k))
          else (Inr (take buf_size (kn_rx k fd)),
                k\<lparr>kn_rx := (kn_rx k)(fd := drop buf_size (kn_rx k fd))\<rparr>))"

definition sys_write :: "string + nat \<Rightarrow> int \<Rightarrow> bytes \<Rightarrow> kernel \<Rightarrow> (string + nat) \<times> kernel" where
  "sys_write outcome fd data k =
     (case outcome of
        Inl err \<Rightarrow> (Inl err, k)
      | Inr n \<Rightarrow> (Inr (min n (length data)), k\<lparr>kn_tx := (kn_tx k)(fd := kn_tx k fd @ take n data)\<rparr>))"

definition handleEvent ::
  "string option \<Rightarrow> string + nat \<Rightarrow> int \<Rightarrow> bool \<Rightarrow> 's epoll_engine \<Rightarrow> 's epoll_engine" where
  "handleEvent rfault woutcome fd epollin e =
     (case en_conns e fd of
        None \<Rightarrow> e
      | Some pc \<Rightarrow>
          (let (srcFd, dstFd) = (if fd = pc_clientFd pc then (pc_clientFd pc, pc_backendFd pc)
                                 else (pc_backendFd pc, pc_clientFd pc))
           in if \<not> epollin then e
              else (case sys_read rfault srcFd (en_kernel e) of
                      (Inl err, k) \<Rightarrow> closeConn pc (e\<lparr>en_kernel := k\<rparr>)
                    | (Inr buf, k) \<Rightarrow>
                        if length buf = 0 then closeConn pc (e\<lparr>en_kernel := k\<rparr>)
                        else (case sys_write woutcome dstFd buf k of
                                (Inl err, k) \<Rightarrow> closeConn pc (e\<lparr>en_kernel := k\<rparr>)
                              | (Inr n, k) \<Rightarrow>
                                  e\<lparr>en_kernel := k, en_short := en_short e + (if n < length buf then 1 else 0)\<rparr>))))"

text \<open>One round of \<open>Loop\<close> for one collected event: the flags are those at the time of the wait.\<close>

definition loop_event :: "string option \<Rightarrow> string + nat \<Rightarrow> 's epoll_engine \<Rightarrow> 's epoll_engine option" where
  "loop_event rfault woutcome e =
     (case kn_ready (en_kernel e) of
        [] \<Rightarrow> None
      | fd # rest \<Rightarrow>
          (let k = en_kernel e in
           Some (handleEvent rfault woutcome fd (kn_rx k fd \<noteq> [] \<or> kn_eof k fd)
                   (e\<lparr>en_kernel := k\<lparr>kn_ready := rest\<rparr>\<rparr>))))"

definition arrive :: "int \<Rightarrow> bytes \<Rightarrow> kernel \<Rightarrow> kernel" where
  "arrive fd data k =
     k\<lparr>kn_arrived := (kn_arrived k)(fd := kn_arrived k fd @ data), kn_rx := (kn_rx k)(fd := kn_rx k fd @ data),
       kn_ready := kn_ready k @ (if fd \<in> kn_watched k then [fd] else [])\<rparr>"

definition hang_up :: "int \<Rightarrow> kernel \<Rightarrow> kernel" where
  "hang_up fd k = k\<lparr>kn_eof := (kn_eof k)(fd := True),
     kn_ready := kn_ready k @ (if fd \<in> kn_watched k then [fd] else [])\<rparr>"

text \<open>
  A descriptor the system hands out is not one that is in use; a descriptor in the table is.
\<close>

inductive ep_step :: "('s \<Rightarrow> 's get_result) \<Rightarrow> 's epoll_engine \<Rightarrow> 's epoll_engine \<Rightarrow> bool" for get where
  ep_serve: "(\<And>fd. client = Inr fd \<Longrightarrow> en_conns e fd = None \<and> backend \<noteq> Inr fd) \<Longrightarrow>
    (\<And>fd. backend = Inr fd \<Longrightarrow> en_conns e fd = None) \<Longrightarrow>
    epoll_Serve get client backend ctl1 ctl2 e = Some (err, e') \<Longrightarrow> ep_step get e e'"
| ep_event: "loop_event rfault woutcome e = Some e' \<Longrightarrow> ep_step get e e'"
| ep_arrive: "data \<noteq> [] \<Longrightarrow> ep_step get e (e\<lparr>en_kernel := arrive fd data (en_kernel e)\<rparr>)"
| ep_hang_up: "ep_step get e (e\<lparr>en_kernel := hang_up fd (en_kernel e)\<rparr>)"

inductive ep_reach :: "('s \<Rightarrow> 's get_result) \<Rightarrow> 's \<Rightarrow> kernel \<Rightarrow> 's epoll_engine \<Rightarrow> bool" for get b k where
  ep_start: "ep_reach get b k (NewEpollEngine b k)"
| ep_next: "ep_reach get b k e \<Longrightarrow> ep_step get e e' \<Longrightarrow> ep_reach get b k e'"

section \<open>The table and the streams\<close>

text \<open>What has been taken from \<open>src\<close> arrives at \<open>dst\<close> in order, all of it unless a write was short.\<close>

definition link_ok :: "'s epoll_engine \<Rightarrow> int \<Rightarrow> int \<Rightarrow> bool" where
  "link_ok e src dst \<longleftrightarrow>
     (\<exists>taken. kn_arrived (en_kernel e) src = taken @ kn_rx (en_kernel e) src \<and>
        subseq (kn_tx (en_kernel e) dst) taken \<and>
        (en_short e = 0 \<longrightarrow> kn_tx (en_kernel e) dst = taken))"

definition entry_ok :: "'s epoll_engine \<Rightarrow> int \<Rightarrow> proxy_conn \<Rightarrow> bool" where
  "entry_ok e fd pc \<longleftrightarrow>
     fd \<in> {pc_clientFd pc, pc_backendFd pc} \<and> pc_clientFd pc \<noteq> pc_backendFd pc \<and>
     en_conns e (pc_clientFd pc) = Some pc \<and> en_conns e (pc_backendFd pc) = Some pc \<and>
     link_ok e (pc_clientFd pc) (pc_backendFd pc) \<and> link_ok e (pc_backendFd pc) (pc_clientFd pc)"

definition table_ok :: "'s epoll_engine \<Rightarrow> bool" where
  "table_ok e \<longleftrightarrow> (\<forall>fd pc. en_conns e fd = Some pc \<longrightarrow> entry_ok e fd pc)"

lemma link_ok_cong:
  assumes "kn_arrived (en_kernel e') src = kn_arrived (en_kernel e) src"
    and "kn_rx (en_kernel e') src = kn_rx (en_kernel e) src"
    and "kn_tx (en_kernel e') dst = kn_tx (en_kernel e) dst"
    and "en_short e' = 0 \<Longrightarrow> en_short e = 0" and "link_ok e src dst"
  shows "link_ok e' src dst"
  using assms unfolding link_ok_def by auto

lemma table_okI:
  assumes "\<And>fd pc. en_conns e fd = Some pc \<Longrightarrow> entry_ok e fd pc"
  shows "table_ok e"
  using assms by (simp add: table_ok_def)

lemma table_ok_entry: "table_ok e \<Longrightarrow> en_conns e fd = Some pc \<Longrightarrow> entry_ok e fd pc"
  by (simp add: table_ok_def)

text \<open>A step that touches neither the table nor the streams of its entries keeps it.\<close>

lemma table_ok_same:
  assumes ok: "table_ok e" and sub: "\<And>fd pc. en_conns e' fd = Some pc \<Longrightarrow> en_conns e fd = Some pc"
    and both: "\<And>fd pc. en_conns e' fd = Some pc \<Longrightarrow>
      en_conns e' (pc_clientFd pc) = Some pc \<and> en_conns e' (pc_backendFd pc) = Some pc"
    and links: "\<And>fd pc src dst. en_conns e' fd = Some pc \<Longrightarrow>
      {src, dst} = {pc_clientFd pc, pc_backendFd pc} \<Longrightarrow> link_ok e src dst \<Longrightarrow> link_ok e' src dst"
  shows "table_ok e'"
proof (rule table_okI)
  fix fd pc assume c: "en_conns e' fd = Some pc"
  have E: "entry_ok e fd pc" by (rule table_ok_entry [OF ok sub [OF c]])
  have "link_ok e' (pc_clientFd pc) (pc_backendFd pc)" "link_ok e' (pc_backendFd pc) (pc_clientFd pc)"
    using E links [OF c] by (auto simp: entry_ok_def insert_commute)
  with E both [OF c] show "entry_ok e' fd pc" by (simp add: entry_ok_def)
qed

lemma closeConn_table:
  assumes ok: "table_ok e" and pc: "en_conns e fd = Some pc"
    and k: "kn_arrived k = kn_arrived (en_kernel e)" "kn_tx k = kn_tx (en_kernel e)"
      "\<And>a. a \<notin> {pc_clientFd pc, pc_backendFd pc} \<Longrightarrow> kn_rx k a = kn_rx (en_kernel e) a"
  shows "table_ok (closeConn pc (e\<lparr>en_kernel := k\<rparr>))" (is "table_ok ?e")
proof (rule table_ok_same [OF ok])
  fix fd' pc' assume c: "en_conns ?e fd' = Some pc'"
  then show c': "en_conns e fd' = Some pc'" by (auto simp: closeConn_def split: if_splits)
  have E: "entry_ok e fd pc" "entry_ok e fd' pc'" using table_ok_entry [OF ok] pc c' by blast+
  have ne: "pc' \<noteq> pc" using c E(2) by (auto simp: closeConn_def entry_ok_def split: if_splits)
  then show "en_conns ?e (pc_clientFd pc') = Some pc' \<and> en_conns ?e (pc_backendFd pc') = Some pc'"
    using E by (auto simp: closeConn_def entry_ok_def)
  fix a b assume ab: "{a, b} = {pc_clientFd pc', pc_backendFd pc'}" and l: "link_ok e a b"
  have "en_conns e a = Some pc'" using E(2) ab by (auto simp: entry_ok_def doubleton_eq_iff)
  moreover have "en_conns e x = Some pc" if "x \<in> {pc_clientFd pc, pc_backendFd pc}" for x
    using E(1) that by (auto simp: entry_ok_def)
  ultimately have "a \<notin> {pc_clientFd pc, pc_backendFd pc}" using ne by auto
  then have "kn_rx k a = kn_rx (en_kernel e) a" by (rule k(3))
  with l show "link_ok ?e a b" by (rule_tac link_ok_cong [rotated -1]) (simp_all add: closeConn_def k(1, 2))
qed

text \<open>Forwarding one buffer from \<open>src\<close> to \<open>dst\<close>.\<close>

definition forward :: "int \<Rightarrow> int \<Rightarrow> bytes \<Rightarrow> nat \<Rightarrow> 's epoll_engine \<Rightarrow> 's epoll_engine" where
  "forward src dst buf n e =
     e\<lparr>en_kernel := (en_kernel e)\<lparr>kn_rx := (kn_rx (en_kernel e))(src := drop buf_size (kn_rx (en_kernel e) src)),
                                kn_tx := (kn_tx (en_kernel e))(dst := kn_tx (en_kernel e) dst @ take n buf)\<rparr>,
       en_short := en_short e + (if min n (length buf) < length buf then 1 else 0)\<rparr>"

lemma forward_link:
  assumes l: "link_ok e src dst" and buf: "buf = take buf_size (kn_rx (en_kernel e) src)"
  shows "link_ok (forward src dst buf n e) src dst"
proof -
  obtain taken where t: "kn_arrived (en_kernel e) src = taken @ kn_rx (en_kernel e) src"
      "subseq (kn_tx (en_kernel e) dst) taken" "en_short e = 0 \<longrightarrow> kn_tx (en_kernel e) dst = taken"
    using l by (auto simp: link_ok_def)
  have "subseq (take n buf) buf" by (rule prefix_imp_subseq) (rule take_is_prefix)
  with t(2) have "subseq (kn_tx (en_kernel e) dst @ take n buf) (taken @ buf)" by (rule list_emb_append_mono)
  moreover have "kn_arrived (en_kernel e) src = (taken @ buf) @ drop buf_size (kn_rx (en_kernel e) src)"
    using t(1) buf by simp
  moreover have "kn_tx (en_kernel e) dst @ take n buf = taken @ buf"
    if "en_short e + (if min n (length buf) < length buf then 1 else 0) = 0"
    using that t(3) by (auto split: if_splits)
  ultimately show ?thesis
    unfolding link_ok_def forward_def by (intro exI [of _ "taken @ buf"]) simp
qed

lemma forward_other_link:
  assumes l: "link_ok e a b" and "a \<noteq> src" and "b \<noteq> dst"
  shows "link_ok (forward src dst buf n e) a b"
  using l by (rule link_ok_cong [rotated -1]) (use assms in \<open>simp_all add: forward_def\<close>)

lemma forward_table:
  assumes ok: "table_ok e" and pc: "en_conns e fd = Some pc"
    and ends: "(src, dst) = (pc_clientFd pc, pc_backendFd pc) \<or> (src, dst) = (pc_backendFd pc, pc_clientFd pc)"
    and buf: "buf = take buf_size (kn_rx (en_kernel e) src)"
  shows "table_ok (forward src dst buf n e)"
proof (rule table_ok_same [OF ok])
  have conns: "en_conns (forward src dst buf n e) = en_conns e" by (simp add: forward_def)
  fix fd' pc' assume c: "en_conns (forward src dst buf n e) fd' = Some pc'"
  then show c': "en_conns e fd' = Some pc'" by (simp add: conns)
  have E: "entry_ok e fd pc" "entry_ok e fd' pc'" using table_ok_entry [OF ok] pc c' by blast+
  then show "en_conns (forward src dst buf n e) (pc_clientFd pc') = Some pc' \<and>
      en_conns (forward src dst buf n e) (pc_backendFd pc') = Some pc'"
    by (simp add: conns entry_ok_def)
  fix a b assume ab: "{a, b} = {pc_clientFd pc', pc_backendFd pc'}" and l: "link_ok e a b"
  show "link_ok (forward src dst buf n e) a b"
  proof (cases "pc' = pc")
    case True
    have "src \<noteq> dst" using E(1) ends by (auto simp: entry_ok_def)
    then have "a = src \<and> b = dst \<or> a \<noteq> src \<and> b \<noteq> dst"
      using ab ends True by (auto simp: doubleton_eq_iff)
    then show ?thesis
      using forward_link [OF _ buf, of dst n] forward_other_link [OF l] l by blast
  next
    case False
    have "en_conns e a = Some pc'" "en_conns e b = Some pc'"
      using E(2) ab by (auto simp: entry_ok_def doubleton_eq_iff)
    moreover have "en_conns e src = Some pc" "en_conns e dst = Some pc" using E(1) ends by (auto simp: entry_ok_def)
    ultimately have "a \<noteq> src" "b \<noteq> dst" using False by auto
    then show ?thesis by (rule forward_other_link [OF l])
  qed
qed

text \<open>\<open>handleEvent\<close> leaves everything as it is, closes the entry, or forwards one buffer.\<close>

lemma handleEvent_cases:
  obtains (ignored) "handleEvent rfault wout fd inflag e = e"
  | (closed) pc k where "en_conns e fd = Some pc" "handleEvent rfault wout fd inflag e = closeConn pc (e\<lparr>en_kernel := k\<rparr>)"
      "kn_arrived k = kn_arrived (en_kernel e)" "kn_tx k = kn_tx (en_kernel e)"
      "k = en_kernel e \<or> (\<exists>src \<in> {pc_clientFd pc, pc_backendFd pc}. \<exists>r. k = (en_kernel e)\<lparr>kn_rx := (kn_rx (en_kernel e))(src := r)\<rparr>)"
  | (forwarded) pc src dst n where "en_conns e fd = Some pc" "wout = Inr n"
      "(src, dst) = (if fd = pc_clientFd pc then (pc_clientFd pc, pc_backendFd pc) else (pc_backendFd pc, pc_clientFd pc))"
      "kn_rx (en_kernel e) src \<noteq> []"
      "handleEvent rfault wout fd inflag e = forward src dst (take buf_size (kn_rx (en_kernel e) src)) n e"
proof (cases "en_conns e fd")
  case None
  then have "handleEvent rfault wout fd inflag e = e" by (simp add: handleEvent_def)
  then show ?thesis by (rule ignored)
next
  case (Some pc)
  obtain src dst where sd: "(src, dst) =
      (if fd = pc_clientFd pc then (pc_clientFd pc, pc_backendFd pc) else (pc_backendFd pc, pc_clientFd pc))"
    by (cases "fd = pc_clientFd pc") simp_all
  let ?k = "en_kernel e" and ?h = "handleEvent rfault wout fd inflag e"
  have src: "src \<in> {pc_clientFd pc, pc_backendFd pc}" using sd by (simp split: if_splits)
  have h: "?h = (if \<not> inflag then e
        else (case sys_read rfault src ?k of
                (Inl err, k) \<Rightarrow> closeConn pc (e\<lparr>en_kernel := k\<rparr>)
              | (Inr buf, k) \<Rightarrow>
                  if length buf = 0 then closeConn pc (e\<lparr>en_kernel := k\<rparr>)
                  else (case sys_write wout dst buf k of
                          (Inl err, k) \<Rightarrow> closeConn pc (e\<lparr>en_kernel := k\<rparr>)
                        | (Inr n, k) \<Rightarrow> e\<lparr>en_kernel := k, en_short := en_short e + (if n < length buf then 1 else 0)\<rparr>)))"
    unfolding handleEvent_def Some option.case Let_def sd [symmetric] prod.case by (rule refl)
  show ?thesis
  proof (cases "inflag \<and> rfault = None \<and> kn_rx ?k src \<noteq> []")
    case True
    then have ne: "take buf_size (kn_rx ?k src) \<noteq> []" by (simp add: buf_size_def)
    show ?thesis
    proof (cases wout)
      case (Inl err)
      with True ne have "?h = closeConn pc (e\<lparr>en_kernel := ?k\<lparr>kn_rx := (kn_rx ?k)(src := drop buf_size (kn_rx ?k src))\<rparr>\<rparr>)"
        unfolding h by (simp add: sys_read_def sys_write_def del: length_take take_eq_Nil)
      from closed [OF Some this] src show ?thesis by auto
    next
      case (Inr n)
      with True ne have "?h = forward src dst (take buf_size (kn_rx ?k src)) n e"
        unfolding h by (simp add: sys_read_def sys_write_def forward_def del: length_take take_eq_Nil)
      from forwarded [OF Some Inr sd _ this] True show ?thesis by blast
    qed
  next
    case False
    have "?h = e \<or> ?h = closeConn pc (e\<lparr>en_kernel := ?k\<rparr>)"
    proof (cases inflag)
      case inf: True
      show ?thesis
      proof (cases rfault)
        case None
        with False inf have "kn_rx ?k src = []" by simp
        with inf None show ?thesis unfolding h by (simp add: sys_read_def)
      next
        case (Some err)
        with inf show ?thesis unfolding h by (simp add: sys_read_def)
      qed
    next
      case no: False
      show ?thesis unfolding h using no by simp
    qed
    then show ?thesis using ignored closed [OF Some, of ?k] by blast
  qed
qed

lemma handleEvent_table:
  assumes ok: "table_ok e"
  shows "table_ok (handleEvent rfault wout fd inflag e)"
proof (rule handleEvent_cases [of rfault wout fd inflag e])
  assume "handleEvent rfault wout fd inflag e = e"
  with ok show ?thesis by simp
next
  fix pc k
  assume pc: "en_conns e fd = Some pc" and h: "handleEvent rfault wout fd inflag e = closeConn pc (e\<lparr>en_kernel := k\<rparr>)"
    and k: "kn_arrived k = kn_arrived (en_kernel e)" "kn_tx k = kn_tx (en_kernel e)"
      "k = en_kernel e \<or> (\<exists>src \<in> {pc_clientFd pc, pc_backendFd pc}. \<exists>r. k = (en_kernel e)\<lparr>kn_rx := (kn_rx (en_kernel e))(src := r)\<rparr>)"
  have "kn_rx k a = kn_rx (en_kernel e) a" if "a \<notin> {pc_clientFd pc, pc_backendFd pc}" for a
    using k(3) that by auto
  then show ?thesis unfolding h by (rule closeConn_table [OF ok pc k(1, 2)])
next
  fix pc src dst n
  assume pc: "en_conns e fd = Some pc"
    and sd: "(src, dst) = (if fd = pc_clientFd pc then (pc_clientFd pc, pc_backendFd pc) else (pc_backendFd pc, pc_clientFd pc))"
    and h: "handleEvent rfault wout fd inflag e = forward src dst (take buf_size (kn_rx (en_kernel e) src)) n e"
  show ?thesis unfolding h
    by (rule forward_table [OF ok pc _ refl]) (use sd in \<open>auto split: if_splits\<close>)
qed

lemma table_kernel:
  assumes "table_ok e"
    and "kn_arrived k' = kn_arrived (en_kernel e)" "kn_rx k' = kn_rx (en_kernel e)" "kn_tx k' = kn_tx (en_kernel e)"
  shows "table_ok (e\<lparr>en_kernel := k'\<rparr>)"
  using assms(1)
proof (rule table_ok_same)
  show "\<And>fd pc. en_conns (e\<lparr>en_kernel := k'\<rparr>) fd = Some pc \<Longrightarrow> en_conns e fd = Some pc" by simp
  show "\<And>fd pc. en_conns (e\<lparr>en_kernel := k'\<rparr>) fd = Some pc \<Longrightarrow>
      en_conns (e\<lparr>en_kernel := k'\<rparr>) (pc_clientFd pc) = Some pc \<and> en_conns (e\<lparr>en_kernel := k'\<rparr>) (pc_backendFd pc) = Some pc"
    using table_ok_entry [OF assms(1)] by (auto simp: entry_ok_def)
  show "\<And>fd pc src dst. link_ok e src dst \<Longrightarrow> link_ok (e\<lparr>en_kernel := k'\<rparr>) src dst"
    by (rule link_ok_cong [rotated -1]) (simp_all add: assms(2-4))
qed

lemma arrive_table:
  assumes "table_ok e"
  shows "table_ok (e\<lparr>en_kernel := arrive fd data (en_kernel e)\<rparr>)" (is "table_ok ?e")
  using assms
proof (rule table_ok_same)
  show "\<And>fd' pc. en_conns ?e fd' = Some pc \<Longrightarrow> en_conns e fd' = Some pc" by simp
  show "\<And>fd' pc. en_conns ?e fd' = Some pc \<Longrightarrow>
      en_conns ?e (pc_clientFd pc) = Some pc \<and> en_conns ?e (pc_backendFd pc) = Some pc"
    using table_ok_entry [OF assms] by (auto simp: entry_ok_def)
  show "\<And>fd' pc src dst. link_ok e src dst \<Longrightarrow> link_ok ?e src dst"
    by (auto simp: link_ok_def arrive_def)
qed

lemma serve_table:
  assumes ok: "table_ok e" and new: "en_conns e c = None" "en_conns e b = None" "c \<noteq> b"
    and e': "en_conns e' = (en_conns e)(c \<mapsto> pc, b \<mapsto> pc)" "pc = \<lparr>pc_clientFd = c, pc_backendFd = b\<rparr>"
      "kn_arrived (en_kernel e') = kn_arrived (new_socket b (new_socket c (en_kernel e)))"
      "kn_rx (en_kernel e') = kn_rx (new_socket b (new_socket c (en_kernel e)))"
      "kn_tx (en_kernel e') = kn_tx (new_socket b (new_socket c (en_kernel e)))" "en_short e' = en_short e"
  shows "table_ok e'"
proof (rule table_okI)
  fix fd p assume p: "en_conns e' fd = Some p"
  show "entry_ok e' fd p"
  proof (cases "fd = c \<or> fd = b")
    case True
    then have "p = pc" using p e'(1) new(3) by (auto split: if_splits)
    then show ?thesis using True new e' by (auto simp: entry_ok_def link_ok_def new_socket_def)
  next
    case False
    then have p': "en_conns e fd = Some p" using p e'(1) by simp
    have E: "entry_ok e fd p" by (rule table_ok_entry [OF ok p'])
    then have ends: "pc_clientFd p \<notin> {c, b}" "pc_backendFd p \<notin> {c, b}" using new by (auto simp: entry_ok_def)
    have "link_ok e' x y" if "link_ok e x y" "x \<notin> {c, b}" "y \<notin> {c, b}" for x y
      using that(1) by (rule link_ok_cong [rotated -1]) (use that e' in \<open>simp_all add: new_socket_def\<close>)
    with E ends show ?thesis by (simp add: entry_ok_def e'(1))
  qed
qed

lemma epoll_Serve_table:
  assumes ok: "table_ok e" and s: "epoll_Serve get client backend ctl1 ctl2 e = Some (err, e')"
    and c: "\<And>fd. client = Inr fd \<Longrightarrow> en_conns e fd = None \<and> backend \<noteq> Inr fd"
    and b: "\<And>fd. backend = Inr fd \<Longrightarrow> en_conns e fd = None"
  shows "table_ok e'"
proof -
  have same: "table_ok (e\<lparr>en_backend := x, en_gets := n\<rparr>)" "table_ok (e\<lparr>en_backend := x\<rparr>)" for x n
    using ok by (auto simp: table_ok_def entry_ok_def link_ok_def)
  show ?thesis
  proof (cases "get (en_backend e)")
    case (Got x y)
    show ?thesis
    proof (cases "\<exists>cf bf. client = Inr cf \<and> backend = Inr bf")
      case True
      then obtain cf bf where f: "client = Inr cf" "backend = Inr bf" by blast
      then have new: "en_conns e cf = None" "en_conns e bf = None" "cf \<noteq> bf" using c b by auto
      show ?thesis
        by (rule serve_table [OF same(1) _ _ new(3), of "en_gets e + 1" y])
          (use s Got f new in \<open>auto simp: epoll_Serve_def Let_def epoll_add_def split: option.splits\<close>)
    next
      case False
      then have "e' = e\<lparr>en_backend := y, en_gets := en_gets e + 1\<rparr>"
        using s Got by (auto simp: epoll_Serve_def Let_def split: sum.splits)
      with same show ?thesis by simp
    qed
  next
    case (Get_Error x y)
    then have "e' = e\<lparr>en_backend := y\<rparr>" using s by (auto simp: epoll_Serve_def)
    with same show ?thesis by simp
  next
    case Get_Blocks
    then show ?thesis using s by (simp add: epoll_Serve_def)
  qed
qed

lemma ep_step_table: "ep_step get e e' \<Longrightarrow> table_ok e \<Longrightarrow> table_ok e'"
proof (induction rule: ep_step.induct)
  case (ep_serve client e backend ctl1 ctl2 err e')
  then show ?case using epoll_Serve_table by blast
next
  case (ep_event rfault woutcome e e')
  then obtain fd rest where "kn_ready (en_kernel e) = fd # rest"
      and e': "e' = handleEvent rfault woutcome fd (kn_rx (en_kernel e) fd \<noteq> [] \<or> kn_eof (en_kernel e) fd)
        (e\<lparr>en_kernel := (en_kernel e)\<lparr>kn_ready := rest\<rparr>\<rparr>)"
    by (auto simp: loop_event_def Let_def split: list.splits)
  show ?case unfolding e' by (intro handleEvent_table table_kernel [OF ep_event(2)]) simp_all
next
  case (ep_arrive data e fd)
  then show ?case by (intro arrive_table)
next
  case (ep_hang_up e fd)
  then show ?case by (intro table_kernel) (simp_all add: hang_up_def)
qed

lemma ep_reach_table: "ep_reach get b k e \<Longrightarrow> table_ok e"
proof (induction rule: ep_reach.induct)
  case ep_start
  show ?case by (simp add: table_ok_def NewEpollEngine_def)
next
  case (ep_next e e')
  then show ?case by (auto intro: ep_step_table)
qed

section \<open>The pool under the epoll engine\<close>

definition pool_left :: "(conn_pool \<times> network) epoll_engine \<Rightarrow> nat" where
  "pool_left e = length (ch_buf (cp_pool (fst (en_backend e))))"

lemma handleEvent_backend:
  "en_backend (handleEvent rfault wout fd inflag e) = en_backend e \<and>
   en_gets (handleEvent rfault wout fd inflag e) = en_gets e"
  by (rule handleEvent_cases [of rfault wout fd inflag e]) (simp_all add: closeConn_def forward_def)

lemma epoll_Serve_pool:
  assumes "epoll_Serve pool_Get client backend ctl1 ctl2 e = Some (err, e')"
  shows "pool_left e' + en_gets e' = pool_left e + en_gets e"
proof (cases "pool_Get (en_backend e)")
  case (Got c b)
  obtain p m where s: "en_backend e = (p, m)" by fastforce
  have "length (ch_buf (cp_pool (fst b))) + 1 = pool_left e"
    using Got unfolding s by (auto simp: pool_Get_Got pool_left_def s)
  moreover have "en_backend e' = b" "en_gets e' = en_gets e + 1"
    using assms Got by (auto simp: epoll_Serve_def Let_def epoll_add_def split: sum.splits option.splits)
  ultimately show ?thesis by (simp add: pool_left_def)
next
  case (Get_Error err' b)
  then show ?thesis using pool_Get_no_error by blast
next
  case Get_Blocks
  then show ?thesis using assms by (simp add: epoll_Serve_def)
qed

lemma ep_reach_pool:
  "ep_reach pool_Get (cp, net) k e \<Longrightarrow> pool_left e + en_gets e = length (ch_buf (cp_pool cp))"
proof (induction rule: ep_reach.induct)
  case ep_start
  show ?case by (simp add: pool_left_def NewEpollEngine_def)
next
  case (ep_next e e')
  have "pool_left e' + en_gets e' = pool_left e + en_gets e"
    using ep_next(2)
  proof cases
    case (ep_serve client backend ctl1 ctl2 err)
    then show ?thesis using epoll_Serve_pool by blast
  next
    case (ep_event rfault woutcome)
    then show ?thesis
      by (auto simp: loop_event_def Let_def pool_left_def handleEvent_backend split: list.splits)
  qed (simp_all add: pool_left_def)
  with ep_next show ?case by simp
qed

section \<open>Sessions of the goroutine engine\<close>

fun leasing :: "session \<Rightarrow> conn list" where
  "leasing (Relaying c _) = [c]"
| "leasing _ = []"

definition leases :: "session list \<Rightarrow> conn list" where
  "leases ps = concat (map leasing ps)"

lemma leases_update:
  "i < length ps \<Longrightarrow> mset (leases (ps[i := q])) + mset (leasing (ps ! i)) = mset (leases ps) + mset (leasing q)"
proof (induction ps arbitrary: i)
  case (Cons p ps)
  then show ?case by (cases i) (auto simp: leases_def ac_simps)
qed simp

context backend_connector begin

lemma ge_leases:
  assumes "ge_reach get ret b s" and "ok b {}"
  shows "ok (ge_backend s) (set (leases (ge_sessions s))) \<and> distinct (leases (ge_sessions s))"
  using assms(1)
proof (induction rule: ge_reach.induct)
  case ge_start
  then show ?case using assms(2) by (simp add: leases_def)
next
  case (ge_next s t)
  let ?L = "leases (ge_sessions s)"
  have ok: "ok (ge_backend s) (set ?L)" and d: "distinct ?L" using ge_next by simp_all
  have upd: "mset (leases ((ge_sessions s)[i := q])) + mset (leasing p) = mset ?L + mset (leasing q)"
    if "at_session s i p" for i p q
    using leases_update [of i "ge_sessions s" q] that by (simp add: at_session_def)
  have same: "set xs = set ?L \<and> distinct xs" if "mset xs = mset ?L" for xs
    using that d by (metis mset_eq_imp_distinct_iff mset_eq_setD)
  show ?case
    using ge_next(2)
  proof cases
    case g_accept
    then show ?thesis using ok d by (simp add: leases_def)
  next
    case (g_get i c b)
    have "mset (leases (ge_sessions t)) = mset (c # ?L)"
      using upd [OF g_get(2), of "Relaying c True"] g_get(1) by simp
    then have "set (leases (ge_sessions t)) = insert c (set ?L)"
        "distinct (leases (ge_sessions t)) \<longleftrightarrow> distinct (c # ?L)"
      by (metis list.simps(15) mset_eq_setD, metis mset_eq_imp_distinct_iff)
    moreover have "c \<notin> set ?L" "ok b (insert c (set ?L))"
      using get_fresh [OF ok g_get(3)] get_ok [OF ok g_get(3)] by simp_all
    ultimately show ?thesis using d g_get(1) by simp
  next
    case (g_fail i e b)
    have "mset (leases (ge_sessions t)) = mset ?L"
      using upd [OF g_fail(2), of Failed] g_fail(1) by simp
    then show ?thesis using same [of "leases (ge_sessions t)"] get_error_ok [OF ok g_fail(3)] g_fail(1) by simp
  next
    case (g_up_write i p c)
    then show ?thesis using ok d by simp
  next
    case (g_up_end i p c)
    have "leasing (up_ended p) = leasing p" by (cases p) simp_all
    then have "mset (leases (ge_sessions t)) = mset ?L"
      using upd [OF g_up_end(2), of "up_ended p"] g_up_end(1) by simp
    then show ?thesis using same [of "leases (ge_sessions t)"] ok g_up_end(1) by simp
  next
    case (g_return i c u)
    have m: "mset (c # leases (ge_sessions t)) = mset ?L"
      using upd [OF g_return(2), of "Handed_Back c u"] g_return(1) by simp
    then have "insert c (set (leases (ge_sessions t))) = set ?L" "distinct (c # leases (ge_sessions t))"
      using same [OF m] by simp_all
    then have "c \<in> set ?L" "set ?L - {c} = set (leases (ge_sessions t))" "distinct (leases (ge_sessions t))" by auto
    then show ?thesis using ret_ok [OF ok, of c] g_return(1) by simp
  next
    case (g_close i c u)
    have "mset (leases (ge_sessions t)) = mset ?L"
      using upd [OF g_close(2), of "Closed c u"] g_close(1) by simp
    then show ?thesis using same [of "leases (ge_sessions t)"] ok g_close(1) by simp
  qed
qed

end

lemma pool_Get_cap: "pool_Get s = Got c s' \<Longrightarrow> ch_cap (cp_pool (fst s')) = ch_cap (cp_pool (fst s))"
  by (cases s) (auto simp: pool_Get_Got)

lemma pool_Return_cap: "ch_cap (cp_pool (fst (pool_Return c s))) = ch_cap (cp_pool (fst s))"
  by (cases s) (auto simp: pool_Return_def chan_send_def)

lemma ge_reach_cap:
  "ge_reach pool_Get pool_Return b s \<Longrightarrow> ch_cap (cp_pool (fst (ge_backend s))) = ch_cap (cp_pool (fst b))"
proof (induction rule: ge_reach.induct)
  case (ge_next s t)
  show ?case
    using ge_next(2)
  proof cases
    case (g_get i c b)
    then show ?thesis using ge_next(3) pool_Get_cap by simp
  next
    case (g_fail i e b)
    then show ?thesis using pool_Get_no_error by blast
  next
    case (g_return i c u)
    then show ?thesis using ge_next(3) pool_Return_cap by simp
  qed (use ge_next(3) in simp_all)
qed simp

section \<open>Properties\<close>

text \<open>
  The goroutine engine over the pool, in any interleaving of its sessions: the connections being
  relayed are pairwise distinct and open, and with those in the pool they are the \<open>n\<close> it was made
  with, so no session that ends loses one.  Over the dialling connector they are distinct and open too.
\<close>

theorem goroutine_sessions:
  assumes "NewConnPool addr n net = Some (Inr cp, net')" and "net_ok net"
  shows "(ge_reach pool_Get pool_Return (cp, net') s \<longrightarrow>
      distinct (leases (ge_sessions s)) \<and> set (leases (ge_sessions s)) \<subseteq> nt_open (snd (ge_backend s)) \<and>
      length (leases (ge_sessions s)) + length (ch_buf (cp_pool (fst (ge_backend s)))) = nat n) \<and>
    (ge_reach dial_Get dial_Return (NewAlwaysDialConnector addr, net) d \<longrightarrow>
      distinct (leases (ge_sessions d)) \<and> set (leases (ge_sessions d)) \<subseteq> nt_open (snd (ge_backend d)))"
proof (intro conjI impI)
  have ok: "pool_ok (cp, net') {}" and cap: "ch_cap (cp_pool cp) = nat n"
    using new_pool_ok [OF assms] by simp_all
  assume r: "ge_reach pool_Get pool_Return (cp, net') s"
  have inv: "pool_ok (ge_backend s) (set (leases (ge_sessions s)))" and d: "distinct (leases (ge_sessions s))"
    using pooled.ge_leases [OF r ok] by simp_all
  then show "distinct (leases (ge_sessions s))" "set (leases (ge_sessions s)) \<subseteq> nt_open (snd (ge_backend s))"
    using pooled.leased_open by blast+
  show "length (leases (ge_sessions s)) + length (ch_buf (cp_pool (fst (ge_backend s)))) = nat n"
    using inv distinct_card [OF d] ge_reach_cap [OF r] cap by (auto simp: pool_ok_def split: prod.splits)
next
  have ok: "dial_ok (NewAlwaysDialConnector addr, net) {}" using assms(2) by (simp add: dial_ok_def)
  assume r: "ge_reach dial_Get dial_Return (NewAlwaysDialConnector addr, net) d"
  show "distinct (leases (ge_sessions d))" "set (leases (ge_sessions d)) \<subseteq> nt_open (snd (ge_backend d))"
    using dialler.ge_leases [OF r ok] dialler.leased_open by blast+
qed

definition single_pool :: "conn_pool \<times> network" where
  "single_pool =
     (\<lparr>cp_backendAddr = ''b'', cp_pool = \<lparr>ch_cap = 1, ch_buf = [0], ch_closed = False\<rparr>\<rparr>,
      (flaky_network 5)\<lparr>nt_dials := 1, nt_open := {0}\<rparr>)"

lemma single_pool_new:
  "NewConnPool ''b'' 1 (flaky_network 5) = Some (Inr (fst single_pool), snd single_pool)"
  "net_ok (flaky_network 5)"
  using new_pool_success [of 1 "flaky_network 5" "''b''"]
  by (simp_all add: flaky_network_def single_pool_def net_ok_def)

theorem goroutine_sessions_witness:
  "\<exists>s. ge_reach pool_Get pool_Return single_pool s \<and> length (ge_sessions s) = 1 \<and>
     length (leases (ge_sessions s)) + length (ch_buf (cp_pool (fst (ge_backend s)))) = 1"
proof -
  let ?s = "\<lparr>ge_backend = single_pool, ge_sessions = [Serving], ge_writes = []\<rparr>"
  have "ge_step pool_Get pool_Return \<lparr>ge_backend = single_pool, ge_sessions = [], ge_writes = []\<rparr> ?s"
    using g_accept [of pool_Get pool_Return "\<lparr>ge_backend = single_pool, ge_sessions = [], ge_writes = []\<rparr>"] by simp
  then have r: "ge_reach pool_Get pool_Return single_pool ?s" by (rule ge_next [OF ge_start])
  from goroutine_sessions [OF single_pool_new, THEN conjunct1, of ?s] r
  show ?thesis by (intro exI [of _ ?s]) simp
qed

text \<open>
  The deferred \<open>Return\<close> does not wait for the goroutine that copies from the client.  Already with a
  pool of one connection there is a run in which a session has handed its connection back, a second
  session is relaying over it, and the first one's upward copy then writes its client's bytes into
  the second one's stream.
\<close>

theorem returned_connection_shared:
  assumes "ch_buf (cp_pool cp) = [c]" and "ch_cap (cp_pool cp) = 1" and "\<not> ch_closed (cp_pool cp)"
  shows "\<exists>s t. ge_reach pool_Get pool_Return (cp, net) s \<and>
    at_session s 0 (Handed_Back c True) \<and> at_session s 1 (Relaying c True) \<and> ge_writes s = [] \<and>
    ge_step pool_Get pool_Return s t \<and> ge_writes t = [(0, c)]"
proof -
  let ?G = pool_Get and ?R = pool_Return
  let ?st = "\<lambda>b ps. \<lparr>ge_backend = b, ge_sessions = ps, ge_writes = []\<rparr>"
  let ?full = "(cp, net)" and ?empty = "(cp\<lparr>cp_pool := (cp_pool cp)\<lparr>ch_buf := []\<rparr>\<rparr>, net)"
  have get: "pool_Get ?full = Got c ?empty" using assms(1) by (simp add: pool_Get_Got)
  have ret: "pool_Return c ?empty = ?full"
    using assms by (cases cp) (simp add: pool_Return_def chan_send_def)
  have "ge_reach ?G ?R ?full (?st ?full [])" by (rule ge_start)
  then have "ge_reach ?G ?R ?full (?st ?full [Serving])"
    by (rule ge_next) (use g_accept [of ?G ?R "?st ?full []"] in simp)
  then have "ge_reach ?G ?R ?full (?st ?full [Serving, Serving])"
    by (rule ge_next) (use g_accept [of ?G ?R "?st ?full [Serving]"] in simp)
  then have "ge_reach ?G ?R ?full (?st ?empty [Relaying c True, Serving])"
    by (rule ge_next) (use g_get [of "?st ?full [Serving, Serving]" 0 ?G c ?empty ?R] get in \<open>simp add: at_session_def\<close>)
  then have "ge_reach ?G ?R ?full (?st ?full [Handed_Back c True, Serving])"
    by (rule ge_next) (use g_return [of "?st ?empty [Relaying c True, Serving]" 0 c True ?G ?R] ret
        in \<open>simp add: at_session_def\<close>)
  then have r: "ge_reach ?G ?R ?full (?st ?empty [Handed_Back c True, Relaying c True])"
    by (rule ge_next) (use g_get [of "?st ?full [Handed_Back c True, Serving]" 1 ?G c ?empty ?R] get
        in \<open>simp add: at_session_def\<close>)
  let ?s = "?st ?empty [Handed_Back c True, Relaying c True]"
  have "ge_step ?G ?R ?s (?s\<lparr>ge_writes := [(0, c)]\<rparr>)"
    using g_up_write [of ?s 0 "Handed_Back c True" c ?G ?R] by (simp add: at_session_def)
  with r show ?thesis by (intro exI [of _ ?s] exI [of _ "?s\<lparr>ge_writes := [(0, c)]\<rparr>"]) (simp add: at_session_def)
qed

theorem returned_connection_shared_witness:
  "\<exists>s t. ge_reach pool_Get pool_Return single_pool s \<and> ge_step pool_Get pool_Return s t \<and> ge_writes t = [(0, 0)]"
proof -
  have "ch_buf (cp_pool (fst single_pool)) = [0]" "ch_cap (cp_pool (fst single_pool)) = 1"
      "\<not> ch_closed (cp_pool (fst single_pool))" by (simp_all add: single_pool_def)
  from returned_connection_shared [OF this, of "snd single_pool"] show ?thesis by auto
qed


definition idle_kernel :: kernel where
  "idle_kernel = \<lparr>kn_arrived = (\<lambda>_. []), kn_rx = (\<lambda>_. []), kn_eof = (\<lambda>_. False), kn_tx = (\<lambda>_. []),
     kn_watched = {}, kn_ready = [], kn_closed = []\<rparr>"

definition demo_engine :: "(conn_pool \<times> network) epoll_engine" where
  "demo_engine = the (map_option snd
     (epoll_Serve pool_Get (Inr 7) (Inr 8) None None (NewEpollEngine single_pool idle_kernel)))"

lemma demo_engine_serve:
  "epoll_Serve pool_Get (Inr 7) (Inr 8) None None (NewEpollEngine single_pool idle_kernel) = Some (None, demo_engine)"
  by (simp add: demo_engine_def epoll_Serve_def NewEpollEngine_def pool_Get_def chan_recv_def single_pool_def Let_def)

lemma demo_engine_reach: "ep_reach pool_Get single_pool idle_kernel demo_engine"
  by (rule ep_next [OF ep_start], rule ep_serve [OF _ _ demo_engine_serve]) (simp_all add: NewEpollEngine_def)

lemma demo_engine_entry: "en_conns demo_engine 7 = Some \<lparr>pc_clientFd = 7, pc_backendFd = 8\<rparr>"
  by (simp add: demo_engine_def epoll_Serve_def NewEpollEngine_def pool_Get_def chan_recv_def single_pool_def Let_def)


text \<open>
  \<open>handleEvent\<close> reads once, into a buffer of 32 KiB, although the descriptors are edge-triggered.
  When more is pending and no other edge has fired, the rest stays unread and the loop has nothing to do until
  the peer sends again; a peer that waits for the answer to what it sent waits for ever.  What fits the
  buffer is read completely.
\<close>

theorem edge_triggered_stall:
  assumes "kn_ready (en_kernel e) = [fd]" and "en_conns e fd = Some pc"
    and "fd = pc_clientFd pc \<or> fd = pc_backendFd pc" and "kn_rx (en_kernel e) fd \<noteq> []"
    and "loop_event None (Inr buf_size) e = Some e'"
  shows "kn_ready (en_kernel e') = [] \<and> (\<forall>rfault wout. loop_event rfault wout e' = None) \<and>
    kn_rx (en_kernel e') fd = drop buf_size (kn_rx (en_kernel e) fd) \<and>
    (kn_rx (en_kernel e') fd = [] \<longleftrightarrow> length (kn_rx (en_kernel e) fd) \<le> 32768)"
proof -
  let ?e = "e\<lparr>en_kernel := (en_kernel e)\<lparr>kn_ready := []\<rparr>\<rparr>"
  have e': "e' = handleEvent None (Inr buf_size) fd True ?e"
    using assms(1, 4, 5) by (simp add: loop_event_def Let_def)
  have "take buf_size (kn_rx (en_kernel e) fd) \<noteq> []" using assms(4) by (simp add: buf_size_def)
  then have "kn_ready (en_kernel e') = [] \<and>
      kn_rx (en_kernel e') fd = drop buf_size (kn_rx (en_kernel e) fd)"
    unfolding e' handleEvent_def using assms(2, 3, 4)
    by (auto simp: sys_read_def sys_write_def simp del: length_take take_eq_Nil)
  then show ?thesis by (simp add: loop_event_def buf_size_def)
qed

definition flooded_engine :: "(conn_pool \<times> network) epoll_engine" where
  "flooded_engine = demo_engine\<lparr>en_kernel := arrive 7 (replicate 40000 0) ((en_kernel demo_engine)\<lparr>kn_ready := []\<rparr>)\<rparr>"

theorem edge_triggered_stall_witness:
  "\<exists>e'. loop_event None (Inr buf_size) flooded_engine = Some e' \<and> kn_rx (en_kernel e') 7 \<noteq> [] \<and>
     (\<forall>rfault wout. loop_event rfault wout e' = None)"
proof -
  have k: "kn_ready (en_kernel flooded_engine) = [7]" "kn_rx (en_kernel flooded_engine) 7 = replicate 40000 0"
    by (simp_all add: flooded_engine_def arrive_def demo_engine_def epoll_Serve_def NewEpollEngine_def
        pool_Get_def chan_recv_def single_pool_def Let_def new_socket_def epoll_add_def)
  have c: "en_conns flooded_engine 7 = Some \<lparr>pc_clientFd = 7, pc_backendFd = 8\<rparr>"
    using demo_engine_entry by (simp add: flooded_engine_def)
  obtain e' where e': "loop_event None (Inr buf_size) flooded_engine = Some e'"
    using k(1) by (simp add: loop_event_def Let_def)
  have "kn_rx (en_kernel flooded_engine) 7 \<noteq> []" "\<not> length (kn_rx (en_kernel flooded_engine) 7) \<le> 32768"
    by (simp_all add: k(2))
  with edge_triggered_stall [OF k(1) c _ _ e'] show ?thesis using e' by auto
qed

text \<open>
  \<open>closeConn\<close> closes descriptors but never calls \<open>Return\<close>, although a comment in \<open>Serve\<close> says that it
  does.  With the pool connector every session served uses up a connection for good: the connections
  left and those ever handed out add up to the size of the pool, and once \<open>n\<close> sessions have been
  served, however many of them have ended, \<open>Serve\<close> blocks, and with it the accept loop.
\<close>

theorem epoll_exhausts_pool:
  assumes "NewConnPool addr n net = Some (Inr cp, net')" and "ep_reach pool_Get (cp, net') k e"
  shows "pool_left e + en_gets e = nat n \<and> en_gets e \<le> nat n \<and>
    (en_gets e = nat n \<longrightarrow> (\<forall>client backend ctl1 ctl2. epoll_Serve pool_Get client backend ctl1 ctl2 e = None))"
proof -
  have "length (ch_buf (cp_pool cp)) = nat n"
    using new_pool_length [OF assms(1)] .
  then have sum: "pool_left e + en_gets e = nat n" using ep_reach_pool [OF assms(2)] by simp
  have "pool_Get (en_backend e) = Get_Blocks" if "pool_left e = 0"
    using that by (cases "en_backend e") (auto simp: pool_left_def pool_Get_def chan_recv_def split: list.splits)
  then show ?thesis using sum by (auto simp: epoll_Serve_def)
qed

theorem epoll_exhausts_pool_witness:
  "\<exists>e. ep_reach pool_Get single_pool idle_kernel e \<and>
     (\<forall>client backend ctl1 ctl2. epoll_Serve pool_Get client backend ctl1 ctl2 e = None)"
proof -
  have "en_gets demo_engine = 1"
    by (simp add: demo_engine_def epoll_Serve_def NewEpollEngine_def pool_Get_def chan_recv_def single_pool_def Let_def)
  with epoll_exhausts_pool [OF single_pool_new(1), of idle_kernel demo_engine] demo_engine_reach
  show ?thesis by (intro exI [of _ demo_engine]) simp
qed


text \<open>
  \<open>fdFromConn\<close>, whose result \<open>Serve\<close> works with: \<open>os.ErrInvalid\<close> for a connection that is not TCP, otherwise what \<open>File()\<close> gives.
\<close>

datatype net_conn = TCP_Conn "string + int" | Other_Conn

definition fdFromConn :: "net_conn \<Rightarrow> string + int" where
  "fdFromConn c = (case c of Other_Conn \<Rightarrow> Inl ''invalid argument'' | TCP_Conn f \<Rightarrow> f)"

text \<open>
  An error after \<open>Get\<close> costs the pool a connection: \<open>Serve\<close> returns it with the table as it was, and nothing
  will ever hand the connection back.
\<close>

lemma serve_error_leaks:
  assumes "pool_Get (en_backend e) = Got c b" and "fdFromConn client = Inl err"
    and "epoll_Serve pool_Get (fdFromConn client) backend ctl1 ctl2 e = Some (res, e')"
  shows "res = Some err \<and> en_conns e' = en_conns e \<and> Suc (pool_left e') = pool_left e"
proof -
  have "Suc (length (ch_buf (cp_pool (fst b)))) = length (ch_buf (cp_pool (fst (en_backend e))))"
    using assms(1) by (cases "en_backend e") (auto simp: pool_Get_def chan_recv_def split: list.splits if_splits)
  then show ?thesis using assms by (auto simp: epoll_Serve_def pool_left_def)
qed

end
