(* ===== verification/Go_Env.thy ===== *)
theory Go_Env
  imports Go_Prelude
begin

text \<open>
  \<open>os.Getenv\<close>, which gives the empty string for a variable that is not set, and \<open>strconv.Atoi\<close>, and the
  helper \<open>envInt\<close> that four of the labs declare with the same text.
\<close>

type_synonym environment = "string \<rightharpoonup> string"

definition Getenv :: "environment \<Rightarrow> string \<Rightarrow> string" where
  "Getenv env key = (case env key of None \<Rightarrow> [] | Some v \<Rightarrow> v)"

definition decimal_char :: "char \<Rightarrow> bool" where
  "decimal_char c \<longleftrightarrow> (48 :: nat) \<le> of_char c \<and> of_char c \<le> (57 :: nat)"

text \<open>\<open>None\<close> is a syntax or range error.\<close>

definition Atoi :: "string \<Rightarrow> int option" where
  "Atoi s =
     (let neg = (s \<noteq> [] \<and> hd s = CHR ''-'');
          ds = (if s \<noteq> [] \<and> hd s \<in> {CHR ''-'', CHR ''+''} then tl s else s);
          n = (if neg then - int (read_nat ds) else int (read_nat ds))
      in if ds = [] \<or> \<not> list_all decimal_char ds \<or> \<not> int64_range n then None else Some n)"

definition envInt :: "environment \<Rightarrow> string \<Rightarrow> int \<Rightarrow> int" where
  "envInt env key def =
     (let v = Getenv env key
      in if v \<noteq> [] then (case Atoi v of Some n \<Rightarrow> n | None \<Rightarrow> def) else def)"

text \<open>\<open>if mode == "" { mode = def }\<close>\<close>

definition env_or :: "environment \<Rightarrow> string \<Rightarrow> string \<Rightarrow> string" where
  "env_or env key def = (if Getenv env key = [] then def else Getenv env key)"

lemma show_nat_decimal: "c \<in> set (show_nat n) \<Longrightarrow> decimal_char c"
  using show_nat_digits [of c n] by (auto simp: decimal_char_def)

lemma Atoi_show_int:
  assumes "int64_range n"
  shows "Atoi (show_int n) = Some n"
proof -
  have ne: "show_nat m \<noteq> []" for m by (subst show_nat.simps) simp
  have all: "list_all decimal_char (show_nat m)" for m by (auto simp: list_all_iff show_nat_decimal)
  have hd: "hd (show_nat m) \<noteq> CHR ''-''" "hd (show_nat m) \<noteq> CHR ''+''" for m
  proof -
    have "decimal_char (hd (show_nat m))" using all [of m] ne [of m] by (cases "show_nat m") auto
    then show "hd (show_nat m) \<noteq> CHR ''-''" "hd (show_nat m) \<noteq> CHR ''+''" by (auto simp: decimal_char_def)
  qed
  show ?thesis
    using assms ne all hd by (cases "n < 0") (simp_all add: Atoi_def show_int_def read_nat_show_nat)
qed

lemma envInt_set:
  "env key = Some (show_int n) \<Longrightarrow> int64_range n \<Longrightarrow> envInt env key def = n"
proof -
  assume "env key = Some (show_int n)" "int64_range n"
  moreover have "show_int n \<noteq> []" by (subst show_int_def, subst (1 2) show_nat.simps) simp
  ultimately show ?thesis by (simp add: envInt_def Getenv_def Atoi_show_int)
qed

lemma envInt_unset: "env key = None \<Longrightarrow> envInt env key def = def"
  by (simp add: envInt_def Getenv_def)

end
