(* ===== verification/Go_Net.thy ===== *)
theory Go_Net
  imports Go_Env
begin

text \<open>
  The accept loop that every server of the repository writes: \<open>for { conn, err := ln.Accept(); if err != nil { print(...); continue };
  go handle(conn) }\<close>.  Given what the calls of \<open>Accept\<close> have returned so far, it gives the lines logged and the
  connections for which a goroutine has been started.
\<close>

fun accept_loop :: "string \<Rightarrow> (string + 'c) list \<Rightarrow> string list \<times> 'c list" where
  "accept_loop message [] = ([], [])"
| "accept_loop message (Inl err # rest) = (let (lines, conns) = accept_loop message rest in ((message @ err) # lines, conns))"
| "accept_loop message (Inr conn # rest) = (let (lines, conns) = accept_loop message rest in (lines, conn # conns))"

text \<open>
  What a server owes: it exits with status 1 exactly if it cannot listen; otherwise no error ends its loop, which serves every
  connection once, in the order of arrival, and logs a line for every error.
\<close>

definition accepts :: "string option \<Rightarrow> (string + 'c) list \<Rightarrow> nat + string list \<times> 'c list \<Rightarrow> bool" where
  "accepts listenError accepted r \<longleftrightarrow>
     (case r of
        Inl status \<Rightarrow> status = 1 \<and> listenError \<noteq> None
      | Inr (lines, conns) \<Rightarrow> listenError = None \<and> conns = map projr (filter (\<lambda>a. \<not> isl a) accepted) \<and>
          length lines = length (filter isl accepted))"

lemma accept_loop_accepts:
  "accepts listenError accepted (case listenError of Some err \<Rightarrow> Inl 1 | None \<Rightarrow> Inr (accept_loop message accepted))"
proof -
  have "snd (accept_loop message accepted) = map projr (filter (\<lambda>a. \<not> isl a) accepted) \<and>
      length (fst (accept_loop message accepted)) = length (filter isl accepted)"
    by (induction message accepted rule: accept_loop.induct) (simp_all add: case_prod_beta Let_def)
  then show ?thesis by (auto simp: accepts_def split: option.splits prod.splits)
qed

end
