(* ===== verification/Proxy_Chain.thy ===== *)
theory Proxy_Chain
  imports Proxy_Engine Go_Net
begin

text \<open>
  The commands around the proxy and one session from end to end: \<open>reverse-proxy/cmd/proxy/main.go\<close>, the client
  \<open>cmd/client/main.go\<close>, which writes three requests and waits for a line after each, a session of the goroutine engine between
  two connections, and the backend \<open>cmd/echo/main.go\<close>.  A connection is two streams: the bytes on their way, whether the
  writing end has been closed, and whether the reading end has.  The network neither fails nor loses bytes.  \<open>io.Copy\<close> is a
  program counter with the bytes it holds; what one read returns is any non-empty part of what has arrived.
\<close>

section \<open>The proxy command\<close>

text \<open>
  Everything up to the accept loop; \<open>Inl\<close> is the exit status of \<open>log.Fatalf\<close> or \<open>os.Exit\<close>.  The results of
  \<open>EpollCreate1\<close> and \<open>net.Listen\<close> are inputs.
\<close>

definition proxy_main ::
  "string \<Rightarrow> string \<Rightarrow> network \<Rightarrow> string option \<Rightarrow> string option \<Rightarrow> nat + backend \<times> engine \<times> network" where
  "proxy_main connectorType engineType net epollCreate listen =
     (case resolveConnector ''127.0.0.1:9000'' connectorType net of
        (Inl status, net) \<Rightarrow> Inl status
      | (Inr backend, net) \<Rightarrow>
          (case resolveEngine engineType epollCreate of
             Inl status \<Rightarrow> Inl status
           | Inr engine \<Rightarrow> (case listen of Some err \<Rightarrow> Inl 1 | None \<Rightarrow> Inr (backend, engine, net))))"

section \<open>Copying\<close>

record stream =
  st_data :: bytes
  st_closed :: bool
  st_gone :: bool

definition new_stream :: stream where
  "new_stream = \<lparr>st_data = [], st_closed = False, st_gone = False\<rparr>"

datatype copy_pc = Copy_Read | Copy_Write bytes | Copy_End

inductive copy_step :: "copy_pc \<Rightarrow> stream \<Rightarrow> stream \<Rightarrow> copy_pc \<Rightarrow> stream \<Rightarrow> stream \<Rightarrow> bool" where
  cp_read: "st_data src = d @ rest \<Longrightarrow> d \<noteq> [] \<Longrightarrow>
    copy_step Copy_Read src dst (Copy_Write d) (src\<lparr>st_data := rest\<rparr>) dst"
| cp_eof: "st_data src = [] \<Longrightarrow> st_closed src \<Longrightarrow> copy_step Copy_Read src dst Copy_End src dst"
| cp_write: "copy_step (Copy_Write d) src dst Copy_Read src (dst\<lparr>st_data := st_data dst @ d\<rparr>)"
| cp_write_err: "st_gone dst \<Longrightarrow> copy_step (Copy_Write d) src dst Copy_End src dst"

fun held :: "copy_pc \<Rightarrow> bytes" where
  "held (Copy_Write d) = d"
| "held _ = []"

text \<open>\<open>handleConnection\<close> of the echo server copies from its connection to itself and then closes both directions.\<close>

inductive echo_step :: "copy_pc \<Rightarrow> bool \<Rightarrow> stream \<Rightarrow> stream \<Rightarrow> copy_pc \<Rightarrow> bool \<Rightarrow> stream \<Rightarrow> stream \<Rightarrow> bool" where
  ec_copy: "copy_step p inp out q inp' out' \<Longrightarrow> echo_step p closed inp out q closed inp' out'"
| ec_close: "echo_step Copy_End False inp out Copy_End True (inp\<lparr>st_gone := True\<rparr>) (out\<lparr>st_closed := True\<rparr>)"

text \<open>The echo server's \<open>main\<close>: \<open>Inl\<close> is the exit status of \<open>log.Fatalf\<close>, \<open>Inr\<close> what its accept loop has logged and served.\<close>

definition echo_main :: "(string \<Rightarrow> string option) \<Rightarrow> (string + 'c) list \<Rightarrow> nat + string list \<times> 'c list" where
  "echo_main listen accepted =
     (case listen '':9000'' of
        Some err \<Rightarrow> Inl 1
      | None \<Rightarrow> Inr (accept_loop ''Failed to accept connection: '' accepted))"

section \<open>The client\<close>

definition client_requests :: "bytes list" where
  "client_requests =
     [[72, 101, 108, 108, 111, 32, 49, 10], [72, 101, 108, 108, 111, 32, 50, 10], [72, 101, 108, 108, 111, 32, 51, 10]]"

text \<open>
  \<open>bufio.NewReader(conn).ReadString('\n')\<close> reads chunks of at most 4096 bytes until one has a newline; as every request gets a
  reader of its own, what such a chunk holds behind the newline is lost with the reader (\<open>cl_lost\<close>).
\<close>

datatype client_pc = Cl_Loop | Cl_Await bytes | Cl_Closed

record client =
  cl_pc :: client_pc
  cl_todo :: "bytes list"
  cl_printed :: "bytes list"
  cl_lost :: bytes

definition client_received :: "bytes \<Rightarrow> client \<Rightarrow> client" where
  "client_received acc c =
     (if nl \<in> set acc
      then c\<lparr>cl_pc := Cl_Loop, cl_printed := cl_printed c @ [takeWhile (\<lambda>b. b \<noteq> nl) acc @ [nl]],
             cl_lost := cl_lost c @ tl (dropWhile (\<lambda>b. b \<noteq> nl) acc)\<rparr>
      else c\<lparr>cl_pc := Cl_Await acc\<rparr>)"

text \<open>One step of the client on its two streams.\<close>

inductive client_main_step :: "client \<Rightarrow> stream \<Rightarrow> stream \<Rightarrow> client \<Rightarrow> stream \<Rightarrow> stream \<Rightarrow> bool" where
  cl_write: "cl_pc c = Cl_Loop \<Longrightarrow> cl_todo c = r # rs \<Longrightarrow>
    client_main_step c out inp (c\<lparr>cl_pc := Cl_Await [], cl_todo := rs\<rparr>) (out\<lparr>st_data := st_data out @ r\<rparr>) inp"
| cl_write_err: "cl_pc c = Cl_Loop \<Longrightarrow> cl_todo c = r # rs \<Longrightarrow> st_gone out \<Longrightarrow>
    client_main_step c out inp (c\<lparr>cl_todo := rs\<rparr>) out inp"
| cl_read: "cl_pc c = Cl_Await acc \<Longrightarrow> st_data inp = d @ rest \<Longrightarrow> d \<noteq> [] \<Longrightarrow> length d \<le> 4096 \<Longrightarrow>
    client_main_step c out inp (client_received (acc @ d) c) out (inp\<lparr>st_data := rest\<rparr>)"
| cl_read_err: "cl_pc c = Cl_Await acc \<Longrightarrow> st_data inp = [] \<Longrightarrow> st_closed inp \<Longrightarrow>
    client_main_step c out inp (c\<lparr>cl_pc := Cl_Loop\<rparr>) out inp"
| cl_close: "cl_pc c = Cl_Loop \<Longrightarrow> cl_todo c = [] \<Longrightarrow>
    client_main_step c out inp (c\<lparr>cl_pc := Cl_Closed\<rparr>) (out\<lparr>st_closed := True\<rparr>) (inp\<lparr>st_gone := True\<rparr>)"

section \<open>One session\<close>

text \<open>
  The session has got its connection.  \<open>ses_up\<close> is the goroutine that copies to the backend, \<open>ses_down\<close> the session's own copy to the
  client; when that ends the deferred calls hand the connection back, which closes it if the connector dials, and close the
  client's.
\<close>

datatype session_end = Ses_Open | Ses_Returned | Ses_Closed

record chain =
  ses_client :: client
  ses_request :: stream
  ses_up :: copy_pc
  ses_forward :: stream
  ses_echo :: copy_pc
  ses_gone :: bool
  ses_answer :: stream
  ses_down :: copy_pc
  ses_reply :: stream
  ses_end :: session_end

definition chain_start :: "bytes list \<Rightarrow> chain" where
  "chain_start requests =
     \<lparr>ses_client = \<lparr>cl_pc = Cl_Loop, cl_todo = requests, cl_printed = [], cl_lost = []\<rparr>, ses_request = new_stream,
      ses_up = Copy_Read, ses_forward = new_stream, ses_echo = Copy_Read, ses_gone = False,
      ses_answer = new_stream, ses_down = Copy_Read, ses_reply = new_stream, ses_end = Ses_Open\<rparr>"

inductive chain_step :: "bool \<Rightarrow> chain \<Rightarrow> chain \<Rightarrow> bool" for dials where
  x_client: "client_main_step (ses_client s) (ses_request s) (ses_reply s) c out inp \<Longrightarrow>
    chain_step dials s (s\<lparr>ses_client := c, ses_request := out, ses_reply := inp\<rparr>)"
| x_up: "copy_step (ses_up s) (ses_request s) (ses_forward s) p src dst \<Longrightarrow>
    chain_step dials s (s\<lparr>ses_up := p, ses_request := src, ses_forward := dst\<rparr>)"
| x_echo: "echo_step (ses_echo s) (ses_gone s) (ses_forward s) (ses_answer s) p gone src dst \<Longrightarrow>
    chain_step dials s (s\<lparr>ses_echo := p, ses_gone := gone, ses_forward := src, ses_answer := dst\<rparr>)"
| x_down: "copy_step (ses_down s) (ses_answer s) (ses_reply s) p src dst \<Longrightarrow>
    chain_step dials s (s\<lparr>ses_down := p, ses_answer := src, ses_reply := dst\<rparr>)"
| x_return: "ses_down s = Copy_End \<Longrightarrow> ses_end s = Ses_Open \<Longrightarrow>
    chain_step dials s (if dials
      then s\<lparr>ses_end := Ses_Returned, ses_forward := (ses_forward s)\<lparr>st_closed := True\<rparr>,
             ses_answer := (ses_answer s)\<lparr>st_gone := True\<rparr>\<rparr>
      else s\<lparr>ses_end := Ses_Returned\<rparr>)"
| x_close: "ses_end s = Ses_Returned \<Longrightarrow>
    chain_step dials s (s\<lparr>ses_end := Ses_Closed, ses_reply := (ses_reply s)\<lparr>st_closed := True\<rparr>,
      ses_request := (ses_request s)\<lparr>st_gone := True\<rparr>\<rparr>)"

inductive chain_reach :: "bool \<Rightarrow> bytes list \<Rightarrow> chain \<Rightarrow> bool" for dials requests where
  chain_init: "chain_reach dials requests (chain_start requests)"
| chain_next: "chain_reach dials requests s \<Longrightarrow> chain_step dials s t \<Longrightarrow> chain_reach dials requests t"

section \<open>What is on its way\<close>

definition on_way :: "chain \<Rightarrow> bytes" where
  "on_way s = st_data (ses_reply s) @ held (ses_down s) @ st_data (ses_answer s) @ held (ses_echo s) @
     st_data (ses_forward s) @ held (ses_up s) @ st_data (ses_request s)"

text \<open>A request is a line: one newline, at its end.\<close>

definition line_ok :: "bytes \<Rightarrow> bool" where
  "line_ok r \<longleftrightarrow> (\<exists>w. r = w @ [nl] \<and> nl \<notin> set w)"

definition client_ok :: "bytes list \<Rightarrow> client \<Rightarrow> bytes \<Rightarrow> bool" where
  "client_ok requests c way \<longleftrightarrow> cl_lost c = [] \<and>
     (case cl_pc c of
        Cl_Loop \<Rightarrow> requests = cl_printed c @ cl_todo c \<and> way = []
      | Cl_Await acc \<Rightarrow> nl \<notin> set acc \<and> requests = cl_printed c @ (acc @ way) # cl_todo c
      | Cl_Closed \<Rightarrow> requests = cl_printed c \<and> cl_todo c = [] \<and> way = [])"

definition chain_inv :: "bytes list \<Rightarrow> chain \<Rightarrow> bool" where
  "chain_inv requests s \<longleftrightarrow>
     client_ok requests (ses_client s) (on_way s) \<and>
     (st_closed (ses_request s) \<longleftrightarrow> cl_pc (ses_client s) = Cl_Closed) \<and>
     (st_gone (ses_reply s) \<longrightarrow> cl_pc (ses_client s) = Cl_Closed) \<and>
     (ses_up s = Copy_End \<longrightarrow> st_closed (ses_request s)) \<and>
     ses_end s = Ses_Open \<and> ses_echo s \<noteq> Copy_End \<and> ses_down s \<noteq> Copy_End \<and> \<not> ses_gone s \<and>
     \<not> st_closed (ses_forward s) \<and> \<not> st_closed (ses_answer s) \<and> \<not> st_closed (ses_reply s) \<and>
     \<not> st_gone (ses_forward s) \<and> \<not> st_gone (ses_answer s) \<and> \<not> st_gone (ses_request s) \<and>
     ses_up s \<noteq> Copy_Write [] \<and> ses_echo s \<noteq> Copy_Write [] \<and> ses_down s \<noteq> Copy_Write []"

lemma chain_inv_start: "chain_inv requests (chain_start requests)"
  by (simp add: chain_inv_def client_ok_def chain_start_def new_stream_def on_way_def)


section \<open>The invariant is kept\<close>

lemma line_prefix:
  assumes "line_ok r" and "r = a @ b"
  shows "nl \<in> set a \<longleftrightarrow> a = r" and "a = r \<Longrightarrow> takeWhile (\<lambda>b. b \<noteq> nl) a @ [nl] = r"
    and "a = r \<Longrightarrow> tl (dropWhile (\<lambda>b. b \<noteq> nl) a) = []"
proof -
  obtain w where w: "r = w @ [nl]" "nl \<notin> set w" using assms(1) by (auto simp: line_ok_def)
  show "nl \<in> set a \<longleftrightarrow> a = r"
  proof (cases b rule: rev_cases)
    case (snoc b' x)
    then have "w = a @ b'" using assms(2) w(1) by simp
    then show ?thesis using w snoc assms(2) by auto
  qed (use assms(2) w in auto)
  assume "a = r"
  then have "\<forall>x \<in> set w. x \<noteq> nl" using w(2) by auto
  with w \<open>a = r\<close> show "takeWhile (\<lambda>b. b \<noteq> nl) a @ [nl] = r" "tl (dropWhile (\<lambda>b. b \<noteq> nl) a) = []"
    by (simp_all add: takeWhile_append dropWhile_append)
qed

lemma client_received_line:
  assumes "line_ok r" and "r = (acc @ d) @ rest"
  shows "client_received (acc @ d) c =
    (if rest = [] then c\<lparr>cl_pc := Cl_Loop, cl_printed := cl_printed c @ [r]\<rparr> else c\<lparr>cl_pc := Cl_Await (acc @ d)\<rparr>)"
    and "rest \<noteq> [] \<Longrightarrow> nl \<notin> set (acc @ d)"
proof -
  have eq: "acc @ d = r \<longleftrightarrow> rest = []" using assms(2) by auto
  note l = line_prefix [OF assms]
  show "rest \<noteq> [] \<Longrightarrow> nl \<notin> set (acc @ d)" using l(1) eq by simp
  show "client_received (acc @ d) c =
    (if rest = [] then c\<lparr>cl_pc := Cl_Loop, cl_printed := cl_printed c @ [r]\<rparr> else c\<lparr>cl_pc := Cl_Await (acc @ d)\<rparr>)"
    unfolding client_received_def l(1) eq using l(2,3) eq by simp
qed

text \<open>The rest of what is on its way, behind the bytes that the client can read.\<close>

definition behind :: "chain \<Rightarrow> bytes" where
  "behind s = held (ses_down s) @ st_data (ses_answer s) @ held (ses_echo s) @
     st_data (ses_forward s) @ held (ses_up s)"

lemma on_way_behind: "on_way s = st_data (ses_reply s) @ behind s @ st_data (ses_request s)"
  by (simp add: on_way_def behind_def)

lemma behind_client [simp]: "behind (s\<lparr>ses_client := c, ses_request := out, ses_reply := inp\<rparr>) = behind s"
  by (simp add: behind_def)

lemma client_ok_step:
  assumes "client_main_step c out inp c' out' inp'" and "client_ok requests c (st_data inp @ mid @ st_data out)"
    and "\<not> st_gone out" and "\<not> st_closed inp" and lines: "\<forall>r \<in> set requests. line_ok r"
  shows "client_ok requests c' (st_data inp' @ mid @ st_data out') \<and>
    (st_closed out' \<longleftrightarrow> st_closed out \<or> cl_pc c' = Cl_Closed) \<and> st_closed inp' = st_closed inp \<and> st_gone out' = st_gone out \<and>
    (st_gone inp' \<longrightarrow> st_gone inp \<or> cl_pc c' = Cl_Closed) \<and> cl_pc c \<noteq> Cl_Closed"
  using assms(1)
proof cases
  case (cl_write r rs)
  then show ?thesis using assms(2) by (simp add: client_ok_def)
next
  case (cl_write_err r rs)
  then show ?thesis using assms(3) by simp
next
  case (cl_read acc d rest)
  let ?r = "acc @ st_data inp @ mid @ st_data out"
  have r: "requests = cl_printed c @ ?r # cl_todo c" "nl \<notin> set acc" "cl_lost c = []"
    using assms(2) cl_read(4) by (simp_all add: client_ok_def)
  have "?r = (acc @ d) @ (rest @ mid @ st_data out)" using cl_read(5) by simp
  moreover have "line_ok ?r" using lines r(1) by simp
  ultimately show ?thesis
    using r cl_read client_received_line(1) [of ?r acc d "rest @ mid @ st_data out" c]
      client_received_line(2) [of ?r acc d "rest @ mid @ st_data out"]
    by (cases "rest @ mid @ st_data out = []") (simp_all add: client_ok_def)
next
  case (cl_read_err acc)
  then show ?thesis using assms(4) by simp
next
  case cl_close
  then show ?thesis using assms(2) by (simp add: client_ok_def)
qed

lemma client_inv:
  assumes inv: "chain_inv requests s" and lines: "\<forall>r \<in> set requests. line_ok r"
    and c: "client_main_step (ses_client s) (ses_request s) (ses_reply s) c out inp"
  shows "chain_inv requests (s\<lparr>ses_client := c, ses_request := out, ses_reply := inp\<rparr>)"
proof -
  have "client_ok requests (ses_client s) (st_data (ses_reply s) @ behind s @ st_data (ses_request s))"
    "\<not> st_gone (ses_request s)" "\<not> st_closed (ses_reply s)"
    using inv by (simp_all add: chain_inv_def on_way_behind)
  from client_ok_step [OF c this lines] inv show ?thesis by (auto simp: chain_inv_def on_way_behind)
qed

lemma copy_inv:
  assumes "copy_step p src dst q src' dst'" and "p \<noteq> Copy_Write []" and "\<not> st_gone dst"
  shows "st_data dst' @ held q @ st_data src' = st_data dst @ held p @ st_data src" and "q \<noteq> Copy_Write []"
    and "st_closed src' = st_closed src" "st_gone src' = st_gone src"
    and "st_closed dst' = st_closed dst" "st_gone dst' = st_gone dst"
  using assms by (cases; simp)+

lemma copy_end: "copy_step p src dst q src' dst' \<Longrightarrow> q = Copy_End \<Longrightarrow> p \<noteq> Copy_End \<and> (st_closed src \<or> st_gone dst)"
  by (induction rule: copy_step.induct) auto

lemma chain_inv_step:
  assumes "chain_step dials s t" and inv: "chain_inv requests s" and lines: "\<forall>r \<in> set requests. line_ok r"
  shows "chain_inv requests t"
  using assms(1)
proof cases
  case (x_client c out inp)
  then show ?thesis using client_inv [OF inv lines] by simp
next
  case (x_up p src dst)
  have "ses_up s \<noteq> Copy_Write []" "\<not> st_gone (ses_forward s)" using inv by (simp_all add: chain_inv_def)
  note c = copy_inv [OF x_up(2) this] and e = copy_end [OF x_up(2)]
  have "on_way t = on_way s" using c(1) by (simp add: x_up(1) on_way_def)
  then show ?thesis using inv c e by (auto simp: x_up(1) chain_inv_def)
next
  case (x_echo p gone src dst)
  have n: "ses_echo s \<noteq> Copy_End" "ses_echo s \<noteq> Copy_Write []" "\<not> st_gone (ses_answer s)"
    using inv by (simp_all add: chain_inv_def)
  from x_echo(2) n(1) have m: "copy_step (ses_echo s) (ses_forward s) (ses_answer s) p src dst" "gone = ses_gone s"
    by (cases; simp)+
  note c = copy_inv [OF m(1) n(2,3)] and e = copy_end [OF m(1)]
  have t: "t = s\<lparr>ses_echo := p, ses_forward := src, ses_answer := dst\<rparr>" by (simp add: x_echo(1) m(2))
  have "on_way t = on_way s" using c(1) by (simp add: t on_way_def)
  then show ?thesis using inv c e by (auto simp: t chain_inv_def)
next
  case (x_down p src dst)
  have w: "ses_down s \<noteq> Copy_Write []" using inv by (simp add: chain_inv_def)
  have ng: "\<not> st_gone (ses_reply s)"
  proof
    assume "st_gone (ses_reply s)"
    then have "cl_pc (ses_client s) = Cl_Closed" using inv by (simp add: chain_inv_def)
    then have "on_way s = []" using inv by (simp add: chain_inv_def client_ok_def)
    then have e: "held (ses_down s) = []" "st_data (ses_answer s) = []" by (simp_all add: on_way_def)
    have open_: "\<not> st_closed (ses_answer s)" using inv by (simp add: chain_inv_def)
    from x_down(2) e open_ w show False by cases auto
  qed
  note c = copy_inv [OF x_down(2) w ng] and e = copy_end [OF x_down(2)]
  have "on_way t = on_way s" using c(1) by (simp add: x_down(1) on_way_def)
  then show ?thesis using inv c e ng by (auto simp: x_down(1) chain_inv_def)
next
  case x_return
  with inv show ?thesis by (simp add: chain_inv_def)
next
  case x_close
  with inv show ?thesis by (simp add: chain_inv_def)
qed

lemma chain_reach_inv:
  "chain_reach dials requests s \<Longrightarrow> \<forall>r \<in> set requests. line_ok r \<Longrightarrow> chain_inv requests s"
  by (induction rule: chain_reach.induct) (blast intro: chain_inv_start chain_inv_step)+

section \<open>The session comes to rest\<close>

text \<open>Every byte has seven more places to go; a request that is not yet sent has one more.\<close>

fun copy_work :: "nat \<Rightarrow> copy_pc \<Rightarrow> nat" where
  "copy_work n Copy_Read = 1"
| "copy_work n (Copy_Write d) = Suc (Suc (n * length d))"
| "copy_work n Copy_End = 0"

definition client_work :: "client \<Rightarrow> nat" where
  "client_work c = sum_list (map (\<lambda>r. 16 * length r + 3) (cl_todo c)) +
     (case cl_pc c of Cl_Loop \<Rightarrow> 1 | Cl_Await _ \<Rightarrow> 2 | Cl_Closed \<Rightarrow> 0)"

definition chain_work :: "chain \<Rightarrow> nat" where
  "chain_work s = client_work (ses_client s) + 14 * length (st_data (ses_request s)) + copy_work 12 (ses_up s) +
     10 * length (st_data (ses_forward s)) + copy_work 8 (ses_echo s) + 6 * length (st_data (ses_answer s)) +
     copy_work 4 (ses_down s) + 2 * length (st_data (ses_reply s)) + (if ses_gone s then 0 else 1) +
     (case ses_end s of Ses_Open \<Rightarrow> 2 | Ses_Returned \<Rightarrow> 1 | Ses_Closed \<Rightarrow> 0)"

lemma copy_step_work:
  assumes "copy_step p src dst q src' dst'"
  shows "copy_work n q + (n + 2) * length (st_data src') + (n - 2) * length (st_data dst') <
    copy_work n p + (n + 2) * length (st_data src) + (n - 2) * length (st_data dst)"
  using assms
proof cases
  case (cp_read d rest)
  then obtain x d' where "d = x # d'" by (cases d) auto
  with cp_read show ?thesis by (simp add: algebra_simps)
next
  case (cp_write d)
  have "(n - 2) * length d \<le> n * length d" by (rule mult_le_mono1) simp
  with cp_write show ?thesis by (simp add: algebra_simps)
qed simp_all

lemma client_received_work:
  "cl_pc c = Cl_Await acc \<Longrightarrow> client_work (client_received x c) \<le> client_work c"
  by (simp add: client_received_def client_work_def)

lemma client_step_work:
  assumes "client_main_step c out inp c' out' inp'"
  shows "client_work c' + 14 * length (st_data out') + 2 * length (st_data inp') <
    client_work c + 14 * length (st_data out) + 2 * length (st_data inp)"
  using assms
proof cases
  case (cl_read acc d rest)
  then obtain x d' where "d = x # d'" by (cases d) auto
  with cl_read client_received_work [of c acc "acc @ d"] show ?thesis by simp
qed (simp_all add: client_work_def)

lemma chain_step_work:
  assumes "chain_step dials s t" shows "chain_work t < chain_work s"
  using assms
proof cases
  case (x_client c out inp)
  with client_step_work [OF x_client(2)] show ?thesis by (simp add: chain_work_def)
next
  case (x_up p src dst)
  with copy_step_work [OF x_up(2), of 12] show ?thesis by (simp add: chain_work_def)
next
  case (x_echo p gone src dst)
  from x_echo(2) show ?thesis
  proof cases
    case ec_copy
    with x_echo(1) copy_step_work [OF ec_copy(2), of 8] show ?thesis by (simp add: chain_work_def)
  qed (simp add: x_echo(1) chain_work_def)
next
  case (x_down p src dst)
  with copy_step_work [OF x_down(2), of 4] show ?thesis by (simp add: chain_work_def)
qed (simp_all add: chain_work_def)

interpretation chain: measured "chain_step dials" chain_work for dials
  by unfold_locales (rule chain_step_work)

lemma chain_reach_steps: "rtranclp (chain_step dials) s t \<Longrightarrow> chain_reach dials requests s \<Longrightarrow> chain_reach dials requests t"
  by (induction rule: rtranclp_induct) (auto intro: chain_next)

text \<open>A copy that cannot move waits for bytes, or has ended.\<close>

lemma copy_waits:
  assumes "\<nexists>q src' dst'. copy_step p src dst q src' dst'"
  shows "p = Copy_End \<or> p = Copy_Read \<and> st_data src = [] \<and> \<not> st_closed src"
proof (cases p)
  case Copy_Read
  have "st_data src = []"
  proof (rule ccontr)
    assume "st_data src \<noteq> []"
    then have "copy_step Copy_Read src dst (Copy_Write (st_data src)) (src\<lparr>st_data := []\<rparr>) dst" by (intro cp_read) simp_all
    with assms Copy_Read show False by blast
  qed
  with assms Copy_Read cp_eof [of src dst] show ?thesis by blast
next
  case (Copy_Write d)
  with assms cp_write [of d src dst] show ?thesis by blast
qed simp

lemma client_waits:
  assumes "\<nexists>c' out' inp'. client_main_step c out inp c' out' inp'"
  shows "cl_pc c = Cl_Closed \<or> (\<exists>acc. cl_pc c = Cl_Await acc) \<and> st_data inp = []"
proof (cases "cl_pc c")
  case Cl_Loop
  then show ?thesis using assms cl_close [of c out inp] cl_write [of c _ _ out inp] by (cases "cl_todo c") blast+
next
  case (Cl_Await acc)
  have "st_data inp = []"
  proof (rule ccontr)
    assume n: "st_data inp \<noteq> []"
    then have "client_main_step c out inp (client_received (acc @ take 4096 (st_data inp)) c) out
        (inp\<lparr>st_data := drop 4096 (st_data inp)\<rparr>)"
      by (intro cl_read [OF Cl_Await]) simp_all
    with assms show False by blast
  qed
  with Cl_Await show ?thesis by simp
qed simp

section \<open>Properties\<close>

lemma client_requests_lines: "\<forall>r \<in> set client_requests. line_ok r"
proof -
  have "line_ok (w @ [nl])" if "nl \<notin> set w" for w using that by (auto simp: line_ok_def)
  from this [of "[72, 101, 108, 108, 111, 32, 49]"] this [of "[72, 101, 108, 108, 111, 32, 50]"]
    this [of "[72, 101, 108, 108, 111, 32, 51]"]
  show ?thesis by (simp add: client_requests_def)
qed

lemma client_ok_printed:
  assumes "client_ok requests c way"
  shows "cl_printed c = take (length (cl_printed c)) requests"
  using assms by (auto simp: client_ok_def split: client_pc.splits)

lemma stuck_streams:
  assumes stuck: "\<nexists>t. chain_step dials s t" and inv: "chain_inv requests s" and lines: "\<forall>r \<in> set requests. line_ok r"
  shows "ses_echo s = Copy_Read" "ses_down s = Copy_Read" "cl_pc (ses_client s) = Cl_Closed" "ses_up s = Copy_End"
proof -
  have up: "ses_up s = Copy_End \<or> ses_up s = Copy_Read \<and> st_data (ses_request s) = [] \<and> \<not> st_closed (ses_request s)"
    by (rule copy_waits) (use stuck x_up in blast)
  have echo: "ses_echo s = Copy_End \<or> ses_echo s = Copy_Read \<and> st_data (ses_forward s) = [] \<and> \<not> st_closed (ses_forward s)"
    by (rule copy_waits) (use stuck x_echo [OF ec_copy] in blast)
  have down: "ses_down s = Copy_End \<or> ses_down s = Copy_Read \<and> st_data (ses_answer s) = [] \<and> \<not> st_closed (ses_answer s)"
    by (rule copy_waits) (use stuck x_down in blast)
  have client: "cl_pc (ses_client s) = Cl_Closed \<or> (\<exists>acc. cl_pc (ses_client s) = Cl_Await acc) \<and> st_data (ses_reply s) = []"
    by (rule client_waits) (use stuck x_client in blast)
  show e: "ses_echo s = Copy_Read" and d: "ses_down s = Copy_Read" using echo down inv by (auto simp: chain_inv_def)
  show c: "cl_pc (ses_client s) = Cl_Closed"
  proof (rule ccontr)
    assume n: "cl_pc (ses_client s) \<noteq> Cl_Closed"
    then obtain acc where acc: "cl_pc (ses_client s) = Cl_Await acc" "st_data (ses_reply s) = []" using client by auto
    have "\<not> st_closed (ses_request s)" using inv n by (simp add: chain_inv_def)
    then have "on_way s = []" using up echo down acc e d inv by (auto simp: on_way_def chain_inv_def)
    then have "requests = cl_printed (ses_client s) @ acc # cl_todo (ses_client s)" "nl \<notin> set acc"
      using inv acc(1) by (simp_all add: chain_inv_def client_ok_def)
    with lines show False by (auto simp: line_ok_def)
  qed
  then show "ses_up s = Copy_End" using up inv by (auto simp: chain_inv_def)
qed

text \<open>
  One session of the goroutine engine, from the client through the proxy to the echo server and back, in every
  interleaving and for every way the reads cut up the streams.  The client prints what it has sent, in order, and loses
  nothing with the readers it throws away; the program makes finitely many steps, and when it can make no more the client has printed
  all three lines and closed its connection.  But the session never ends: the copy from the client has, its end is not
  passed on to the backend, and the copy back waits for ever, so that the backend connection is not handed back.
\<close>

theorem session_echoes:
  assumes "chain_reach dials client_requests s"
  shows "cl_printed (ses_client s) = take (length (cl_printed (ses_client s))) client_requests \<and>
    cl_lost (ses_client s) = [] \<and> ses_end s = Ses_Open \<and>
    (\<exists>t. rtranclp (chain_step dials) s t \<and> (\<nexists>u. chain_step dials t u)) \<and>
    (\<forall>run. run 0 = s \<longrightarrow> \<not> (\<forall>i. chain_step dials (run i) (run (Suc i)))) \<and>
    ((\<nexists>t. chain_step dials s t) \<longrightarrow>
       cl_printed (ses_client s) = client_requests \<and> cl_pc (ses_client s) = Cl_Closed \<and>
       ses_up s = Copy_End \<and> ses_down s = Copy_Read \<and> ses_echo s = Copy_Read)"
proof -
  have inv: "chain_inv client_requests s" by (rule chain_reach_inv [OF assms client_requests_lines])
  then have ok: "client_ok client_requests (ses_client s) (on_way s)" and "ses_end s = Ses_Open"
    by (simp_all add: chain_inv_def)
  moreover have "cl_lost (ses_client s) = []" using ok by (simp add: client_ok_def)
  moreover have "cl_printed (ses_client s) = client_requests" if "cl_pc (ses_client s) = Cl_Closed"
    using ok that by (simp add: client_ok_def)
  ultimately show ?thesis
    using client_ok_printed [OF ok] chain.comes_to_rest [of dials s] chain.no_infinite_run
      stuck_streams [OF _ inv client_requests_lines] by blast
qed

theorem session_echoes_witness:
  "\<exists>s. chain_reach True client_requests s \<and> cl_printed (ses_client s) = client_requests \<and>
     cl_pc (ses_client s) = Cl_Closed \<and> ses_end s = Ses_Open \<and> (\<nexists>t. chain_step True s t)"
proof -
  obtain s where "chain_reach True client_requests s" "\<nexists>t. chain_step True s t"
    using chain.comes_to_rest [of True "chain_start client_requests"] chain_reach_steps [OF _ chain_init] by blast
  with session_echoes [of True s] show ?thesis by blast
qed

end
