(* ===== verification/Proxy_System.thy ===== *)
theory Proxy_System
  imports Proxy_Chain
begin

text \<open>
  The whole proxy of \<open>reverse-proxy\<close> with the goroutine engine: the accept loop of \<open>cmd/proxy/main.go\<close>, any number of clients
  that behave like \<open>cmd/client/main.go\<close> with lines of their own, the connector, and the echo server behind each backend
  connection.  A session is that of \<open>Proxy_Chain\<close>, split in what belongs to the client's goroutines and what belongs to the
  backend connection: connections are kept in a store (\<open>px_links\<close>), because a pooled one may be used by several sessions.  The
  theory composes the contract of the connectors (locale \<open>backend_connector\<close>) with the invariant of a session.
\<close>

section \<open>Connections and sessions\<close>

record link =
  lk_forward :: stream
  lk_echo :: copy_pc
  lk_gone :: bool
  lk_answer :: stream

definition fresh_link :: link where
  "fresh_link = \<lparr>lk_forward = new_stream, lk_echo = Copy_Read, lk_gone = False, lk_answer = new_stream\<rparr>"

datatype lease = Px_Waiting | Px_Leased conn | Px_Refused

text \<open>\<open>pd_requests\<close> is a history: what this client was started with.\<close>

record proxied =
  pd_requests :: "bytes list"
  pd_lease :: lease
  pd_client :: client
  pd_request :: stream
  pd_up :: copy_pc
  pd_down :: copy_pc
  pd_reply :: stream
  pd_end :: session_end

definition new_proxied :: "bytes list \<Rightarrow> proxied" where
  "new_proxied requests =
     \<lparr>pd_requests = requests, pd_lease = Px_Waiting,
      pd_client = \<lparr>cl_pc = Cl_Loop, cl_todo = requests, cl_printed = [], cl_lost = []\<rparr>, pd_request = new_stream,
      pd_up = Copy_Read, pd_down = Copy_Read, pd_reply = new_stream, pd_end = Ses_Open\<rparr>"

text \<open>A session over a connection is the chain of \<open>Proxy_Chain\<close>.\<close>

definition chain_of :: "proxied \<Rightarrow> link \<Rightarrow> chain" where
  "chain_of x k =
     \<lparr>ses_client = pd_client x, ses_request = pd_request x, ses_up = pd_up x, ses_forward = lk_forward k,
      ses_echo = lk_echo k, ses_gone = lk_gone k, ses_answer = lk_answer k, ses_down = pd_down x,
      ses_reply = pd_reply x, ses_end = pd_end x\<rparr>"

definition with_chain :: "chain \<Rightarrow> proxied \<Rightarrow> proxied" where
  "with_chain ch x = x\<lparr>pd_client := ses_client ch, pd_request := ses_request ch, pd_up := ses_up ch,
     pd_down := ses_down ch, pd_reply := ses_reply ch, pd_end := ses_end ch\<rparr>"

definition link_of :: "chain \<Rightarrow> link" where
  "link_of ch = \<lparr>lk_forward = ses_forward ch, lk_echo = ses_echo ch, lk_gone = ses_gone ch, lk_answer = ses_answer ch\<rparr>"

section \<open>The proxy\<close>

record 's proxy_system =
  px_backend :: 's
  px_links :: "conn \<Rightarrow> link"
  px_sessions :: "proxied list"

definition px_start :: "'s \<Rightarrow> 's proxy_system" where
  "px_start b = \<lparr>px_backend = b, px_links = (\<lambda>_. fresh_link), px_sessions = []\<rparr>"

text \<open>One round of the accept loop: an error is logged, a connection is given to \<open>Serve\<close>, which starts its goroutine.\<close>

definition px_accept :: "string + bytes list \<Rightarrow> 's proxy_system \<Rightarrow> 's proxy_system" where
  "px_accept accepted s =
     (case accepted of
        Inl err \<Rightarrow> s
      | Inr requests \<Rightarrow> s\<lparr>px_sessions := px_sessions s @ [new_proxied requests]\<rparr>)"

text \<open>
  The steps of the sessions.  Until it has a connection only the client moves: what it sends waits in its socket.  When
  \<open>Get\<close> fails the deferred \<open>Close\<close> shuts both directions of the client's connection.
\<close>

inductive px_step ::
  "('s \<Rightarrow> 's get_result) \<Rightarrow> (conn \<Rightarrow> 's \<Rightarrow> 's) \<Rightarrow> bool \<Rightarrow> 's proxy_system \<Rightarrow> 's proxy_system \<Rightarrow> bool"
  for get ret dials where
  px_client: "i < length (px_sessions s) \<Longrightarrow> x = px_sessions s ! i \<Longrightarrow> pd_lease x \<in> {Px_Waiting, Px_Refused} \<Longrightarrow>
    client_main_step (pd_client x) (pd_request x) (pd_reply x) c out inp \<Longrightarrow>
    px_step get ret dials s
      (s\<lparr>px_sessions := (px_sessions s)[i := x\<lparr>pd_client := c, pd_request := out, pd_reply := inp\<rparr>]\<rparr>)"
| px_get: "i < length (px_sessions s) \<Longrightarrow> x = px_sessions s ! i \<Longrightarrow> pd_lease x = Px_Waiting \<Longrightarrow>
    get (px_backend s) = Got c b \<Longrightarrow>
    px_step get ret dials s (s\<lparr>px_backend := b, px_sessions := (px_sessions s)[i := x\<lparr>pd_lease := Px_Leased c\<rparr>]\<rparr>)"
| px_refuse: "i < length (px_sessions s) \<Longrightarrow> x = px_sessions s ! i \<Longrightarrow> pd_lease x = Px_Waiting \<Longrightarrow>
    get (px_backend s) = Get_Error e b \<Longrightarrow>
    px_step get ret dials s (s\<lparr>px_backend := b, px_sessions := (px_sessions s)[i := x\<lparr>pd_lease := Px_Refused,
      pd_reply := (pd_reply x)\<lparr>st_closed := True\<rparr>, pd_request := (pd_request x)\<lparr>st_gone := True\<rparr>\<rparr>]\<rparr>)"
| px_relay: "i < length (px_sessions s) \<Longrightarrow> x = px_sessions s ! i \<Longrightarrow> pd_lease x = Px_Leased c \<Longrightarrow>
    chain_step dials (chain_of x (px_links s c)) ch \<Longrightarrow>
    px_step get ret dials s
      (s\<lparr>px_sessions := (px_sessions s)[i := with_chain ch x], px_links := (px_links s)(c := link_of ch),
         px_backend := (if pd_end x = Ses_Open \<and> ses_end ch \<noteq> Ses_Open then ret c (px_backend s) else px_backend s)\<rparr>)"

inductive px_reach ::
  "('s \<Rightarrow> 's get_result) \<Rightarrow> (conn \<Rightarrow> 's \<Rightarrow> 's) \<Rightarrow> bool \<Rightarrow> 's \<Rightarrow> 's proxy_system \<Rightarrow> bool"
  for get ret dials b where
  px_init: "px_reach get ret dials b (px_start b)"
| px_next: "px_reach get ret dials b s \<Longrightarrow> px_step get ret dials s t \<Longrightarrow> px_reach get ret dials b t"
| px_arrival: "px_reach get ret dials b s \<Longrightarrow> (\<And>requests. accepted = Inr requests \<Longrightarrow> \<forall>r \<in> set requests. line_ok r) \<Longrightarrow>
    px_reach get ret dials b (px_accept accepted s)"

section \<open>The invariant\<close>

definition leased_conns :: "proxied list \<Rightarrow> conn set" where
  "leased_conns xs = {c. \<exists>x \<in> set xs. pd_lease x = Px_Leased c}"

definition is_leased :: "proxied \<Rightarrow> bool" where
  "is_leased x \<longleftrightarrow> (\<exists>c. pd_lease x = Px_Leased c)"

definition proxied_ok :: "(conn \<Rightarrow> link) \<Rightarrow> proxied \<Rightarrow> bool" where
  "proxied_ok links x \<longleftrightarrow>
     (\<forall>r \<in> set (pd_requests x). line_ok r) \<and>
     (case pd_lease x of
        Px_Waiting \<Rightarrow> chain_inv (pd_requests x) (chain_of x fresh_link) \<and> st_data (pd_reply x) = [] \<and> cl_printed (pd_client x) = []
      | Px_Leased c \<Rightarrow> chain_inv (pd_requests x) (chain_of x (links c))
      | Px_Refused \<Rightarrow> st_closed (pd_reply x) \<and> st_data (pd_reply x) = [] \<and> cl_printed (pd_client x) = [])"

definition px_inv :: "('s \<Rightarrow> conn set \<Rightarrow> bool) \<Rightarrow> 's proxy_system \<Rightarrow> bool" where
  "px_inv ok s \<longleftrightarrow>
     ok (px_backend s) (leased_conns (px_sessions s)) \<and>
     (\<forall>x \<in> set (px_sessions s). proxied_ok (px_links s) x) \<and>
     (\<forall>i j c. i < length (px_sessions s) \<longrightarrow> j < length (px_sessions s) \<longrightarrow>
        pd_lease (px_sessions s ! i) = Px_Leased c \<longrightarrow> pd_lease (px_sessions s ! j) = Px_Leased c \<longrightarrow> i = j) \<and>
     (\<forall>c. c \<notin> leased_conns (px_sessions s) \<longrightarrow> px_links s c = fresh_link) \<and>
     finite (leased_conns (px_sessions s)) \<and>
     card (leased_conns (px_sessions s)) = number is_leased (px_sessions s)"

lemma not_leased [simp]: "pd_lease x = Px_Waiting \<Longrightarrow> \<not> is_leased x" "pd_lease x = Px_Refused \<Longrightarrow> \<not> is_leased x"
  by (simp_all add: is_leased_def)

lemma chain_of_chain [simp]: "chain_of (with_chain ch x) (link_of ch) = ch"
  by (simp add: chain_of_def with_chain_def link_of_def)

lemma chain_of_new [simp]: "chain_of (new_proxied requests) fresh_link = chain_start requests"
  by (simp add: chain_of_def new_proxied_def fresh_link_def chain_start_def)

lemma chain_of_fields [simp]:
  "ses_client (chain_of x k) = pd_client x" "ses_request (chain_of x k) = pd_request x"
  "ses_reply (chain_of x k) = pd_reply x" "ses_end (chain_of x k) = pd_end x"
  "ses_up (chain_of x k) = pd_up x" "ses_down (chain_of x k) = pd_down x"
  "ses_echo (chain_of x k) = lk_echo k"
  by (simp_all add: chain_of_def)

lemma chain_of_client:
  "chain_of (x\<lparr>pd_client := c, pd_request := out, pd_reply := inp\<rparr>) k =
     (chain_of x k)\<lparr>ses_client := c, ses_request := out, ses_reply := inp\<rparr>"
  by (simp add: chain_of_def)

lemma chain_of_lease [simp]: "chain_of (x\<lparr>pd_lease := l\<rparr>) k = chain_of x k"
  by (simp add: chain_of_def)

lemma with_chain_fields [simp]:
  "pd_lease (with_chain ch x) = pd_lease x" "pd_requests (with_chain ch x) = pd_requests x"
  "pd_client (with_chain ch x) = ses_client ch"
  by (simp_all add: with_chain_def)

lemma leased_conns_nth: "leased_conns xs = {c. \<exists>i < length xs. pd_lease (xs ! i) = Px_Leased c}"
  unfolding leased_conns_def set_conv_nth by blast

lemma leased_same:
  assumes "i < length xs" and "pd_lease y = pd_lease (xs ! i)"
  shows "leased_conns (xs[i := y]) = leased_conns xs" and "number is_leased (xs[i := y]) = number is_leased xs"
    and "pd_lease (xs[i := y] ! j) = pd_lease (xs ! j)"
proof -
  show *: "pd_lease (xs[i := y] ! j) = pd_lease (xs ! j)" for j
    using assms by (cases "j < length xs") (auto simp: nth_list_update)
  then show "leased_conns (xs[i := y]) = leased_conns xs" by (simp add: leased_conns_nth)
  show "number is_leased (xs[i := y]) = number is_leased xs"
    using number_update [of i xs is_leased y] assms by (simp add: is_leased_def)
qed

lemma leased_new:
  assumes "i < length xs" and "pd_lease (xs ! i) = Px_Waiting"
  shows "leased_conns (xs[i := (xs ! i)\<lparr>pd_lease := Px_Leased c\<rparr>]) = insert c (leased_conns xs)"
    and "number is_leased (xs[i := (xs ! i)\<lparr>pd_lease := Px_Leased c\<rparr>]) = Suc (number is_leased xs)"
proof -
  let ?y = "(xs ! i)\<lparr>pd_lease := Px_Leased c\<rparr>"
  show "leased_conns (xs[i := ?y]) = insert c (leased_conns xs)"
    unfolding leased_conns_nth using assms by (auto simp: nth_list_update split: if_splits) (metis lease.distinct(1))
  show "number is_leased (xs[i := ?y]) = Suc (number is_leased xs)"
    using number_update [of i xs is_leased ?y] assms by (simp add: is_leased_def)
qed


section \<open>The invariant is kept\<close>

lemma proxied_ok_client:
  assumes ok: "proxied_ok links x" and l: "pd_lease x \<in> {Px_Waiting, Px_Refused}"
    and c: "client_main_step (pd_client x) (pd_request x) (pd_reply x) c out inp"
  shows "proxied_ok links (x\<lparr>pd_client := c, pd_request := out, pd_reply := inp\<rparr>)"
proof -
  have e: "st_data (pd_reply x) = []" "cl_printed (pd_client x) = []" using ok l by (auto simp: proxied_ok_def)
  from c e have k: "st_data inp = []" "cl_printed c = []" "st_closed inp = st_closed (pd_reply x)" by (cases; simp)+
  show ?thesis
  proof (cases "pd_lease x")
    case Px_Waiting
    have i: "chain_inv (pd_requests x) (chain_of x fresh_link)" "\<forall>r \<in> set (pd_requests x). line_ok r"
      using ok Px_Waiting by (simp_all add: proxied_ok_def)
    have "client_main_step (ses_client (chain_of x fresh_link)) (ses_request (chain_of x fresh_link))
        (ses_reply (chain_of x fresh_link)) c out inp" using c by simp
    from client_inv [OF i this] show ?thesis using ok k Px_Waiting by (simp add: proxied_ok_def chain_of_client)
  next
    case Px_Refused
    then show ?thesis using ok k by (simp add: proxied_ok_def)
  qed (use l in simp)
qed

lemma proxied_ok_link:
  "proxied_ok links x \<Longrightarrow> pd_lease x \<noteq> Px_Leased c \<Longrightarrow> proxied_ok (links(c := k)) x"
  by (auto simp: proxied_ok_def split: lease.splits)

lemma proxied_ok_leased:
  "proxied_ok links x \<Longrightarrow> pd_lease x = Px_Waiting \<Longrightarrow> links c = fresh_link \<Longrightarrow> proxied_ok links (x\<lparr>pd_lease := Px_Leased c\<rparr>)"
  by (simp add: proxied_ok_def)

lemma proxied_ok_relay:
  assumes "proxied_ok links x" and l: "pd_lease x = Px_Leased c" and ch: "chain_step dials (chain_of x (links c)) ch"
  shows "proxied_ok (links(c := link_of ch)) (with_chain ch x)" and "ses_end ch = Ses_Open"
proof -
  have i: "chain_inv (pd_requests x) (chain_of x (links c))" "\<forall>r \<in> set (pd_requests x). line_ok r"
    using assms(1) l by (simp_all add: proxied_ok_def)
  from chain_inv_step [OF ch i] have "chain_inv (pd_requests x) ch" .
  with l i(2) show "proxied_ok (links(c := link_of ch)) (with_chain ch x)" "ses_end ch = Ses_Open"
    by (simp_all add: proxied_ok_def, simp add: chain_inv_def)
qed

lemma proxied_ok_new: "\<forall>r \<in> set requests. line_ok r \<Longrightarrow> proxied_ok links (new_proxied requests)"
  using chain_inv_start [of requests] by (simp add: proxied_ok_def new_proxied_def [of requests] flip: chain_of_new)
    (simp add: new_proxied_def new_stream_def)

lemma all_update: "\<forall>x \<in> set xs. P x \<Longrightarrow> P y \<Longrightarrow> \<forall>x \<in> set (xs[i := y]). P x"
  using set_update_subset_insert [of xs i y] by blast

lemma px_inv_accept:
  assumes inv: "px_inv ok s" and r: "\<And>requests. accepted = Inr requests \<Longrightarrow> \<forall>r \<in> set requests. line_ok r"
  shows "px_inv ok (px_accept accepted s)"
proof (cases accepted)
  case (Inr requests)
  have w: "pd_lease (new_proxied requests) = Px_Waiting" by (simp add: new_proxied_def)
  have l: "leased_conns (px_sessions s @ [new_proxied requests]) = leased_conns (px_sessions s)"
    using w by (auto simp: leased_conns_def)
  have n: "number is_leased (px_sessions s @ [new_proxied requests]) = number is_leased (px_sessions s)"
    using w by (simp add: number_def is_leased_def)
  show ?thesis
    using inv proxied_ok_new [OF r [OF Inr], of "px_links s"] w
    by (simp add: px_inv_def px_accept_def Inr l n nth_append)
qed (use inv in \<open>simp add: px_accept_def\<close>)


context backend_connector begin

lemma px_inv_step:
  assumes "px_step get ret dials s t" and inv: "px_inv ok s"
  shows "px_inv ok t"
  using assms(1)
proof cases
  case (px_client i x c out inp)
  let ?y = "x\<lparr>pd_client := c, pd_request := out, pd_reply := inp\<rparr>"
  have x: "proxied_ok (px_links s) x" using inv px_client(2,3) by (simp add: px_inv_def)
  have same: "pd_lease ?y = pd_lease (px_sessions s ! i)" using px_client(3) by simp
  note l = leased_same [OF px_client(2) same]
  have "\<forall>x \<in> set ((px_sessions s)[i := ?y]). proxied_ok (px_links s) x"
    by (rule all_update) (use inv proxied_ok_client [OF x px_client(4,5)] in \<open>simp_all add: px_inv_def\<close>)
  with inv show ?thesis unfolding px_client(1) by (simp add: px_inv_def l)
next
  case (px_get i x c b)
  let ?xs = "px_sessions s" and ?y = "x\<lparr>pd_lease := Px_Leased c\<rparr>"
  have x: "proxied_ok (px_links s) x" using inv px_get(2,3) by (simp add: px_inv_def)
  have w: "pd_lease (?xs ! i) = Px_Waiting" using px_get(3,4) by simp
  have k: "ok (px_backend s) (leased_conns ?xs)" using inv by (simp add: px_inv_def)
  have new: "c \<notin> leased_conns ?xs" by (rule get_fresh [OF k px_get(5)])
  have l: "leased_conns (?xs[i := ?y]) = insert c (leased_conns ?xs)" "number is_leased (?xs[i := ?y]) = Suc (number is_leased ?xs)"
    using leased_new [OF px_get(2) w, of c] px_get(3) by simp_all
  have f: "px_links s c = fresh_link" using inv new by (simp add: px_inv_def)
  have all: "\<forall>x \<in> set (?xs[i := ?y]). proxied_ok (px_links s) x"
    by (rule all_update) (use inv proxied_ok_leased [OF x px_get(4) f] in \<open>simp_all add: px_inv_def\<close>)
  have other: "pd_lease (?xs ! j) \<noteq> Px_Leased c" if "j < length ?xs" for j
    using new that by (auto simp: leased_conns_nth)
  have old: "m = j" if "m < length ?xs" "j < length ?xs" "pd_lease (?xs ! m) = Px_Leased d" "pd_lease (?xs ! j) = Px_Leased d" for m j d
    using inv that by (simp add: px_inv_def)
  have inj: "m = j" if m: "m < length ?xs" "pd_lease (?xs[i := ?y] ! m) = Px_Leased d"
      and j: "j < length ?xs" "pd_lease (?xs[i := ?y] ! j) = Px_Leased d" for m j d
    using m j other [of m] other [of j] old [of m j d] by (cases "m = i"; cases "j = i") auto
  show ?thesis
    using inv all inj get_ok [OF k px_get(5)] new f unfolding px_get(1) by (simp add: px_inv_def l)
next
  case (px_refuse i x e b)
  let ?xs = "px_sessions s"
  let ?y = "x\<lparr>pd_lease := Px_Refused, pd_reply := (pd_reply x)\<lparr>st_closed := True\<rparr>, pd_request := (pd_request x)\<lparr>st_gone := True\<rparr>\<rparr>"
  have x: "proxied_ok (px_links s) x" using inv px_refuse(2,3) by (simp add: px_inv_def)
  have w: "pd_lease (?xs ! i) = Px_Waiting" using px_refuse(3,4) by simp
  have k: "ok (px_backend s) (leased_conns ?xs)" using inv by (simp add: px_inv_def)
  have none: "pd_lease (?xs[i := ?y] ! j) = Px_Leased d \<longleftrightarrow> pd_lease (?xs ! j) = Px_Leased d" for j d
    using w px_refuse(2) by (cases "j = i") simp_all
  then have l: "leased_conns (?xs[i := ?y]) = leased_conns ?xs" by (simp add: leased_conns_nth)
  have n: "number is_leased (?xs[i := ?y]) = number is_leased ?xs"
    using number_update [OF px_refuse(2), of is_leased ?y] w by (simp add: is_leased_def)
  have all: "\<forall>x \<in> set (?xs[i := ?y]). proxied_ok (px_links s) x"
    by (rule all_update) (use inv x px_refuse(4) in \<open>simp_all add: px_inv_def proxied_ok_def\<close>)
  show ?thesis
    using inv all get_error_ok [OF k px_refuse(5)] unfolding px_refuse(1) by (simp add: px_inv_def l n none)
next
  case (px_relay i x c ch)
  let ?xs = "px_sessions s" and ?k = "(px_links s)(c := link_of ch)"
  have x: "proxied_ok (px_links s) x" using inv px_relay(2,3) by (simp add: px_inv_def)
  note r = proxied_ok_relay [OF x px_relay(4,5)]
  have same: "pd_lease (with_chain ch x) = pd_lease (?xs ! i)" using px_relay(3) by simp
  note l = leased_same [OF px_relay(2) same]
  have t: "t = s\<lparr>px_sessions := ?xs[i := with_chain ch x], px_links := ?k\<rparr>" using px_relay(1) r(2) by simp
  have "proxied_ok ?k (?xs[i := with_chain ch x] ! j)" if j: "j < length ?xs" for j
  proof (cases "j = i")
    case False
    then have "pd_lease (?xs ! j) \<noteq> Px_Leased c" using inv px_relay(2,3,4) j by (auto simp: px_inv_def)
    moreover have "proxied_ok (px_links s) (?xs ! j)" using inv j by (simp add: px_inv_def)
    ultimately show ?thesis using proxied_ok_link False by simp
  qed (use r(1) j in simp)
  then have all: "\<forall>x \<in> set (?xs[i := with_chain ch x]). proxied_ok ?k x" by (simp add: all_set_conv_all_nth)
  have "c \<in> leased_conns ?xs" using px_relay(2,3,4) by (auto simp: leased_conns_nth)
  with inv all show ?thesis unfolding t by (simp add: px_inv_def l)
qed

lemma px_reach_inv: "px_reach get ret dials b s \<Longrightarrow> ok b {} \<Longrightarrow> px_inv ok s"
proof (induction rule: px_reach.induct)
  case px_init
  then show ?case by (simp add: px_inv_def px_start_def leased_conns_def number_def)
next
  case (px_next s t)
  then show ?case using px_inv_step by blast
next
  case (px_arrival s accepted)
  show ?case by (rule px_inv_accept) (use px_arrival in auto)
qed

end


section \<open>The sessions come to rest\<close>

definition proxied_work :: "(conn \<Rightarrow> link) \<Rightarrow> proxied \<Rightarrow> nat" where
  "proxied_work links x =
     (case pd_lease x of
        Px_Waiting \<Rightarrow> Suc (chain_work (chain_of x fresh_link))
      | Px_Leased c \<Rightarrow> chain_work (chain_of x (links c))
      | Px_Refused \<Rightarrow> client_work (pd_client x) + 14 * length (st_data (pd_request x)) + 2 * length (st_data (pd_reply x)))"

definition px_work :: "'s proxy_system \<Rightarrow> nat" where
  "px_work s = sum_list (map (proxied_work (px_links s)) (px_sessions s))"

lemma chain_work_client:
  "chain_work (chain_of x k) \<ge> client_work (pd_client x) + 14 * length (st_data (pd_request x)) + 2 * length (st_data (pd_reply x))"
  by (simp add: chain_work_def)

lemma px_work_less:
  assumes i: "i < length (px_sessions s)" and y: "px_sessions t = (px_sessions s)[i := y]"
    and less: "proxied_work (px_links t) y < proxied_work (px_links s) (px_sessions s ! i)"
    and same: "\<And>j. j < length (px_sessions s) \<Longrightarrow> j \<noteq> i \<Longrightarrow>
      proxied_work (px_links t) (px_sessions s ! j) = proxied_work (px_links s) (px_sessions s ! j)"
  shows "px_work t < px_work s"
proof -
  let ?ws = "map (proxied_work (px_links s)) (px_sessions s)"
  have "map (proxied_work (px_links t)) (px_sessions t) = ?ws[i := proxied_work (px_links t) y]"
    by (rule nth_equalityI) (use y i same in \<open>simp_all add: nth_list_update\<close>)
  then have "px_work t + ?ws ! i = px_work s + proxied_work (px_links t) y"
    using sum_list_update [of i ?ws id "proxied_work (px_links t) y"] i by (simp add: px_work_def)
  with less i show ?thesis by simp
qed

context backend_connector begin

lemma px_step_work:
  assumes "px_step get ret dials s t" and inv: "px_inv ok s"
  shows "px_work t < px_work s"
  using assms(1)
proof cases
  case (px_client i x c out inp)
  let ?y = "x\<lparr>pd_client := c, pd_request := out, pd_reply := inp\<rparr>"
  have c: "client_work c + 14 * length (st_data out) + 2 * length (st_data inp) <
      client_work (pd_client x) + 14 * length (st_data (pd_request x)) + 2 * length (st_data (pd_reply x))"
    by (rule client_step_work [OF px_client(5)])
  have "chain_work (chain_of ?y k) < chain_work (chain_of x k)" for k
    using c by (simp add: chain_of_client chain_work_def)
  with c have "proxied_work (px_links s) ?y < proxied_work (px_links s) x"
    using px_client(4) by (auto simp: proxied_work_def)
  then show ?thesis using px_client(1-3) by (intro px_work_less [of i s t ?y]) simp_all
next
  case (px_get i x c b)
  have "c \<notin> leased_conns (px_sessions s)" using inv get_fresh [OF _ px_get(5)] by (simp add: px_inv_def)
  then have "px_links s c = fresh_link" using inv by (simp add: px_inv_def)
  then have "proxied_work (px_links s) (x\<lparr>pd_lease := Px_Leased c\<rparr>) < proxied_work (px_links s) x"
    using px_get(4) by (simp add: proxied_work_def)
  then show ?thesis using px_get(1-3) by (intro px_work_less [of i s t "x\<lparr>pd_lease := Px_Leased c\<rparr>"]) simp_all
next
  case (px_refuse i x e b)
  let ?y = "x\<lparr>pd_lease := Px_Refused, pd_reply := (pd_reply x)\<lparr>st_closed := True\<rparr>, pd_request := (pd_request x)\<lparr>st_gone := True\<rparr>\<rparr>"
  have "proxied_work (px_links s) ?y < proxied_work (px_links s) x"
    using px_refuse(4) chain_work_client [of x fresh_link] by (simp add: proxied_work_def)
  then show ?thesis using px_refuse(1-3) by (intro px_work_less [of i s t ?y]) simp_all
next
  case (px_relay i x c ch)
  have same: "proxied_work ((px_links s)(c := link_of ch)) (px_sessions s ! j) = proxied_work (px_links s) (px_sessions s ! j)"
    if "j < length (px_sessions s)" "j \<noteq> i" for j
  proof -
    have "pd_lease (px_sessions s ! j) \<noteq> Px_Leased c" using inv that px_relay(2-4) by (auto simp: px_inv_def)
    then show ?thesis by (auto simp: proxied_work_def split: lease.splits)
  qed
  have "proxied_work ((px_links s)(c := link_of ch)) (with_chain ch x) < proxied_work (px_links s) x"
    using chain_step_work [OF px_relay(5)] px_relay(4) by (simp add: proxied_work_def)
  with same show ?thesis using px_relay(1-3) by (intro px_work_less [of i s t "with_chain ch x"]) simp_all
qed


end

sublocale backend_connector \<subseteq> sessions:
  measured "\<lambda>s t. px_inv ok s \<and> px_step get ret dials s t" px_work for dials
  by unfold_locales (blast intro: px_step_work)

context backend_connector begin

text \<open>Some run of the sessions ends, and no run goes on for ever.\<close>

lemma px_rest:
  assumes "px_inv ok s"
  shows "\<exists>t. rtranclp (px_step get ret dials) s t \<and> (\<nexists>u. px_step get ret dials t u)"
    and "run 0 = s \<Longrightarrow> \<not> (\<forall>i. px_step get ret dials (run i) (run (Suc i)))"
proof -
  let ?step = "\<lambda>s t. px_inv ok s \<and> px_step get ret dials s t"
  have "rtranclp (px_step get ret dials) s t \<and> px_inv ok t" if "rtranclp ?step s t" for t
    using that by (induction rule: rtranclp_induct) (use assms px_inv_step in \<open>auto intro: rtranclp.rtrancl_into_rtrancl\<close>)
  moreover obtain t where "rtranclp ?step s t" "\<nexists>u. ?step t u" using sessions.comes_to_rest [of dials s] by blast
  ultimately show "\<exists>t. rtranclp (px_step get ret dials) s t \<and> (\<nexists>u. px_step get ret dials t u)" by blast
  assume "run 0 = s"
  show "\<not> (\<forall>i. px_step get ret dials (run i) (run (Suc i)))"
  proof
    assume r: "\<forall>i. px_step get ret dials (run i) (run (Suc i))"
    have "px_inv ok (run i)" for i
      by (induction i) (use \<open>run 0 = s\<close> assms r px_inv_step in auto)
    with r sessions.no_infinite_run [of run dials] show False by blast
  qed
qed

lemma px_client_state:
  assumes "px_inv ok s" and "x \<in> set (px_sessions s)"
  shows "cl_printed (pd_client x) = take (length (cl_printed (pd_client x))) (pd_requests x)"
    and "\<not> is_leased x \<Longrightarrow> cl_printed (pd_client x) = []" and "is_leased x \<Longrightarrow> pd_end x = Ses_Open"
proof -
  have ok: "proxied_ok (px_links s) x" using assms by (simp add: px_inv_def)
  show "\<not> is_leased x \<Longrightarrow> cl_printed (pd_client x) = []"
    using ok by (auto simp: proxied_ok_def is_leased_def split: lease.splits)
  moreover have "client_ok (pd_requests x) (pd_client x) (on_way (chain_of x (px_links s c)))" "pd_end x = Ses_Open"
    if "pd_lease x = Px_Leased c" for c
    using ok that by (simp_all add: proxied_ok_def chain_inv_def)
  ultimately show "cl_printed (pd_client x) = take (length (cl_printed (pd_client x))) (pd_requests x)"
    "is_leased x \<Longrightarrow> pd_end x = Ses_Open"
    using client_ok_printed by (cases "is_leased x", auto simp: is_leased_def)
qed

text \<open>Where the sessions can wait: served to the end, refused and gone, or for a connection.\<close>

lemma px_waits:
  assumes stuck: "\<nexists>t. px_step get ret dials s t" and inv: "px_inv ok s" and x: "x \<in> set (px_sessions s)"
  shows "is_leased x \<and> cl_printed (pd_client x) = pd_requests x \<and> cl_pc (pd_client x) = Cl_Closed \<or>
    pd_lease x = Px_Refused \<and> cl_pc (pd_client x) = Cl_Closed \<or>
    pd_lease x = Px_Waiting \<and> get (px_backend s) = Get_Blocks"
proof -
  obtain i where i: "i < length (px_sessions s)" "x = px_sessions s ! i" using x by (auto simp: in_set_conv_nth)
  have ok: "proxied_ok (px_links s) x" using inv x by (simp add: px_inv_def)
  show ?thesis
  proof (cases "pd_lease x")
    case Px_Waiting
    then have "get (px_backend s) = Get_Blocks"
      using stuck px_get [OF i Px_Waiting] px_refuse [OF i Px_Waiting] by (cases "get (px_backend s)") blast+
    with Px_Waiting show ?thesis by simp
  next
    case (Px_Leased c)
    let ?ch = "chain_of x (px_links s c)"
    have "\<nexists>t. chain_step dials ?ch t" using stuck px_relay [OF i Px_Leased] by blast
    moreover have ch: "chain_inv (pd_requests x) ?ch" "\<forall>r \<in> set (pd_requests x). line_ok r"
      using ok Px_Leased by (simp_all add: proxied_ok_def)
    ultimately have c: "cl_pc (pd_client x) = Cl_Closed" using stuck_streams(3) [of dials ?ch] by simp
    moreover have "cl_printed (pd_client x) = pd_requests x"
      using ch(1) c by (simp add: chain_inv_def client_ok_def)
    ultimately show ?thesis using Px_Leased by (simp add: is_leased_def)
  next
    case Px_Refused
    have n: "\<nexists>c out inp. client_main_step (pd_client x) (pd_request x) (pd_reply x) c out inp"
      using stuck px_client [OF i] Px_Refused by blast
    moreover have "st_closed (pd_reply x)" using ok Px_Refused by (simp add: proxied_ok_def)
    ultimately have "cl_pc (pd_client x) = Cl_Closed"
      using client_waits [OF n] cl_read_err [of "pd_client x" _ "pd_reply x" "pd_request x"] by blast
    with Px_Refused show ?thesis by simp
  qed
qed

lemma px_leases_grow: "px_step get ret dials s t \<Longrightarrow> number is_leased (px_sessions s) \<le> number is_leased (px_sessions t)"
proof (induction rule: px_step.induct)
  case (px_client i s x c out inp)
  then show ?case using leased_same(2) [of i "px_sessions s" "x\<lparr>pd_client := c, pd_request := out, pd_reply := inp\<rparr>"] by simp
next
  case (px_get i s x c b)
  then show ?case using leased_new(2) [of i "px_sessions s" c] by simp
next
  case (px_refuse i s x e b)
  then show ?case
    using number_update [of i "px_sessions s" is_leased "x\<lparr>pd_lease := Px_Refused, pd_reply := (pd_reply x)\<lparr>st_closed := True\<rparr>,
      pd_request := (pd_request x)\<lparr>st_gone := True\<rparr>\<rparr>"] by simp
next
  case (px_relay i s x c ch)
  then show ?case using leased_same(2) [of i "px_sessions s" "with_chain ch x"] by simp
qed

end


section \<open>Over the pool\<close>

lemma proxy_main_parts:
  assumes "proxy_main connectorType engineType net epollCreate listen = Inr (backend, engine, net')"
  shows "backend = Pool_Backend cp \<Longrightarrow> NewConnPool ''127.0.0.1:9000'' 10 net = Some (Inr cp, net')"
    and "backend = Dial_Backend adc \<Longrightarrow> net' = net"
  using assms
  by (auto simp: proxy_main_def resolveConnector_def NewPoolConnector_def split: if_splits sum.splits option.splits)

text \<open>What \<open>Get\<close> and \<open>Return\<close> keep of the connector holds throughout; and a connector that never fails refuses nobody.\<close>

lemma px_connector:
  assumes "px_reach get ret dials b s" and "P b"
    and got: "\<And>b c b'. P b \<Longrightarrow> get b = Got c b' \<Longrightarrow> P b'" and failed: "\<And>b e b'. P b \<Longrightarrow> get b \<noteq> Get_Error e b'"
    and returned: "\<And>b c. P b \<Longrightarrow> P (ret c b)"
  shows "P (px_backend s) \<and> (\<forall>x \<in> set (px_sessions s). pd_lease x \<noteq> Px_Refused)"
  using assms(1)
proof (induction rule: px_reach.induct)
  case px_init
  show ?case using assms(2) by (simp add: px_start_def)
next
  case (px_next s t)
  then have P: "P (px_backend s)" and all: "\<forall>x \<in> set (px_sessions s). pd_lease x \<noteq> Px_Refused" by simp_all
  from px_next(2) show ?case
  proof cases
    case (px_client i x c out inp)
    have "pd_lease x \<noteq> Px_Refused" using all px_client(2,3) by simp
    then show ?thesis
      using P all_update [OF all, of "x\<lparr>pd_client := c, pd_request := out, pd_reply := inp\<rparr>"] px_client(1) by simp
  next
    case (px_get i x c b)
    then show ?thesis using got [OF P px_get(5)] all_update [OF all, of "x\<lparr>pd_lease := Px_Leased c\<rparr>"] by simp
  next
    case (px_refuse i x e b)
    then show ?thesis using failed [OF P] by simp
  next
    case (px_relay i x c ch)
    then show ?thesis using P returned [OF P] all_update [OF all, of "with_chain ch x"] by simp
  qed
next
  case (px_arrival s accepted)
  then show ?case by (auto simp: px_accept_def new_proxied_def split: sum.splits)
qed

text \<open>
  C24: The proxy with the pool and the goroutine engine serves ten clients in its life.  In every reachable state the sessions that
  have a connection hold distinct open ones, and with the connections left in the pool they are ten; a session never gives its connection back, so that
  the number of those that have one only grows; a client without one has printed nothing.  Whatever the clients send and however
  the sessions interleave, they make finitely many steps; when none can move, ten clients (or all, if there are
  fewer) have printed all their lines in order and closed, and every other client waits for a line that never comes.
\<close>

theorem pool_serves_ten:
  assumes "proxy_main connectorType engineType net epollCreate listen = Inr (Pool_Backend cp, engine, net')"
    and "net_ok net" and "px_reach pool_Get pool_Return False (cp, net') s"
  shows "number is_leased (px_sessions s) + length (ch_buf (cp_pool (fst (px_backend s)))) = 10 \<and>
    card (leased_conns (px_sessions s)) = number is_leased (px_sessions s) \<and>
    leased_conns (px_sessions s) \<subseteq> nt_open (snd (px_backend s)) \<and>
    (\<forall>t. px_step pool_Get pool_Return False s t \<longrightarrow> number is_leased (px_sessions s) \<le> number is_leased (px_sessions t)) \<and>
    (\<forall>x \<in> set (px_sessions s).
       cl_printed (pd_client x) = take (length (cl_printed (pd_client x))) (pd_requests x) \<and>
       (is_leased x \<longrightarrow> pd_end x = Ses_Open) \<and> (\<not> is_leased x \<longrightarrow> cl_printed (pd_client x) = [])) \<and>
    (\<exists>t. rtranclp (px_step pool_Get pool_Return False) s t \<and> (\<nexists>u. px_step pool_Get pool_Return False t u)) \<and>
    (\<forall>run. run 0 = s \<longrightarrow> \<not> (\<forall>i. px_step pool_Get pool_Return False (run i) (run (Suc i)))) \<and>
    ((\<nexists>t. px_step pool_Get pool_Return False s t) \<longrightarrow>
       number is_leased (px_sessions s) = min 10 (length (px_sessions s)) \<and>
       (\<forall>x \<in> set (px_sessions s). is_leased x \<longrightarrow>
          cl_printed (pd_client x) = pd_requests x \<and> cl_pc (pd_client x) = Cl_Closed))"
proof -
  have new: "NewConnPool ''127.0.0.1:9000'' 10 net = Some (Inr cp, net')" using proxy_main_parts(1) [OF assms(1)] by simp
  have ok: "pool_ok (cp, net') {}" and cap: "ch_cap (cp_pool cp) = 10" using new_pool_ok [OF new assms(2)] by simp_all
  have inv: "px_inv pool_ok s" by (rule pooled.px_reach_inv [OF assms(3) ok])
  obtain p m where b: "px_backend s = (p, m)" by fastforce
  have pool: "pool_ok (p, m) (leased_conns (px_sessions s))" using inv b by (simp add: px_inv_def)
  have never: "ch_cap (cp_pool (fst (px_backend s))) = 10 \<and> (\<forall>x \<in> set (px_sessions s). pd_lease x \<noteq> Px_Refused)"
  proof (rule px_connector [OF assms(3), where P = "\<lambda>b. ch_cap (cp_pool (fst b)) = 10"])
    show "ch_cap (cp_pool (fst b')) = 10" if "ch_cap (cp_pool (fst b)) = 10" "pool_Get b = Got c b'"
      for b c and b' :: "conn_pool \<times> network"
      using that by (cases b) (auto simp: pool_Get_Got)
  qed (simp_all add: cap pool_Get_no_error pool_Return_cap)
  then have c: "ch_cap (cp_pool p) = 10" by (simp add: b)
  have sum: "number is_leased (px_sessions s) + length (ch_buf (cp_pool p)) = 10"
    using pool c inv by (simp add: pool_ok_def px_inv_def)
  have min: "number is_leased (px_sessions s) = min 10 (length (px_sessions s))"
    if w: "\<forall>x \<in> set (px_sessions s). is_leased x \<or> pool_Get (px_backend s) = Get_Blocks"
  proof (cases "pool_Get (px_backend s) = Get_Blocks")
    case True
    then have "ch_buf (cp_pool p) = []" using b by (auto simp: pool_Get_def chan_recv_def split: list.splits if_splits)
    moreover have "number is_leased (px_sessions s) \<le> length (px_sessions s)" by (simp add: number_def)
    ultimately show ?thesis using sum by simp
  next
    case False
    then have "number is_leased (px_sessions s) = length (px_sessions s)" using w by (simp add: number_def)
    then show ?thesis using sum by simp
  qed
  have blocked: "is_leased x \<and> cl_printed (pd_client x) = pd_requests x \<and> cl_pc (pd_client x) = Cl_Closed \<or>
      \<not> is_leased x \<and> pool_Get (px_backend s) = Get_Blocks"
    if "\<nexists>t. px_step pool_Get pool_Return False s t" "x \<in> set (px_sessions s)" for x
    using pooled.px_waits [OF that(1) inv that(2)] never that(2) by auto
  note st = pooled.px_client_state [OF inv]
  show ?thesis
  proof (intro conjI impI allI ballI)
    show "number is_leased (px_sessions s) + length (ch_buf (cp_pool (fst (px_backend s)))) = 10" using sum b by simp
    show "card (leased_conns (px_sessions s)) = number is_leased (px_sessions s)" using inv by (simp add: px_inv_def)
    show "leased_conns (px_sessions s) \<subseteq> nt_open (snd (px_backend s))" using pool b by (simp add: pool_ok_def)
  next
    fix t assume "px_step pool_Get pool_Return False s t"
    then show "number is_leased (px_sessions s) \<le> number is_leased (px_sessions t)" by (rule pooled.px_leases_grow)
  next
    show "\<exists>t. rtranclp (px_step pool_Get pool_Return False) s t \<and> (\<nexists>u. px_step pool_Get pool_Return False t u)"
      by (rule pooled.px_rest(1) [OF inv])
  next
    fix run :: "nat \<Rightarrow> (conn_pool \<times> network) proxy_system"
    assume "run 0 = s"
    then show "\<not> (\<forall>i. px_step pool_Get pool_Return False (run i) (run (Suc i)))" by (rule pooled.px_rest(2) [OF inv])
  next
    assume "\<nexists>t. px_step pool_Get pool_Return False s t"
    then show "number is_leased (px_sessions s) = min 10 (length (px_sessions s))" using min blocked by blast
  qed (use st blocked in blast)+
qed

text \<open>Clients that arrive one after the other, each with the three lines of \<open>cmd/client/main.go\<close>.\<close>

definition px_crowd :: "nat \<Rightarrow> 's \<Rightarrow> 's proxy_system" where
  "px_crowd n b = (px_accept (Inr client_requests) ^^ n) (px_start b)"

lemma px_crowd_reach: "px_reach get ret dials b (px_crowd n b) \<and> length (px_sessions (px_crowd n b)) = n"
proof (induction n)
  case (Suc n)
  have "px_reach get ret dials b (px_accept (Inr client_requests) (px_crowd n b))"
    by (rule px_arrival) (use Suc client_requests_lines in auto)
  with Suc show ?case by (simp add: px_crowd_def px_accept_def)
qed (simp add: px_crowd_def px_start_def px_init [unfolded px_start_def])

lemma px_steps:
  "rtranclp (px_step get ret dials) s t \<Longrightarrow>
     length (px_sessions t) = length (px_sessions s) \<and> (px_reach get ret dials b s \<longrightarrow> px_reach get ret dials b t)"
proof (induction rule: rtranclp_induct)
  case (step t u)
  from step(2) have "length (px_sessions u) = length (px_sessions t)" by cases simp_all
  then show ?case using step px_next [of get ret dials b t u] by simp
qed simp

theorem pool_serves_ten_witness:
  "\<exists>s t. px_reach pool_Get pool_Return False s t \<and> length (px_sessions t) = 11 \<and> number is_leased (px_sessions t) = 10 \<and>
     (\<nexists>u. px_step pool_Get pool_Return False t u)"
proof -
  let ?net = "flaky_network 20"
  have "\<forall>j < nat 10. nt_outcome ?net (nt_dials ?net + j) = None" by (simp add: flaky_network_def)
  from new_pool_success [OF _ this] obtain cp net' where
    new: "NewConnPool ''127.0.0.1:9000'' 10 ?net = Some (Inr cp, net')" by simp
  then have main: "proxy_main ''pool'' ''goroutine'' ?net None None = Inr (Pool_Backend cp, Goroutine_Engine, net')"
    by (simp add: proxy_main_def resolveConnector_def NewPoolConnector_def resolveEngine_def)
  have net: "net_ok ?net" by (simp add: flaky_network_def net_ok_def)
  note c = px_crowd_reach [of pool_Get pool_Return False "(cp, net')" 11]
  note serve = pool_serves_ten [OF main net]
  have "\<exists>t. rtranclp (px_step pool_Get pool_Return False) (px_crowd 11 (cp, net')) t \<and>
      (\<nexists>u. px_step pool_Get pool_Return False t u)"
    using serve [OF c [THEN conjunct1]] by (elim conjE)
  then obtain t where t: "rtranclp (px_step pool_Get pool_Return False) (px_crowd 11 (cp, net')) t"
    "\<nexists>u. px_step pool_Get pool_Return False t u" by blast
  have r: "px_reach pool_Get pool_Return False (cp, net') t" "length (px_sessions t) = 11"
    using px_steps [OF t(1)] c by simp_all
  have "number is_leased (px_sessions t) = min 10 (length (px_sessions t))" using serve [OF r(1)] t(2) by blast
  with r t(2) show ?thesis by auto
qed

section \<open>Over the dialling connector\<close>

text \<open>
  C25: The proxy with the dialling connector serves every client whose dial succeeds.  The connections of the sessions are open and
  pairwise distinct; no client sees a line that is not its own; whatever the clients send, the sessions make finitely many
  steps, and when none can move every client has closed, with all its lines printed in order if its dial succeeded and with none if
  it failed.  No session ends, so each client served leaves an open backend connection behind.
\<close>

theorem dial_serves_all:
  assumes "proxy_main connectorType engineType net epollCreate listen = Inr (Dial_Backend adc, engine, net')"
    and "net_ok net" and "px_reach dial_Get dial_Return True (adc, net') s"
  shows "leased_conns (px_sessions s) \<subseteq> nt_open (snd (px_backend s)) \<and>
    card (leased_conns (px_sessions s)) = number is_leased (px_sessions s) \<and>
    (\<forall>x \<in> set (px_sessions s).
       cl_printed (pd_client x) = take (length (cl_printed (pd_client x))) (pd_requests x) \<and> (is_leased x \<longrightarrow> pd_end x = Ses_Open)) \<and>
    (\<exists>t. rtranclp (px_step dial_Get dial_Return True) s t \<and> (\<nexists>u. px_step dial_Get dial_Return True t u)) \<and>
    (\<forall>run. run 0 = s \<longrightarrow> \<not> (\<forall>i. px_step dial_Get dial_Return True (run i) (run (Suc i)))) \<and>
    ((\<nexists>t. px_step dial_Get dial_Return True s t) \<longrightarrow>
       (\<forall>x \<in> set (px_sessions s). cl_pc (pd_client x) = Cl_Closed \<and>
          (if is_leased x then cl_printed (pd_client x) = pd_requests x
           else cl_printed (pd_client x) = [] \<and> (\<exists>k. nt_outcome net k \<noteq> None))))"
proof -
  have ok: "dial_ok (adc, net') {}" using assms(2) proxy_main_parts(2) [OF assms(1)] by (simp add: dial_ok_def)
  have inv: "px_inv dial_ok s" by (rule dialler.px_reach_inv [OF assms(3) ok])
  have never: "\<forall>x \<in> set (px_sessions s). pd_lease x \<noteq> Px_Refused" if n: "\<forall>k. nt_outcome net k = None"
  proof -
    have "(\<forall>k. nt_outcome (snd (px_backend s)) k = None) \<and> (\<forall>x \<in> set (px_sessions s). pd_lease x \<noteq> Px_Refused)"
    proof (rule px_connector [OF assms(3), where P = "\<lambda>b :: dial_connector \<times> network. \<forall>k. nt_outcome (snd b) k = None"])
      show "\<forall>k. nt_outcome (snd (adc, net')) k = None" using n proxy_main_parts(2) [OF assms(1)] by simp
    next
      fix b b' :: "dial_connector \<times> network" and c
      assume "\<forall>k. nt_outcome (snd b) k = None" "dial_Get b = Got c b'"
      then show "\<forall>k. nt_outcome (snd b') k = None" by (cases b) (auto simp: dial_Get_Got net_Dial_Inr)
    next
      fix b b' :: "dial_connector \<times> network" and e
      assume "\<forall>k. nt_outcome (snd b) k = None"
      then show "dial_Get b \<noteq> Get_Error e b'" by (cases b) (auto simp: dial_Get_Error net_Dial_Inl)
    next
      fix b :: "dial_connector \<times> network" and c
      assume "\<forall>k. nt_outcome (snd b) k = None"
      then show "\<forall>k. nt_outcome (snd (dial_Return c b)) k = None"
        by (cases b) (simp add: dial_Return_def conn_Close_def)
    qed
    then show ?thesis by simp
  qed
  have nb: "dial_Get b \<noteq> Get_Blocks" for b by (auto simp: dial_Get_def split: prod.splits sum.splits)
  note st = dialler.px_client_state [OF inv]
  have stuck: "cl_pc (pd_client x) = Cl_Closed \<and>
      (if is_leased x then cl_printed (pd_client x) = pd_requests x
       else cl_printed (pd_client x) = [] \<and> (\<exists>k. nt_outcome net k \<noteq> None))"
    if n: "\<nexists>t. px_step dial_Get dial_Return True s t" and x: "x \<in> set (px_sessions s)" for x
  proof (cases "is_leased x")
    case True
    then show ?thesis using dialler.px_waits [OF n inv x] nb by auto
  next
    case False
    then have "pd_lease x = Px_Refused" "cl_pc (pd_client x) = Cl_Closed" using dialler.px_waits [OF n inv x] nb by auto
    moreover from this(1) have "\<exists>k. nt_outcome net k \<noteq> None" using never x by blast
    ultimately show ?thesis using False st(2) [OF x] by simp
  qed
  show ?thesis
  proof (intro conjI impI allI ballI)
    show "leased_conns (px_sessions s) \<subseteq> nt_open (snd (px_backend s))" using inv by (simp add: px_inv_def dial_ok_def)
    show "card (leased_conns (px_sessions s)) = number is_leased (px_sessions s)" using inv by (simp add: px_inv_def)
  next
    show "\<exists>t. rtranclp (px_step dial_Get dial_Return True) s t \<and> (\<nexists>u. px_step dial_Get dial_Return True t u)"
      by (rule dialler.px_rest(1) [OF inv])
  next
    fix run :: "nat \<Rightarrow> (dial_connector \<times> network) proxy_system"
    assume "run 0 = s"
    then show "\<not> (\<forall>i. px_step dial_Get dial_Return True (run i) (run (Suc i)))" by (rule dialler.px_rest(2) [OF inv])
  qed (use st stuck in blast)+
qed

theorem dial_serves_all_witness:
  "\<exists>s t. px_reach dial_Get dial_Return True s t \<and> length (px_sessions t) = 12 \<and>
     (\<forall>x \<in> set (px_sessions t). cl_pc (pd_client x) = Cl_Closed) \<and> (\<nexists>u. px_step dial_Get dial_Return True t u)"
proof -
  let ?net = "flaky_network 5" and ?adc = "NewAlwaysDialConnector ''127.0.0.1:9000''"
  have main: "proxy_main ''dial'' ''goroutine'' ?net None None = Inr (Dial_Backend ?adc, Goroutine_Engine, ?net)"
    by (simp add: proxy_main_def resolveConnector_def resolveEngine_def)
  have net: "net_ok ?net" by (simp add: flaky_network_def net_ok_def)
  note c = px_crowd_reach [of dial_Get dial_Return True "(?adc, ?net)" 12]
  note serve = dial_serves_all [OF main net]
  have "\<exists>t. rtranclp (px_step dial_Get dial_Return True) (px_crowd 12 (?adc, ?net)) t \<and>
      (\<nexists>u. px_step dial_Get dial_Return True t u)"
    using serve [OF c [THEN conjunct1]] by (elim conjE)
  then obtain t where t: "rtranclp (px_step dial_Get dial_Return True) (px_crowd 12 (?adc, ?net)) t"
    "\<nexists>u. px_step dial_Get dial_Return True t u" by blast
  have r: "px_reach dial_Get dial_Return True (?adc, ?net) t" "length (px_sessions t) = 12"
    using px_steps [OF t(1)] c by simp_all
  have "\<forall>x \<in> set (px_sessions t). cl_pc (pd_client x) = Cl_Closed" using serve [OF r(1)] t(2) by blast
  with r t(2) show ?thesis by blast
qed

end
