(* ===== verification/Go_Json.thy ===== *)
theory Go_Json
  imports Go_Utf8
begin

text \<open>
  The part of \<open>encoding/json\<close> that the log aggregator uses: writing a string (with the HTML escapes that
  \<open>json.Marshal\<close> applies) and a 64-bit integer, and reading any JSON text into a value.  The reader
  is the library's grammar with its limit on nesting; like the library it replaces invalid UTF-8
  and lone surrogates by the replacement rune.  The main lemma is that reading a written string gives
  the string back, with invalid UTF-8 replaced.
\<close>

section \<open>Writing\<close>

definition ascii :: "string \<Rightarrow> bytes" where
  "ascii s = map (\<lambda>c. of_char c) s"

abbreviation quote :: byte where "quote \<equiv> 34"
abbreviation backslash :: byte where "backslash \<equiv> 92"

definition hex_digit :: "nat \<Rightarrow> byte" where
  "hex_digit n = (if n < 10 then of_nat (48 + n) else of_nat (87 + n))"

definition unicode_escape :: "nat \<Rightarrow> bytes" where
  "unicode_escape r =
     [backslash, 117, hex_digit (r div 4096 mod 16), hex_digit (r div 256 mod 16), hex_digit (r div 16 mod 16),
      hex_digit (r mod 16)]"

definition html_safe :: "byte \<Rightarrow> bool" where
  "html_safe b \<longleftrightarrow> 32 \<le> b \<and> b \<notin> {34, 38, 60, 62, 92}"

definition escape_ascii :: "byte \<Rightarrow> bytes" where
  "escape_ascii b =
     (if html_safe b then [b]
      else if b = 34 \<or> b = 92 then [backslash, b]
      else if b = 8 then [backslash, 98]
      else if b = 12 then [backslash, 102]
      else if b = 10 then [backslash, 110]
      else if b = 13 then [backslash, 114]
      else if b = 9 then [backslash, 116]
      else unicode_escape (unat b))"

function json_chars :: "bytes \<Rightarrow> bytes" where
  "json_chars [] = []"
| "json_chars (b # bs) =
     (let (r, n) = decode_rune (b # bs) in
      (if b < 0x80 then escape_ascii b
       else if r = rune_error \<and> n = 1 \<or> r = 0x2028 \<or> r = 0x2029 then unicode_escape r
       else take n (b # bs)) @ json_chars (drop n (b # bs)))"
  by pat_completeness auto
termination
  by (relation "measure length") (auto simp: less_Suc_eq_le dest!: sym [of "(_, _)"] dest: decode_rune_shrinks)

definition json_string :: "bytes \<Rightarrow> bytes" where
  "json_string s = quote # json_chars s @ [quote]"

definition json_int :: "int \<Rightarrow> bytes" where
  "json_int n = ascii (show_int n)"

section \<open>Reading\<close>

datatype json =
    JNull
  | JBool bool
  | JNum bytes
  | JStr bytes
  | JArr "json list"
  | JObj "(bytes \<times> json) list"

definition is_ws :: "byte \<Rightarrow> bool" where
  "is_ws b \<longleftrightarrow> b \<in> {32, 9, 10, 13}"

definition skip_ws :: "bytes \<Rightarrow> bytes" where
  "skip_ws s = dropWhile is_ws s"

lemma skip_ws_length: "length (skip_ws s) \<le> length s"
  by (simp add: skip_ws_def length_dropWhile_le)

definition hex_value :: "byte \<Rightarrow> nat option" where
  "hex_value b =
     (if 48 \<le> b \<and> b \<le> 57 then Some (unat b - 48)
      else if 97 \<le> b \<and> b \<le> 102 then Some (unat b - 87)
      else if 65 \<le> b \<and> b \<le> 70 then Some (unat b - 55)
      else None)"

definition hex4 :: "bytes \<Rightarrow> nat option" where
  "hex4 s =
     (case s of
        a # b # c # d # _ \<Rightarrow>
          (case (hex_value a, hex_value b, hex_value c, hex_value d) of
             (Some w, Some x, Some y, Some z) \<Rightarrow> Some (w * 4096 + x * 256 + y * 16 + z)
           | _ \<Rightarrow> None)
      | _ \<Rightarrow> None)"

definition surrogate :: "nat \<Rightarrow> bool" where
  "surrogate r \<longleftrightarrow> 0xD800 \<le> r \<and> r < 0xE000"

text \<open>
  The rune of an escape and the number of bytes after it that it also uses: a second escape, when
  the two form a surrogate pair.
\<close>

definition escaped_rune :: "nat \<Rightarrow> bytes \<Rightarrow> nat \<times> nat" where
  "escaped_rune r rest =
     (if surrogate r then
        (case rest of
           c # u # hs \<Rightarrow>
             (case hex4 hs of
                Some r2 \<Rightarrow>
                  if c = backslash \<and> u = 117 \<and> r < 0xDC00 \<and> 0xDC00 \<le> r2 \<and> r2 < 0xE000
                  then ((r - 0xD800) * 0x400 + (r2 - 0xDC00) + 0x10000, 6) else (rune_error, 0)
              | None \<Rightarrow> (rune_error, 0))
         | _ \<Rightarrow> (rune_error, 0))
      else (r, 0))"

definition simple_escape :: "byte \<Rightarrow> byte option" where
  "simple_escape e =
     (if e = 34 \<or> e = 92 \<or> e = 47 then Some e
      else if e = 98 then Some 8 else if e = 102 then Some 12 else if e = 110 then Some 10
      else if e = 114 then Some 13 else if e = 116 then Some 9 else None)"

definition prepend :: "bytes \<Rightarrow> (bytes \<times> bytes) option \<Rightarrow> (bytes \<times> bytes) option" where
  "prepend p r = map_option (\<lambda>(s, rest). (p @ s, rest)) r"

text \<open>The contents of a string, after its opening quote, and what follows the closing one.\<close>

function read_chars :: "bytes \<Rightarrow> (bytes \<times> bytes) option" where
  "read_chars [] = None"
| "read_chars (b # bs) =
     (if b = quote then Some ([], bs)
      else if b = backslash then
        (case bs of
           [] \<Rightarrow> None
         | e # es \<Rightarrow>
             if e = 117 then
               (case hex4 es of
                  None \<Rightarrow> None
                | Some r \<Rightarrow>
                    (let (r', k) = escaped_rune r (drop 4 es)
                     in prepend (encode_rune r') (read_chars (drop (4 + k) es))))
             else (case simple_escape e of None \<Rightarrow> None | Some c \<Rightarrow> prepend [c] (read_chars es)))
      else if b < 32 then None
      else
        (let (r, n) = decode_rune (b # bs) in prepend (encode_rune r) (read_chars (drop n (b # bs)))))"
  by pat_completeness auto
termination
  by (relation "measure length") (auto simp: less_Suc_eq_le dest!: sym [of "(_, _)"] dest: decode_rune_shrinks)

definition is_digit :: "byte \<Rightarrow> bool" where
  "is_digit b \<longleftrightarrow> 48 \<le> b \<and> b \<le> 57"

definition digits :: "bytes \<Rightarrow> bytes \<times> bytes" where
  "digits s = (takeWhile is_digit s, dropWhile is_digit s)"

text \<open>A number literal: its text and the rest.\<close>

definition read_fraction :: "bytes \<Rightarrow> (bytes \<times> bytes) option" where
  "read_fraction s =
     (case s of
        b # bs \<Rightarrow>
          if b = 46 then (case digits bs of (ds, rest) \<Rightarrow> if ds = [] then None else Some (b # ds, rest))
          else Some ([], s)
      | [] \<Rightarrow> Some ([], []))"

definition read_exponent :: "bytes \<Rightarrow> (bytes \<times> bytes) option" where
  "read_exponent s =
     (case s of
        b # bs \<Rightarrow>
          if b = 101 \<or> b = 69 then
            (let (sign, bs') = (case bs of c # cs \<Rightarrow> if c = 43 \<or> c = 45 then ([c], cs) else ([], bs) | [] \<Rightarrow> ([], []));
                 (ds, rest) = digits bs'
             in if ds = [] then None else Some (b # sign @ ds, rest))
          else Some ([], s)
      | [] \<Rightarrow> Some ([], []))"

definition read_integer :: "bytes \<Rightarrow> (bytes \<times> bytes) option" where
  "read_integer s =
     (case s of
        [] \<Rightarrow> None
      | b # bs \<Rightarrow> if b = 48 then Some ([b], bs) else if is_digit b then Some (digits s) else None)"

definition read_number :: "bytes \<Rightarrow> (bytes \<times> bytes) option" where
  "read_number s =
     (let (sign, s') = (case s of b # bs \<Rightarrow> if b = 45 then ([b], bs) else ([], s) | [] \<Rightarrow> ([], [])) in
      case read_integer s' of
        None \<Rightarrow> None
      | Some (i, s1) \<Rightarrow>
          (case read_fraction s1 of
             None \<Rightarrow> None
           | Some (f, s2) \<Rightarrow>
               (case read_exponent s2 of
                  None \<Rightarrow> None
                | Some (e, s3) \<Rightarrow> Some (sign @ i @ f @ e, s3))))"

definition strip_prefix :: "bytes \<Rightarrow> bytes \<Rightarrow> bytes option" where
  "strip_prefix p s = (if take (length p) s = p then Some (drop (length p) s) else None)"

text \<open>
  Values, the elements of an array after its opening bracket or a comma, and the members of an object
  likewise.  \<open>d\<close> is how many brackets may still be opened.  The comparisons of lengths always
  hold: every value uses up input.
\<close>

function (sequential)
  read_value :: "nat \<Rightarrow> bytes \<Rightarrow> (json \<times> bytes) option"
and read_elements :: "nat \<Rightarrow> bytes \<Rightarrow> (json list \<times> bytes) option"
and read_members :: "nat \<Rightarrow> bytes \<Rightarrow> ((bytes \<times> json) list \<times> bytes) option" where
  "read_value d s =
     (case skip_ws s of
        [] \<Rightarrow> None
      | b # bs \<Rightarrow>
          if b = quote then map_option (\<lambda>(t, rest). (JStr t, rest)) (read_chars bs)
          else if b = 123 then
            (if d = 0 then None
             else (case skip_ws bs of
                     c # cs \<Rightarrow>
                       if c = 125 then Some (JObj [], cs)
                       else map_option (\<lambda>(ms, rest). (JObj ms, rest)) (read_members (d - 1) bs)
                   | [] \<Rightarrow> None))
          else if b = 91 then
            (if d = 0 then None
             else (case skip_ws bs of
                     c # cs \<Rightarrow>
                       if c = 93 then Some (JArr [], cs)
                       else map_option (\<lambda>(vs, rest). (JArr vs, rest)) (read_elements (d - 1) bs)
                   | [] \<Rightarrow> None))
          else if b = 116 then map_option (\<lambda>rest. (JBool True, rest)) (strip_prefix (ascii ''rue'') bs)
          else if b = 102 then map_option (\<lambda>rest. (JBool False, rest)) (strip_prefix (ascii ''alse'') bs)
          else if b = 110 then map_option (\<lambda>rest. (JNull, rest)) (strip_prefix (ascii ''ull'') bs)
          else map_option (\<lambda>(t, rest). (JNum t, rest)) (read_number (b # bs)))"
| "read_elements d s =
     (case read_value d s of
        None \<Rightarrow> None
      | Some (v, rest) \<Rightarrow>
          (case skip_ws rest of
             [] \<Rightarrow> None
           | b # bs \<Rightarrow>
               if b = 93 then Some ([v], bs)
               else if b = 44 \<and> length bs < length s
               then map_option (\<lambda>(vs, rest). (v # vs, rest)) (read_elements d bs)
               else None))"
| "read_members d s =
     (case skip_ws s of
        [] \<Rightarrow> None
      | q # ks \<Rightarrow>
          if q \<noteq> quote then None
          else (case read_chars ks of
                  None \<Rightarrow> None
                | Some (k, s1) \<Rightarrow>
                    (case skip_ws s1 of
                       [] \<Rightarrow> None
                     | c # s2 \<Rightarrow>
                         if c = 58 \<and> length s2 < length s then
                           (case read_value d s2 of
                              None \<Rightarrow> None
                            | Some (v, rest) \<Rightarrow>
                                (case skip_ws rest of
                                   [] \<Rightarrow> None
                                 | b # bs \<Rightarrow>
                                     if b = 125 then Some ([(k, v)], bs)
                                     else if b = 44 \<and> length bs < length s
                                     then map_option (\<lambda>(ms, rest). ((k, v) # ms, rest)) (read_members d bs)
                                     else None))
                         else None)))"
  by pat_completeness auto

termination
proof (relation "measure (\<lambda>x. case x of Inl (d, s) \<Rightarrow> 2 * length s
      | Inr (Inl (d, s)) \<Rightarrow> 2 * length s + 1 | Inr (Inr (d, s)) \<Rightarrow> 2 * length s + 1)", goal_cases)
  case (2 d s b bs)
  then show ?case using skip_ws_length [of s] by simp
next
  case (3 d s b bs)
  then show ?case using skip_ws_length [of s] by simp
qed simp_all

definition max_nesting :: nat where
  "max_nesting = 10000"

text \<open>A whole text: one value, and nothing but white space after it.\<close>

definition read_json :: "bytes \<Rightarrow> json option" where
  "read_json s =
     (case read_value max_nesting s of
        Some (v, rest) \<Rightarrow> if skip_ws rest = [] then Some v else None
      | None \<Rightarrow> None)"

section \<open>Reading uses up its input\<close>

lemma prepend_Some: "prepend p r = Some (t, rest) \<longleftrightarrow> (\<exists>u. r = Some (u, rest) \<and> t = p @ u)"
  by (cases r) (auto simp: prepend_def)

lemma read_chars_shrinks: "read_chars s = Some (t, rest) \<Longrightarrow> length rest < length s"
proof (induction s arbitrary: t rest rule: read_chars.induct)
  case 1
  then show ?case by simp
next
  case (2 b bs)
  show ?case
  proof (cases "b = quote \<or> b = backslash \<or> b < 32")
    case True
    then consider "b = quote" | "b = backslash" | "b < 32" "b \<noteq> quote" "b \<noteq> backslash" by blast
    then show ?thesis
    proof cases
      case 1
      with "2.prems" show ?thesis by simp
    next
      case bsl: 2
      then obtain e es where bs: "bs = e # es" using "2.prems" by (cases bs) auto
      show ?thesis
      proof (cases "e = 117")
        case True
        obtain r where r: "hex4 es = Some r" using "2.prems" bsl bs True by (auto split: option.splits)
        obtain r' k where k: "escaped_rune r (drop 4 es) = (r', k)" by fastforce
        obtain u where u: "read_chars (drop (4 + k) es) = Some (u, rest)"
          using "2.prems" bsl bs True r k by (auto simp: prepend_Some)
        have "length rest < length (drop (4 + k) es)"
          using "2.IH"(1) [OF _ bsl bs True r refl k [symmetric] u] bsl by simp
        then show ?thesis by (simp add: bs)
      next
        case False
        then obtain c u where c: "simple_escape e = Some c" and u: "read_chars es = Some (u, rest)"
          using "2.prems" bsl bs by (auto simp: prepend_Some split: option.splits)
        have "length rest < length es" using "2.IH"(2) [OF _ bsl bs False c u] bsl by simp
        then show ?thesis by (simp add: bs)
      qed
    next
      case 3
      with "2.prems" show ?thesis by simp
    qed
  next
    case False
    obtain r n where d: "decode_rune (b # bs) = (r, n)" by fastforce
    obtain u where u: "read_chars (drop n (b # bs)) = Some (u, rest)"
      using "2.prems" False d by (auto simp: prepend_Some)
    have "length rest < length (drop n (b # bs))"
      using "2.IH"(3) [OF _ _ _ d [symmetric] refl u] False by simp
    then show ?thesis by simp
  qed
qed


section \<open>Reading a written string\<close>

lemma hex_value_digit:
  assumes "n < 16"
  shows "hex_value (hex_digit n) = Some n"
proof (cases "n < 10")
  case True
  then have "unat (of_nat (48 + n) :: byte) = 48 + n" by (intro unat_byte) simp
  then show ?thesis
    using True by (simp del: of_nat_add of_nat_add_word add: hex_value_def hex_digit_def word_le_nat_alt)
next
  case False
  then have "unat (of_nat (87 + n) :: byte) = 87 + n" using assms by (intro unat_byte) simp
  then show ?thesis
    using False assms
    by (simp del: of_nat_add of_nat_add_word add: hex_value_def hex_digit_def word_le_nat_alt)
qed

lemma hex4_digits:
  assumes "r < 65536"
  shows "hex4 (hex_digit (r div 4096 mod 16) # hex_digit (r div 256 mod 16) # hex_digit (r div 16 mod 16)
      # hex_digit (r mod 16) # rest) = Some r"
proof -
  have "r div 4096 < 16" using assms by simp
  then have "r div 4096 mod 16 = r div 4096" by simp
  moreover have "r div 4096 * 16 + r div 256 mod 16 = r div 256"
    using div_mult_mod_eq [of "r div 256" 16] by (simp add: div_mult2_eq [symmetric])
  moreover have "r div 256 * 16 + r div 16 mod 16 = r div 16"
    using div_mult_mod_eq [of "r div 16" 16] by (simp add: div_mult2_eq [symmetric])
  moreover have "r div 16 * 16 + r mod 16 = r" by simp
  ultimately have "r div 4096 mod 16 * 4096 + r div 256 mod 16 * 256 + r div 16 mod 16 * 16 + r mod 16 = r"
    by linarith
  moreover have "hex4 (hex_digit (r div 4096 mod 16) # hex_digit (r div 256 mod 16) # hex_digit (r div 16 mod 16)
      # hex_digit (r mod 16) # rest)
    = Some (r div 4096 mod 16 * 4096 + r div 256 mod 16 * 256 + r div 16 mod 16 * 16 + r mod 16)"
    by (simp add: hex4_def hex_value_digit)
  ultimately show ?thesis by (simp only:)
qed

lemma read_unicode_escape:
  assumes "r < 65536" and "valid_rune r"
  shows "read_chars (unicode_escape r @ rest) = prepend (encode_rune r) (read_chars rest)"
proof -
  have "\<not> surrogate r" using assms(2) by (auto simp: surrogate_def valid_rune_def)
  then show ?thesis by (simp add: unicode_escape_def hex4_digits [OF assms(1)] escaped_rune_def)
qed

lemma decode_rune_take:
  assumes "decode_rune (b # bs) = (r, n)" and "\<not> (r = rune_error \<and> n = 1)"
  shows "decode_rune (take n (b # bs) @ rest) = (r, n)"
  using assms by (auto simp: decode_rune.simps(2) split: if_splits list.splits)

lemma encode_rune_ascii: "b < 0x80 \<Longrightarrow> encode_rune (unat b) = [b]"
  by (simp add: encode_rune_def word_less_nat_alt)

lemma read_escaped_ascii:
  assumes "b < 0x80"
  shows "read_chars (escape_ascii b @ rest) = prepend [b] (read_chars rest)"
proof -
  have "unat b < 0x80" using assms by (simp add: word_less_nat_alt)
  then have "unat b < 65536" and "valid_rune (unat b)" by (simp_all add: valid_rune_def)
  note esc = read_unicode_escape [OF this, of rest, unfolded encode_rune_ascii [OF assms]]
  have safe: "read_chars (b # rest) = prepend [b] (read_chars rest)" if "html_safe b"
    using that assms by (auto simp: html_safe_def encode_rune_ascii)
  show ?thesis
    using safe esc by (simp add: escape_ascii_def simple_escape_def)
qed

lemma read_raw_rune:
  assumes "\<not> b < 0x80" and "decode_rune (b # bs) = (r, n)" and "\<not> (r = rune_error \<and> n = 1)"
  shows "read_chars (take n (b # bs) @ rest) = prepend (encode_rune r) (read_chars rest)"
proof -
  have n: "1 \<le> n" "n \<le> length (b # bs)" using decode_rune_width [of "b # bs"] assms(2) by auto
  then obtain m where m: "n = Suc m" by (cases n) auto
  have "b \<noteq> quote" "b \<noteq> backslash" "\<not> b < 32" using assms(1) by (auto simp: word_less_nat_alt)
  moreover have "decode_rune (b # take m bs @ rest) = (r, n)"
    using decode_rune_take [OF assms(2,3), of rest] m by simp
  ultimately show ?thesis using n m by simp
qed

theorem read_json_chars: "read_chars (json_chars s @ quote # rest) = Some (encode_runes (runes_of s), rest)"
proof (induction s rule: decode_induct)
  case Nil
  show ?case by simp
next
  case (Cons b bs)
  obtain r n where d: "decode_rune (b # bs) = (r, n)" by fastforce
  let ?more = "json_chars (drop n (b # bs)) @ quote # rest"
  have more: "read_chars ?more = Some (encode_runes (runes_of (drop n (b # bs))), rest)"
    using Cons d by (simp only: snd_conv)
  have runes: "runes_of (b # bs) = r # runes_of (drop n (b # bs))"
    using d by (simp only: runes_of_Cons fst_conv snd_conv)
  have v: "valid_rune r" using decode_rune_valid [of "b # bs"] d by simp
  define piece where "piece = (if b < 0x80 then escape_ascii b
      else if r = rune_error \<and> n = 1 \<or> r = 0x2028 \<or> r = 0x2029 then unicode_escape r else take n (b # bs))"
  have chars: "json_chars (b # bs) = piece @ json_chars (drop n (b # bs))"
    by (simp only: json_chars.simps d Let_def prod.case piece_def)
  have "read_chars (piece @ ?more) = prepend (encode_rune r) (read_chars ?more)"
  proof (cases "b < 0x80")
    case True
    then have "r = unat b" using d by simp
    then show ?thesis
      using True read_escaped_ascii [OF True, of ?more] by (simp add: piece_def encode_rune_ascii)
  next
    case False
    show ?thesis
    proof (cases "r = rune_error \<and> n = 1 \<or> r = 0x2028 \<or> r = 0x2029")
      case True
      then have "r < 65536" by (auto simp: rune_error_def)
      then show ?thesis
        using read_unicode_escape [OF _ v, of ?more] False True by (simp add: piece_def)
    next
      case raw: False
      then have "\<not> (r = rune_error \<and> n = 1)" by (simp only: de_Morgan_disj simp_thms)
      note read = read_raw_rune [OF False d this, of ?more]
      have "piece = take n (b # bs)" by (simp only: piece_def False raw if_False)
      with read show ?thesis by (simp only:)
    qed
  qed
  then show ?case
    by (simp only: chars append_assoc more) (simp only: runes encode_runes_simps prepend_def option.map prod.case)
qed

corollary read_json_string:
  "read_value d (json_string s @ rest) = Some (JStr (encode_runes (runes_of s)), rest)"
  by (simp add: json_string_def skip_ws_def is_ws_def read_json_chars)

section \<open>Reading a written integer\<close>

definition digits_value :: "bytes \<Rightarrow> nat" where
  "digits_value = foldl (\<lambda>a b. a * 10 + (unat b - 48)) 0"

text \<open>\<open>strconv.ParseInt(s, 10, 64)\<close> on a number literal, which has no plus sign.\<close>

definition parse_int64 :: "bytes \<Rightarrow> int option" where
  "parse_int64 s =
     (let neg = (s \<noteq> [] \<and> hd s = 45); ds = (if neg then tl s else s)
      in if ds = [] \<or> \<not> list_all is_digit ds then None
         else
           (let n = (if neg then - int (digits_value ds) else int (digits_value ds))
            in if int64_range n then Some n else None))"

lemma unat_of_char: "unat (of_char c :: byte) = of_char c"
proof -
  have "unat (of_char c :: byte) = unat (of_nat (of_char c) :: byte)" by (simp only: of_nat_of_char)
  also have "\<dots> = of_char c" by (rule unat_byte) (rule nat_of_char_less_256)
  finally show ?thesis .
qed

lemma digits_value_ascii: "digits_value (ascii s) = read_nat s"
  by (simp add: digits_value_def ascii_def read_nat_def foldl_map unat_of_char)

lemma ascii_digit:
  assumes "c \<in> set (show_nat n)"
  shows "is_digit (of_char c)"
proof -
  from assms obtain d :: nat where "d < 10" and c: "c = char_of (48 + d)" using show_nat_digits by blast
  then have "unat (of_char c :: byte) = 48 + d" by (simp add: unat_of_char)
  with \<open>d < 10\<close> show ?thesis by (simp add: is_digit_def word_le_nat_alt)
qed

lemma show_nat_nonempty [simp]: "show_nat n \<noteq> []"
  by (subst show_nat.simps) simp

lemma show_nat_head: "0 < n \<Longrightarrow> hd (show_nat n) \<noteq> CHR ''0''"
proof (induction n rule: show_nat.induct)
  case (1 n)
  show ?case
  proof (cases "n < 10")
    case True
    have "char_of (48 + n) \<noteq> CHR ''0''"
    proof
      assume "char_of (48 + n) = CHR ''0''"
      then have "(of_char (char_of (48 + n) :: char) :: nat) = of_char (CHR ''0'')" by (rule arg_cong)
      with True "1.prems" show False by simp
    qed
    with True show ?thesis by (subst show_nat.simps) simp
  next
    case False
    then have "hd (show_nat (n div 10)) \<noteq> CHR ''0''" using "1.IH" by simp
    with False show ?thesis by (subst show_nat.simps) simp
  qed
qed

lemma show_nat_zero: "show_nat 0 = ''0''"
  by code_simp

definition number_ends :: "bytes \<Rightarrow> bool" where
  "number_ends rest \<longleftrightarrow> rest = [] \<or> \<not> is_digit (hd rest) \<and> hd rest \<notin> {46, 69, 101}"

lemma of_char_inj: "of_char c = (of_char d :: byte) \<Longrightarrow> c = d"
  by (metis unat_of_char of_char_eq_iff)

lemma digits_ascii:
  assumes "number_ends rest"
  shows "digits (ascii (show_nat n) @ rest) = (ascii (show_nat n), rest)"
proof -
  have "list_all is_digit (ascii (show_nat n))" by (auto simp: ascii_def list_all_iff ascii_digit)
  then have "\<forall>b \<in> set (ascii (show_nat n)). is_digit b" by (simp add: list_all_iff)
  moreover have "takeWhile is_digit rest = []" "dropWhile is_digit rest = rest"
    using assms by (cases rest; simp add: number_ends_def)+
  ultimately show ?thesis by (simp add: digits_def)
qed

lemma read_integer_ascii:
  assumes "number_ends rest"
  shows "read_integer (ascii (show_nat n) @ rest) = Some (ascii (show_nat n), rest)"
proof (cases "n = 0")
  case True
  then show ?thesis by (simp add: show_nat_zero read_integer_def ascii_def)
next
  case False
  obtain c cs where s: "show_nat n = c # cs" by (cases "show_nat n") auto
  then have "c \<noteq> CHR ''0''" using show_nat_head [of n] False by simp
  then have "(of_char c :: byte) \<noteq> 48" using of_char_inj [of c "CHR ''0''"] by auto
  moreover have "is_digit (of_char c)" using s by (intro ascii_digit [of c n]) simp
  ultimately show ?thesis
    using digits_ascii [OF assms, of n] by (simp add: s read_integer_def ascii_def)
qed

theorem read_json_int:
  assumes "number_ends rest"
  shows "read_number (json_int n @ rest) = Some (json_int n, rest)"
proof -
  have tail: "read_fraction rest = Some ([], rest)" "read_exponent rest = Some ([], rest)"
    using assms by (cases rest; auto simp: number_ends_def read_fraction_def read_exponent_def)+
  obtain c cs where s: "show_nat (nat n) = c # cs" by (cases "show_nat (nat n)") auto
  then have "c \<noteq> CHR ''-''" using minus_notin_show_nat [of "nat n"] by auto
  then have "(of_char c :: byte) \<noteq> 45" using of_char_inj [of c "CHR ''-''"] by auto
  then show ?thesis
    using read_integer_ascii [OF assms, of "nat n"] read_integer_ascii [OF assms, of "nat (- n)"] tail s
    by (simp add: json_int_def show_int_def read_number_def ascii_def)
qed

theorem parse_json_int:
  assumes "int64_range n"
  shows "parse_int64 (json_int n) = Some n"
proof -
  have all: "list_all is_digit (ascii (show_nat m))" for m
    by (auto simp: ascii_def list_all_iff ascii_digit)
  have ne: "ascii (show_nat m) \<noteq> []" for m by (simp add: ascii_def)
  have val: "digits_value (ascii (show_nat m)) = m" for m
    by (simp add: digits_value_ascii read_nat_show_nat)
  have hd: "hd (ascii (show_nat m)) \<noteq> 45" for m
  proof -
    have "is_digit (hd (ascii (show_nat m)))" using all [of m] ne [of m] by (cases "ascii (show_nat m)") auto
    then show ?thesis by (auto simp: is_digit_def)
  qed
  show ?thesis
  proof (cases "n < 0")
    case True
    then have "json_int n = 45 # ascii (show_nat (nat (- n)))"
      by (simp add: json_int_def show_int_def ascii_def)
    with True assms show ?thesis
      using all [of "nat (- n)"] ne [of "nat (- n)"] val [of "nat (- n)"] by (simp add: parse_int64_def)
  next
    case False
    then have "json_int n = ascii (show_nat (nat n))" by (simp add: json_int_def show_int_def)
    with False assms show ?thesis
      using all [of "nat n"] ne [of "nat n"] val [of "nat n"] hd [of "nat n"] by (simp add: parse_int64_def)
  qed
qed

section \<open>Written strings have no control characters\<close>

lemma hex_digit_ge: "n < 16 \<Longrightarrow> 32 \<le> hex_digit n"
proof -
  assume n: "n < 16"
  have "unat (of_nat (48 + n) :: byte) = 48 + n" "unat (of_nat (87 + n) :: byte) = 87 + n"
    using n by (intro unat_byte; simp)+
  then show ?thesis by (simp del: of_nat_add of_nat_add_word add: hex_digit_def word_le_nat_alt)
qed

lemma unicode_escape_printable: "b \<in> set (unicode_escape r) \<Longrightarrow> 32 \<le> b"
  by (auto simp: unicode_escape_def hex_digit_ge)

lemma escape_ascii_printable: "b \<in> set (escape_ascii a) \<Longrightarrow> 32 \<le> b"
  using unicode_escape_printable [of b "unat a"]
  by (auto simp: escape_ascii_def html_safe_def split: if_splits)

lemma decode_rune_multibyte:
  assumes "\<not> b < 0x80" and "decode_rune (b # bs) = (r, n)" and "\<not> (r = rune_error \<and> n = 1)"
    and "x \<in> set (take n (b # bs))"
  shows "32 \<le> x"
proof -
  have first: "32 \<le> b" using assms(1) by (simp add: word_le_nat_alt word_less_nat_alt)
  have more: "cont y \<Longrightarrow> 32 \<le> y" "accept2 b y \<Longrightarrow> 32 \<le> y" for y
    by (auto simp: cont_unat accept2_unat word_le_nat_alt split: if_splits)
  from assms show ?thesis
    by (auto simp: decode_rune.simps(2) first more split: if_splits list.splits)
qed

lemma json_chars_printable: "b \<in> set (json_chars s) \<Longrightarrow> 32 \<le> b"
proof (induction s rule: decode_induct)
  case Nil
  then show ?case by simp
next
  case (Cons c bs)
  obtain r n where d: "decode_rune (c # bs) = (r, n)" by fastforce
  have rest: "b \<in> set (json_chars (drop n (c # bs))) \<Longrightarrow> 32 \<le> b"
    using Cons.IH d by (simp only: snd_conv)
  consider (a) "c < 0x80" "b \<in> set (escape_ascii c)"
    | (u) "b \<in> set (unicode_escape r)"
    | (m) "\<not> c < 0x80" "\<not> (r = rune_error \<and> n = 1)" "b \<in> set (take n (c # bs))"
    | (more) "b \<in> set (json_chars (drop n (c # bs)))"
    using Cons.prems
    by (simp only: json_chars.simps d Let_def prod.case set_append Un_iff split: if_splits) blast+
  then show ?case
  proof cases
    case m
    show ?thesis by (rule decode_rune_multibyte [OF m(1) d m(2,3)])
  qed (simp_all only: escape_ascii_printable unicode_escape_printable rest)
qed

section \<open>Values end where they end\<close>

text \<open>
  A string, an array and an object are read the same way whatever follows them, and so is a number
  that something follows: the reader does not look past the end of a value.
\<close>

lemma hex_value_quote [simp]: "hex_value quote = None"
  by (simp add: hex_value_def)

lemma escaped_rune_closed: "escaped_rune r (pre @ quote # x) = escaped_rune r (pre @ quote # y)"
proof -
  have "hex4 (hs @ quote # x) = hex4 (hs @ quote # y)" for hs
  proof -
    consider "hs = []" | a where "hs = [a]" | a b where "hs = [a, b]" | a b c where "hs = [a, b, c]"
      | a b c d t where "hs = a # b # c # d # t"
      by (metis list.exhaust)
    then show ?thesis by cases (auto simp: hex4_def split: list.splits option.splits)
  qed
  note same = this
  consider "pre = []" | c where "pre = [c]" | c u hs where "pre = c # u # hs" by (metis list.exhaust)
  then show ?thesis
  proof cases
    case (3 c u hs)
    then show ?thesis using same [of hs] by (simp add: escaped_rune_def)
  qed (auto simp: escaped_rune_def split: list.splits option.splits)
qed

lemma hex4_Some_length: "hex4 es = Some r \<Longrightarrow> 4 \<le> length es"
  by (auto simp: hex4_def split: list.splits)

lemma hex4_Some_append: "hex4 es = Some r \<Longrightarrow> hex4 (take 4 es @ x) = Some r"
  by (auto simp: hex4_def split: list.splits option.splits)

lemma escaped_rune_six: "escaped_rune r es = (r', k) \<Longrightarrow> k = 0 \<or> k = 6 \<and> 6 \<le> length es"
  by (auto simp: escaped_rune_def dest: hex4_Some_length split: if_splits list.splits option.splits)

lemma escaped_rune_take: "escaped_rune r es = (r', 6) \<Longrightarrow> escaped_rune r (take 6 es @ x) = (r', 6)"
  by (auto simp: escaped_rune_def hex4_Some_append split: if_splits list.splits option.splits)

lemma decode_rune_quote:
  assumes "xs \<noteq> []"
  shows "decode_rune (xs @ quote # x) = decode_rune (xs @ quote # y)"
  using decode_rune_boundary [of quote xs x] decode_rune_boundary [of quote xs y] assms by simp

lemma read_chars_closed:
  assumes "read_chars s = Some (t, rest)"
  shows "\<exists>pre. s = pre @ quote # rest \<and> (\<forall>x. read_chars (pre @ quote # x) = Some (t, x))"
  using assms
proof (induction s arbitrary: t rest rule: read_chars.induct)
  case 1
  then show ?case by simp
next
  case (2 b bs)
  have "b = quote \<or> b = backslash \<or> b \<noteq> quote \<and> b \<noteq> backslash \<and> \<not> b < 32"
    using "2.prems" by (auto split: if_splits)
  then show ?case
  proof (elim disjE)
    assume "b = quote"
    with "2.prems" show ?thesis by (intro exI [of _ "[]"]) simp
  next
    assume bsl: "b = backslash"
    then obtain e es where bs: "bs = e # es" using "2.prems" by (cases bs) auto
    show ?thesis
    proof (cases "e = 117")
      case True
      obtain r where r: "hex4 es = Some r" using "2.prems" bsl bs True by (auto split: option.splits)
      obtain r' k where k: "escaped_rune r (drop 4 es) = (r', k)" by fastforce
      obtain u where u: "read_chars (drop (4 + k) es) = Some (u, rest)" and t: "t = encode_rune r' @ u"
        using "2.prems" bsl bs True r k by (auto simp: prepend_Some)
      obtain pre where pre: "drop (4 + k) es = pre @ quote # rest"
        and rd: "read_chars (pre @ quote # x) = Some (u, x)" for x
        using "2.IH"(1) [OF _ bsl bs True r refl k [symmetric] u] bsl by auto
      have len: "4 + k \<le> length es"
        using hex4_Some_length [OF r] escaped_rune_six [OF k] by auto
      have cut: "take (4 + k) es = take 4 es @ take k (drop 4 es)" by (simp add: take_add)
      have esc: "escaped_rune r (take k (drop 4 es) @ pre @ quote # x) = (r', k)" for x
        using escaped_rune_six [OF k]
      proof
        assume "k = 0"
        then show ?thesis using k pre escaped_rune_closed [of r pre x rest] by simp
      next
        assume "k = 6 \<and> 6 \<le> length (drop 4 es)"
        then show ?thesis using k escaped_rune_take [of r "drop 4 es" r' "pre @ quote # x"] by simp
      qed
      have h: "hex4 (take 4 es @ y) = Some r" for y by (rule hex4_Some_append [OF r])
      have whole: "es = take (4 + k) es @ pre @ quote # rest" using pre append_take_drop_id [of "4 + k" es] by simp
      have d4: "drop 4 (take (4 + k) es @ y) = take k (drop 4 es) @ y" for y
        using hex4_Some_length [OF r] by (simp add: cut)
      have d4k: "drop (4 + k) (take (4 + k) es @ y) = y" for y using len by simp
      have "read_chars (backslash # 117 # take (4 + k) es @ pre @ quote # x) = Some (t, x)" for x
      proof -
        have "hex4 (take (4 + k) es @ pre @ quote # x) = Some r" unfolding cut append_assoc by (rule h)
        then show ?thesis by (simp add: d4 d4k esc rd prepend_def t del: take_append drop_append)
      qed
      then show ?thesis
        using whole bsl bs True by (intro exI [of _ "backslash # 117 # take (4 + k) es @ pre"]) simp
    next
      case False
      then obtain c u where c: "simple_escape e = Some c" and u: "read_chars es = Some (u, rest)" and t: "t = c # u"
        using "2.prems" bsl bs by (auto simp: prepend_Some split: option.splits)
      obtain pre where "es = pre @ quote # rest" "read_chars (pre @ quote # x) = Some (u, x)" for x
        using "2.IH"(2) [OF _ bsl bs False c u] bsl by auto
      then show ?thesis
        using bsl bs False c t by (intro exI [of _ "b # e # pre"]) (simp add: prepend_def)
    qed
  next
    assume raw: "b \<noteq> quote \<and> b \<noteq> backslash \<and> \<not> b < 32"
    obtain r n where d: "decode_rune (b # bs) = (r, n)" by fastforce
    obtain u where u: "read_chars (drop n (b # bs)) = Some (u, rest)" and t: "t = encode_rune r @ u"
      using "2.prems" raw d by (auto simp: prepend_Some)
    obtain pre where pre: "drop n (b # bs) = pre @ quote # rest"
      and rd: "read_chars (pre @ quote # x) = Some (u, x)" for x
      using "2.IH"(3) [OF _ _ _ d [symmetric] refl u] raw by auto
    obtain m where n: "n = Suc m" using decode_rune_width_pos [of b bs] d by (cases n) auto
    have le: "n \<le> length (b # bs)" using decode_rune_width [of "b # bs"] d by simp
    have whole: "bs = take m bs @ pre @ quote # rest" using pre n append_take_drop_id [of m bs] by simp
    have "decode_rune (b # take m bs @ pre @ quote # x) = (r, n)" for x
      using decode_rune_quote [of "b # take m bs @ pre" x rest] d whole by simp
    then have "read_chars (b # take m bs @ pre @ quote # x) = Some (t, x)" for x
      using raw le n by (simp add: rd prepend_def t)
    then show ?thesis using whole by (intro exI [of _ "b # take m bs @ pre"]) simp
  qed
qed

lemma read_chars_append: "read_chars s = Some (t, rest) \<Longrightarrow> read_chars (s @ q) = Some (t, rest @ q)"
  using read_chars_closed [of s t rest] by auto

lemma digits_append: "digits s = (ds, rest) \<Longrightarrow> rest \<noteq> [] \<Longrightarrow> digits (s @ q) = (ds, rest @ q)"
  by (induction s arbitrary: ds) (auto simp: digits_def split: if_splits)

lemma read_integer_append:
  "read_integer s = Some (t, rest) \<Longrightarrow> rest \<noteq> [] \<Longrightarrow> read_integer (s @ q) = Some (t, rest @ q)"
  using digits_append [of s t rest q]
  by (cases s) (auto simp: read_integer_def split: if_splits)

lemma read_fraction_append:
  assumes "read_fraction s = Some (t, rest)" "rest \<noteq> []"
  shows "read_fraction (s @ q) = Some (t, rest @ q)"
proof (cases s)
  case (Cons b bs)
  obtain ds r where d: "digits bs = (ds, r)" by fastforce
  with assms Cons digits_append [of bs ds r q] show ?thesis
    by (auto simp: read_fraction_def split: if_splits)
qed (use assms in \<open>simp add: read_fraction_def\<close>)

lemma read_exponent_append:
  assumes "read_exponent s = Some (t, rest)" "rest \<noteq> []"
  shows "read_exponent (s @ q) = Some (t, rest @ q)"
proof (cases s)
  case (Cons b bs)
  show ?thesis
  proof (cases "b = 101 \<or> b = 69")
    case False
    then show ?thesis using assms Cons by (auto simp: read_exponent_def)
  next
    case True
    then have "bs \<noteq> []" using assms Cons by (auto simp: read_exponent_def digits_def)
    then obtain c cs where bs: "bs = c # cs" by (cases bs) auto
    obtain ds r where d: "digits (if c = 43 \<or> c = 45 then cs else c # cs) = (ds, r)" by fastforce
    have "r = rest" "ds \<noteq> []" using assms Cons True bs d by (auto simp: read_exponent_def split: if_splits)
    then have "digits (if c = 43 \<or> c = 45 then cs @ q else c # cs @ q) = (ds, rest @ q)"
      using digits_append [OF d] assms(2) by (auto split: if_splits)
    then show ?thesis
      using assms(1) Cons True bs d \<open>r = rest\<close> \<open>ds \<noteq> []\<close>
      by (auto simp: read_exponent_def split: if_splits)
  qed
qed (use assms in \<open>simp add: read_exponent_def\<close>)

lemma read_fraction_rest: "read_fraction [] = Some ([], [])" "read_exponent [] = Some ([], [])"
  by (simp_all add: read_fraction_def read_exponent_def)

lemma read_number_append:
  assumes "read_number s = Some (t, rest)" and "rest \<noteq> []"
  shows "read_number (s @ q) = Some (t, rest @ q)"
proof -
  have "s \<noteq> []" using assms by (auto simp: read_number_def read_integer_def)
  then obtain b bs where s: "s = b # bs" by (cases s) auto
  let ?s' = "if b = 45 then bs else s"
  obtain i s1 where i: "read_integer ?s' = Some (i, s1)"
    using assms(1) s by (auto simp: read_number_def split: option.splits if_splits)
  obtain f s2 where f: "read_fraction s1 = Some (f, s2)"
    using assms(1) s i by (auto simp: read_number_def split: option.splits if_splits)
  obtain e where e: "read_exponent s2 = Some (e, rest)" and t: "t = (if b = 45 then [b] else []) @ i @ f @ e"
    using assms(1) s i f by (auto simp: read_number_def split: option.splits if_splits)
  have "s2 \<noteq> []" using e assms(2) read_fraction_rest(2) by auto
  then have "s1 \<noteq> []" using f read_fraction_rest(1) by auto
  from read_integer_append [OF i this] read_fraction_append [OF f \<open>s2 \<noteq> []\<close>]
    read_exponent_append [OF e assms(2)]
  show ?thesis using s t by (auto simp: read_number_def split: if_splits)
qed

lemma skip_ws_append: "skip_ws s = b # bs \<Longrightarrow> skip_ws (s @ q) = b # bs @ q"
  by (induction s) (auto simp: skip_ws_def split: if_splits)

lemma strip_prefix_append: "strip_prefix p s = Some r \<Longrightarrow> strip_prefix p (s @ q) = Some (r @ q)"
proof -
  assume r: "strip_prefix p s = Some r"
  then have "take (length p) s = p" "r = drop (length p) s"
    by (simp_all add: strip_prefix_def split: if_splits)
  moreover from this(1) have "length p \<le> length s" by (metis length_take min.cobounded1)
  ultimately show ?thesis by (simp add: strip_prefix_def)
qed

fun is_number :: "json \<Rightarrow> bool" where
  "is_number (JNum t) = True"
| "is_number _ = False"

lemma read_value_object:
  "skip_ws s = 123 # bs \<Longrightarrow> skip_ws bs = c # cs \<Longrightarrow> 0 < d \<Longrightarrow>
     read_value d s = (if c = 125 then Some (JObj [], cs)
       else map_option (\<lambda>(ms, rest). (JObj ms, rest)) (read_members (d - 1) bs))"
  by (subst read_value.simps) (simp del: read_value.simps read_members.simps)

lemma read_value_array:
  "skip_ws s = 91 # bs \<Longrightarrow> skip_ws bs = c # cs \<Longrightarrow> 0 < d \<Longrightarrow>
     read_value d s = (if c = 93 then Some (JArr [], cs)
       else map_option (\<lambda>(vs, rest). (JArr vs, rest)) (read_elements (d - 1) bs))"
  by (subst read_value.simps) (simp del: read_value.simps read_elements.simps)

lemma read_append:
  "read_value d s = Some (v, rest) \<Longrightarrow> rest \<noteq> [] \<or> \<not> is_number v \<Longrightarrow>
     read_value d (s @ q) = Some (v, rest @ q)"
  "read_elements d s = Some (vs, rest) \<Longrightarrow> read_elements d (s @ q) = Some (vs, rest @ q)"
  "read_members d s = Some (ms, rest) \<Longrightarrow> read_members d (s @ q) = Some (ms, rest @ q)"
proof (induction d s and d s and d s arbitrary: v rest and vs rest and ms rest
    rule: read_value_read_elements_read_members.induct)
  case (1 d s)
  obtain b bs where s: "skip_ws s = b # bs" using "1.prems"(1) by (cases "skip_ws s") auto
  note sq = skip_ws_append [OF s, of q]
  show ?case
  proof (cases "b = 123 \<or> b = 91")
    case True
    then have d: "0 < d" using "1.prems"(1) s by (cases "d = 0") auto
    obtain c cs where c: "skip_ws bs = c # cs"
      using "1.prems"(1) s True d by (cases "skip_ws bs") auto
    note cq = skip_ws_append [OF c, of q]
    from True show ?thesis
    proof
      assume b: "b = 123"
      show ?thesis
        using "1.prems"(1) s [unfolded b] sq [unfolded b] c cq d "1.IH"(1) [OF s _ b _ c]
        by (auto simp: read_value_object b simp del: read_value.simps read_members.simps split: if_splits)
    next
      assume b: "b = 91"
      show ?thesis
        using "1.prems"(1) s [unfolded b] sq [unfolded b] c cq d "1.IH"(2) [OF s _ _ b _ c]
        by (auto simp: read_value_array b simp del: read_value.simps read_elements.simps split: if_splits)
    qed
  next
    case False
    then show ?thesis
      using "1.prems" s sq read_number_append [of "b # bs" _ rest q]
      by (auto simp: read_chars_append strip_prefix_append split: if_splits)
  qed
next
  case (2 d s)
  obtain v r where v: "read_value d s = Some (v, r)" using "2.prems" by (cases "read_value d s") auto
  obtain b bs where b: "skip_ws r = b # bs" using "2.prems" v by (cases "skip_ws r") auto
  then have "r \<noteq> []" by (auto simp: skip_ws_def)
  then have vq: "read_value d (s @ q) = Some (v, r @ q)" using "2.IH"(1) [OF v] by simp
  show ?case
    using "2.prems" "2.IH"(2) [OF v refl b] v b vq skip_ws_append [OF b, of q]
    by (auto split: if_splits)
next
  case (3 d s)
  obtain ks where ks: "skip_ws s = quote # ks" using "3.prems" by (cases "skip_ws s") (auto split: if_splits)
  obtain k s1 where k: "read_chars ks = Some (k, s1)" using "3.prems" ks by (auto split: option.splits)
  obtain s2 where s2: "skip_ws s1 = 58 # s2" and less: "length s2 < length s"
    using "3.prems" ks k by (cases "skip_ws s1") (auto split: if_splits)
  obtain v r where v: "read_value d s2 = Some (v, r)"
    using "3.prems" ks k s2 less by (cases "read_value d s2") auto
  obtain b bs where b: "skip_ws r = b # bs" using "3.prems" ks k s2 less v by (cases "skip_ws r") auto
  then have "r \<noteq> []" by (auto simp: skip_ws_def)
  then have vq: "read_value d (s2 @ q) = Some (v, r @ q)"
    using "3.IH"(1) [OF ks _ k refl s2 _ v] less by simp
  show ?case
    using "3.prems" "3.IH"(2) [OF ks _ k refl s2 _ v refl b] ks k s2 less v b vq
      skip_ws_append [OF ks, of q] read_chars_append [OF k, of q] skip_ws_append [OF s2, of q]
      skip_ws_append [OF b, of q]
    by (auto split: if_splits)
qed

end
