(* ===== verification/Go_Json_Object.thy ===== *)
theory Go_Json_Object
  imports Go_Json
begin

text \<open>
  What the programs that write JSON share: the text of a member of an object, what becomes of bytes that are
  not UTF-8, and the lemmas that read a written member, integer or array of written values back.
\<close>

definition member_text :: "string \<Rightarrow> bytes \<Rightarrow> bytes" where
  "member_text k w = json_string (ascii k) @ 58 # w"

definition valid_utf8 :: "bytes \<Rightarrow> bytes" where
  "valid_utf8 s = encode_runes (runes_of s)"

lemma valid_utf8_ascii: "\<forall>b \<in> set s. b < 0x80 \<Longrightarrow> valid_utf8 s = s"
  by (induction s) (simp_all add: valid_utf8_def encode_rune_ascii)

lemma valid_utf8_encode: "\<forall>r \<in> set rs. valid_rune r \<Longrightarrow> valid_utf8 (encode_runes rs) = encode_runes rs"
  by (simp add: valid_utf8_def)

lemma valid_utf8_idem: "valid_utf8 (valid_utf8 s) = valid_utf8 s"
  unfolding valid_utf8_def by (simp add: runes_of_valid)

lemma skip_ws_nonspace: "\<not> is_ws b \<Longrightarrow> skip_ws (b # bs) = b # bs"
  by (simp add: skip_ws_def)

lemma read_member:
  assumes "read_value d (w @ b # post) = Some (v, b # post)"
  shows "b = 44 \<Longrightarrow> read_members d (member_text k w @ b # post) =
      map_option (\<lambda>(ms, rest). ((valid_utf8 (ascii k), v) # ms, rest)) (read_members d post)"
    and "b = 125 \<Longrightarrow> read_members d (member_text k w @ b # post) = Some ([(valid_utf8 (ascii k), v)], post)"
proof -
  have q: "skip_ws (member_text k w @ b # post) = quote # json_chars (ascii k) @ quote # 58 # w @ b # post"
    by (simp add: member_text_def json_string_def skip_ws_nonspace is_ws_def)
  have k: "read_chars (json_chars (ascii k) @ quote # 58 # w @ b # post) =
      Some (valid_utf8 (ascii k), 58 # w @ b # post)"
    by (simp only: read_json_chars valid_utf8_def)
  have c: "skip_ws (58 # w @ b # post) = 58 # w @ b # post" by (simp add: skip_ws_nonspace is_ws_def)
  have len: "length (w @ b # post) < length (member_text k w @ b # post)"
    by (simp add: member_text_def json_string_def)
  show "b = 44 \<Longrightarrow> read_members d (member_text k w @ b # post) =
      map_option (\<lambda>(ms, rest). ((valid_utf8 (ascii k), v) # ms, rest)) (read_members d post)"
    using q k c len assms
    by (subst read_members.simps) (simp add: skip_ws_nonspace is_ws_def del: read_members.simps read_value.simps)
  show "b = 125 \<Longrightarrow> read_members d (member_text k w @ b # post) = Some ([(valid_utf8 (ascii k), v)], post)"
    using q k c len assms
    by (subst read_members.simps) (simp add: skip_ws_nonspace is_ws_def del: read_members.simps read_value.simps)
qed

lemma read_json_int_value:
  assumes "number_ends rest"
  shows "read_value d (json_int n @ rest) = Some (JNum (json_int n), rest)"
proof -
  obtain c cs where s: "show_int n = c # cs" and c: "c = CHR ''-'' \<or> is_digit (of_char c)"
  proof (cases "n < 0")
    case True
    then show ?thesis using that by (simp add: show_int_def)
  next
    case False
    obtain c cs where s: "show_nat (nat n) = c # cs" by (cases "show_nat (nat n)") auto
    then have "is_digit (of_char c)" by (intro ascii_digit [of c "nat n"]) simp
    with s False show ?thesis using that by (simp add: show_int_def)
  qed
  define b :: byte where "b = of_char c"
  have b: "b = 45 \<or> is_digit b" using c by (auto simp: b_def)
  then have "\<not> is_ws b" "b \<noteq> quote" "b \<notin> {123, 91, 116, 102, 110}"
    by (auto simp: is_ws_def is_digit_def)
  moreover have j: "json_int n = b # ascii cs" by (simp add: json_int_def s ascii_def b_def)
  ultimately show ?thesis
    using read_json_int [OF assms, of n]
    by (subst read_value.simps) (simp add: skip_ws_nonspace del: read_value.simps)
qed

lemma read_json_value:
  assumes "read_value max_nesting s = Some (v, [])" and "\<forall>b \<in> set ws. is_ws b" and "\<not> is_number v"
  shows "read_json (s @ ws) = Some v"
proof -
  have "skip_ws ws = []" using assms(2) by (simp add: skip_ws_def)
  then show ?thesis using read_append(1) [OF assms(1), of ws] assms(3) by (simp add: read_json_def)
qed

lemma max_nesting_pos [simp]: "0 < max_nesting"
  by (simp add: max_nesting_def)

lemma show_int_printable: "b \<in> set (json_int n) \<Longrightarrow> 32 \<le> b"
proof -
  have d: "(32 :: byte) \<le> of_char c" if "c \<in> set (show_nat m)" for c m
    using ascii_digit [OF that] by (auto simp: is_digit_def word_le_nat_alt)
  show "b \<in> set (json_int n) \<Longrightarrow> 32 \<le> b"
    by (auto simp: json_int_def ascii_def show_int_def d split: if_splits)
qed

lemma json_string_printable: "b \<in> set (json_string s) \<Longrightarrow> 32 \<le> b"
  by (auto simp: json_string_def json_chars_printable)

end
