(* ===== verification/Log_Model.thy ===== *)
theory Log_Model
  imports Go_Json_Object
begin

text \<open>
  \<open>log-aggregator/pkg/model/model.go\<close>: the log entry, and what \<open>json.Marshal\<close> and \<open>json.Unmarshal\<close> make of
  it through its field tags.  An entry survives the trip through JSON except for bytes that are not
  UTF-8; its text is one line; and a proper beginning of its text is never accepted.
\<close>

section \<open>The entry\<close>

record log_entry =
  Source :: bytes
  Timestamp :: int
  Level :: bytes
  Message :: bytes

definition zero_entry :: log_entry where
  "zero_entry = \<lparr>Source = [], Timestamp = 0, Level = [], Message = []\<rparr>"

definition Marshal :: "log_entry \<Rightarrow> bytes" where
  "Marshal e =
     123 # member_text ''source'' (json_string (Source e)) @
     44 # member_text ''timestamp'' (json_int (Timestamp e)) @
     44 # member_text ''level'' (json_string (Level e)) @
     44 # member_text ''message'' (json_string (Message e)) @ [125]"

text \<open>
  A key names a field when they are equal up to the case of letters; the long s folds to \<open>S\<close>.
\<close>

definition fold_rune :: "rune \<Rightarrow> rune" where
  "fold_rune r =
     (if 97 \<le> r \<and> r \<le> 122 then r - 32 else if r = 0x17F then 83 else if r = 0x212A then 75 else r)"

definition fold_name :: "bytes \<Rightarrow> rune list" where
  "fold_name k = map fold_rune (runes_of k)"

definition names_field :: "bytes \<Rightarrow> string \<Rightarrow> bool" where
  "names_field k name \<longleftrightarrow> fold_name k = fold_name (ascii name)"

definition string_field :: "json \<Rightarrow> bytes \<Rightarrow> bytes option" where
  "string_field v old = (case v of JStr t \<Rightarrow> Some t | JNull \<Rightarrow> Some old | _ \<Rightarrow> None)"

definition int_field :: "json \<Rightarrow> int \<Rightarrow> int option" where
  "int_field v old = (case v of JNum t \<Rightarrow> parse_int64 t | JNull \<Rightarrow> Some old | _ \<Rightarrow> None)"

definition store_member :: "bytes \<times> json \<Rightarrow> log_entry \<Rightarrow> log_entry option" where
  "store_member m e =
     (case m of (k, v) \<Rightarrow>
        if names_field k ''source'' then map_option (\<lambda>t. e\<lparr>Source := t\<rparr>) (string_field v (Source e))
        else if names_field k ''timestamp'' then map_option (\<lambda>n. e\<lparr>Timestamp := n\<rparr>) (int_field v (Timestamp e))
        else if names_field k ''level'' then map_option (\<lambda>t. e\<lparr>Level := t\<rparr>) (string_field v (Level e))
        else if names_field k ''message'' then map_option (\<lambda>t. e\<lparr>Message := t\<rparr>) (string_field v (Message e))
        else Some e)"

fun store_members :: "(bytes \<times> json) list \<Rightarrow> log_entry \<Rightarrow> log_entry option" where
  "store_members [] e = Some e"
| "store_members (m # ms) e =
     (case store_member m e of None \<Rightarrow> None | Some e' \<Rightarrow> store_members ms e')"

text \<open>
  \<open>None\<close> is an error of any kind.  The library goes on after a member of the wrong type and reports the
  error at the end; what it has stored by then is not used by the program.
\<close>

definition Unmarshal :: "bytes \<Rightarrow> log_entry option" where
  "Unmarshal payload =
     (case read_json payload of
        Some (JObj ms) \<Rightarrow> store_members ms zero_entry
      | Some JNull \<Rightarrow> Some zero_entry
      | _ \<Rightarrow> None)"

section \<open>The trip through JSON\<close>

definition valid_entry :: "log_entry \<Rightarrow> log_entry" where
  "valid_entry e =
     \<lparr>Source = valid_utf8 (Source e), Timestamp = Timestamp e, Level = valid_utf8 (Level e),
      Message = valid_utf8 (Message e)\<rparr>"

lemma names_fields:
  "names_field (ascii k) ''source'' \<longleftrightarrow> fold_name (ascii k) = [83, 79, 85, 82, 67, 69]"
  "names_field (ascii k) ''timestamp'' \<longleftrightarrow> fold_name (ascii k) = [84, 73, 77, 69, 83, 84, 65, 77, 80]"
  "names_field (ascii k) ''level'' \<longleftrightarrow> fold_name (ascii k) = [76, 69, 86, 69, 76]"
  "names_field (ascii k) ''message'' \<longleftrightarrow> fold_name (ascii k) = [77, 69, 83, 83, 65, 71, 69]"
  by (simp_all add: names_field_def fold_name_def ascii_def fold_rune_def)

lemma field_names:
  "fold_name (ascii ''source'') = [83, 79, 85, 82, 67, 69]"
  "fold_name (ascii ''timestamp'') = [84, 73, 77, 69, 83, 84, 65, 77, 80]"
  "fold_name (ascii ''level'') = [76, 69, 86, 69, 76]"
  "fold_name (ascii ''message'') = [77, 69, 83, 83, 65, 71, 69]"
  by (simp_all add: fold_name_def ascii_def fold_rune_def)

lemma field_names_valid:
  "valid_utf8 (ascii ''source'') = ascii ''source''" "valid_utf8 (ascii ''timestamp'') = ascii ''timestamp''"
  "valid_utf8 (ascii ''level'') = ascii ''level''" "valid_utf8 (ascii ''message'') = ascii ''message''"
  by (rule valid_utf8_ascii, simp add: ascii_def)+

definition entry_members :: "log_entry \<Rightarrow> (bytes \<times> json) list" where
  "entry_members e =
     [(ascii ''source'', JStr (valid_utf8 (Source e))), (ascii ''timestamp'', JNum (json_int (Timestamp e))),
      (ascii ''level'', JStr (valid_utf8 (Level e))), (ascii ''message'', JStr (valid_utf8 (Message e)))]"

lemma read_Marshal:
  assumes "0 < d"
  shows "read_value d (Marshal e) = Some (JObj (entry_members e), [])"
proof -
  let ?m4 = "member_text ''message'' (json_string (Message e)) @ [125]"
  let ?m3 = "member_text ''level'' (json_string (Level e)) @ 44 # ?m4"
  let ?m2 = "member_text ''timestamp'' (json_int (Timestamp e)) @ 44 # ?m3"
  let ?m1 = "member_text ''source'' (json_string (Source e)) @ 44 # ?m2"
  have s: "read_value (d - 1) (json_string t @ rest) = Some (JStr (valid_utf8 t), rest)" for t rest
    by (simp only: read_json_string valid_utf8_def)
  have n: "read_value (d - 1) (json_int m @ 44 # rest) = Some (JNum (json_int m), 44 # rest)" for m rest
    by (rule read_json_int_value) (simp add: number_ends_def is_digit_def)
  have r4: "read_members (d - 1) ?m4 = Some (drop 3 (entry_members e), [])"
    using read_member(2) [OF s [of "Message e" "[125]"], of "''message''"]
    by (simp add: field_names_valid entry_members_def del: read_members.simps)
  have r3: "read_members (d - 1) ?m3 = Some (drop 2 (entry_members e), [])"
    using read_member(1) [OF s [of "Level e" "44 # ?m4"], of "''level''"] r4
    by (simp add: field_names_valid entry_members_def del: read_members.simps)
  have r2: "read_members (d - 1) ?m2 = Some (drop 1 (entry_members e), [])"
    using read_member(1) [OF n [of "Timestamp e" "?m3"], of "''timestamp''"] r3
    by (simp add: field_names_valid entry_members_def del: read_members.simps)
  have r1: "read_members (d - 1) ?m1 = Some (entry_members e, [])"
    using read_member(1) [OF s [of "Source e" "44 # ?m2"], of "''source''"] r2
    by (simp add: field_names_valid entry_members_def del: read_members.simps)
  have "skip_ws (Marshal e) = 123 # ?m1" by (simp add: Marshal_def skip_ws_nonspace is_ws_def)
  moreover obtain cs where "skip_ws ?m1 = quote # cs"
    by (simp add: member_text_def json_string_def skip_ws_nonspace is_ws_def)
  ultimately show ?thesis using assms r1 by (simp add: read_value_object del: read_value.simps read_members.simps)
qed

lemma store_entry_members:
  "int64_range (Timestamp e) \<Longrightarrow> store_members (entry_members e) zero_entry = Some (valid_entry e)"
  by (simp add: entry_members_def store_member_def names_fields field_names string_field_def int_field_def
      parse_json_int valid_entry_def zero_entry_def)

text \<open>
  C27: An entry written with \<open>json.Marshal\<close>, followed by a newline or any other white space or by
  nothing, is read back by \<open>json.Unmarshal\<close> without an error, and it is the same entry up to bytes of its strings
  that are not UTF-8, each of which has become a replacement rune.
\<close>

theorem marshal_roundtrip:
  assumes "int64_range (Timestamp e)" and "\<forall>b \<in> set ws. is_ws b"
  shows "Unmarshal (Marshal e @ ws) = Some (valid_entry e)"
  using read_json_value [OF read_Marshal [OF max_nesting_pos] assms(2), of e] assms(1)
  by (simp add: Unmarshal_def store_entry_members)

lemma marshal_roundtrip_witness:
  "Unmarshal (Marshal \<lparr>Source = [255, 97], Timestamp = - 5, Level = [10], Message = [60, 34]\<rparr> @ [10]) =
     Some \<lparr>Source = [239, 191, 189, 97], Timestamp = - 5, Level = [10], Message = [60, 34]\<rparr>"
proof -
  let ?e = "\<lparr>Source = [255, 97], Timestamp = - 5, Level = [10], Message = [60, 34]\<rparr>"
  have v: "valid_utf8 [255, 97] = [239, 191, 189, 97]"
    by (simp add: valid_utf8_def decode_rune.simps(2) encode_rune_def rune_error_def valid_rune_def)
  have a: "valid_utf8 [10] = [10]" "valid_utf8 [60, 34] = [60, 34]" by (rule valid_utf8_ascii, simp)+
  have "int64_range (Timestamp ?e)" "\<forall>b \<in> set [10]. is_ws b" by (simp_all add: int64_range_def is_ws_def)
  from marshal_roundtrip [OF this] show ?thesis unfolding valid_entry_def by (simp add: v a)
qed

lemma unmarshal_Marshal:
  assumes "int64_range (Timestamp e)"
  shows "Unmarshal (Marshal e) = Some (valid_entry e)" "Unmarshal (Marshal e @ [nl]) = Some (valid_entry e)"
  using read_json_value [OF read_Marshal [OF max_nesting_pos], of "[]" e]
    read_json_value [OF read_Marshal [OF max_nesting_pos], of "[nl]" e] assms
  by (simp_all add: Unmarshal_def store_entry_members is_ws_def)

section \<open>One line, and nothing shorter\<close>

lemma Marshal_printable: "b \<in> set (Marshal e) \<Longrightarrow> 32 \<le> b"
  by (auto simp: Marshal_def member_text_def json_string_printable show_int_printable)

lemma Marshal_one_line: "nl \<notin> set (Marshal e)" "cr \<notin> set (Marshal e)"
  using Marshal_printable [of nl e] Marshal_printable [of cr e] by auto

lemma Marshal_nonempty: "Marshal e \<noteq> []"
  by (simp add: Marshal_def)

lemma read_value_brace:
  assumes "read_value d (123 # s) = Some (v, rest)"
  shows "\<not> is_number v"
proof (rule ccontr)
  assume "\<not> \<not> is_number v"
  then obtain t where "v = JNum t" by (cases v) auto
  with assms show False
    by (subst (asm) read_value.simps)
      (auto simp: skip_ws_nonspace is_ws_def simp del: read_value.simps read_members.simps
        split: if_splits list.splits)
qed

lemma read_json_prefix:
  assumes "read_value max_nesting s = Some (v, [])" and "s = 123 # t" and "n < length s"
  shows "read_json (take n s) = None"
proof (rule ccontr)
  assume "read_json (take n s) \<noteq> None"
  then obtain v' rest where r: "read_value max_nesting (take n s) = Some (v', rest)"
    by (auto simp: read_json_def simp del: read_value.simps split: option.splits)
  have "n \<noteq> 0"
  proof
    assume "n = 0"
    with r show False by (subst (asm) read_value.simps) (simp add: skip_ws_def)
  qed
  then obtain m where "take n s = 123 # take m t" using assms(2) by (cases n) auto
  then have "\<not> is_number v'" using read_value_brace r by metis
  then have "read_value max_nesting (take n s @ drop n s) = Some (v', rest @ drop n s)"
    using read_append(1) [OF r] by blast
  then have "rest @ drop n s = []" using assms(1) by (simp only: append_take_drop_id option.inject prod.inject)
  with assms(3) show False by simp
qed

lemma unmarshal_truncated: "n < length (Marshal e) \<Longrightarrow> Unmarshal (take n (Marshal e)) = None"
  using read_json_prefix [OF read_Marshal [OF max_nesting_pos], of e _ n]
  by (simp add: Unmarshal_def Marshal_def)

text \<open>Text with anything but white space after the entry is an error too.\<close>

lemma unmarshal_trailing:
  assumes "skip_ws s \<noteq> []"
  shows "Unmarshal (Marshal e @ s) = None"
  using read_append(1) [OF read_Marshal [OF max_nesting_pos], of e s] assms
  by (simp add: Unmarshal_def read_json_def del: read_value.simps)

end
