(* ===== verification/Log_Publisher.thy ===== *)
theory Log_Publisher
  imports Log_Model Go_Chan
begin

text \<open>
  \<open>log-aggregator/pkg/publisher/publisher.go\<close> and \<open>pkg/ipc/producer.go\<close>: the five publishers over a
  network, and the producer that runs one of them in a goroutine behind a buffered channel.  A
  connection is a state of its own kind: the bytes a stream has taken, or the messages a datagram
  socket has.  The locale \<open>connection\<close> is what \<open>write\<close> needs of it.  In \<open>prod_step\<close> the clock only shows as the choice between a
  tick and the timeout, and \<open>timed_step\<close> puts the two timers beside it; \<open>ps_ticked\<close> is a history of the entries made.
\<close>

section \<open>Connections\<close>

record stream_conn =
  sc_sent :: bytes
  sc_room :: nat

record dgram_conn =
  dg_sent :: "bytes list"
  dg_max :: nat

text \<open>
  A stream takes everything until the peer goes away; a datagram socket takes messages up to the
  system's limit.
\<close>

definition stream_put :: "bytes \<Rightarrow> stream_conn \<Rightarrow> string option \<times> stream_conn" where
  "stream_put b c =
     (if length b \<le> sc_room c then (None, c\<lparr>sc_sent := sc_sent c @ b, sc_room := sc_room c - length b\<rparr>)
      else (Some ''broken pipe'', c\<lparr>sc_sent := sc_sent c @ take (sc_room c) b, sc_room := 0\<rparr>))"

definition dgram_put :: "bytes \<Rightarrow> dgram_conn \<Rightarrow> string option \<times> dgram_conn" where
  "dgram_put b c =
     (if length b \<le> dg_max c then (None, c\<lparr>dg_sent := dg_sent c @ [b]\<rparr>) else (Some ''message too long'', c))"

record 'w network =
  nw_dial :: "string \<Rightarrow> string \<Rightarrow> string + 'w"
  nw_resolve_err :: "string \<Rightarrow> string \<Rightarrow> string option"
  nw_open_fifo :: "string \<Rightarrow> string + 'w"
  nw_put :: "bytes \<Rightarrow> 'w \<Rightarrow> string option \<times> 'w"

section \<open>Publishers\<close>

text \<open>\<open>append(b, '\n')\<close>\<close>

definition frame :: "log_entry \<Rightarrow> bytes" where
  "frame e = Marshal e @ [nl]"

text \<open>
  The loop over the channel, on the entries it delivers until it is closed.  An error of the write is
  a panic; \<open>json.Marshal\<close> has none on an entry.
\<close>

fun write_events :: "(bytes \<Rightarrow> 'w \<Rightarrow> string option \<times> 'w) \<Rightarrow> log_entry list \<Rightarrow> 'w \<Rightarrow> string option \<times> 'w" where
  "write_events put [] c = (None, c)"
| "write_events put (e # es) c =
     (case put (frame e) c of
        (Some err, c') \<Rightarrow> (Some err, c')
      | (None, c') \<Rightarrow> write_events put es c')"

datatype 'w published = Publish_Returns 'w | Publish_Panics string "'w option" | Publish_Exits string

definition after_write :: "string option \<times> 'w \<Rightarrow> 'w published" where
  "after_write r = (case r of (None, c) \<Rightarrow> Publish_Returns c | (Some e, c) \<Rightarrow> Publish_Panics e (Some c))"

record unix_socket_publisher =
  usp_socketPath :: string

record unix_datagram_socket_publisher =
  udp_socketPath :: string

record fifo_publisher =
  fp_fifoPath :: string

record tcp_socket_publisher =
  tsp_address :: string

record udp_socket_publisher =
  usp_address :: string

definition NewUnixSocketPublisher :: "string \<Rightarrow> unix_socket_publisher" where
  "NewUnixSocketPublisher socketPath = \<lparr>usp_socketPath = socketPath\<rparr>"

definition NewUnixDatagramSocketPublisher :: "string \<Rightarrow> unix_datagram_socket_publisher" where
  "NewUnixDatagramSocketPublisher socketPath = \<lparr>udp_socketPath = socketPath\<rparr>"

definition NewFIFOPublisher :: "string \<Rightarrow> fifo_publisher" where
  "NewFIFOPublisher fifoPath = \<lparr>fp_fifoPath = fifoPath\<rparr>"

definition NewTCPSocketPublisher :: "string \<Rightarrow> tcp_socket_publisher" where
  "NewTCPSocketPublisher address = \<lparr>tsp_address = address\<rparr>"

definition NewUDPSocketPublisher :: "string \<Rightarrow> udp_socket_publisher" where
  "NewUDPSocketPublisher address = \<lparr>usp_address = address\<rparr>"

definition unix_socket_Publish ::
  "'w network \<Rightarrow> unix_socket_publisher \<Rightarrow> log_entry list \<Rightarrow> 'w published" where
  "unix_socket_Publish nw u events =
     (case nw_dial nw ''unix'' (usp_socketPath u) of
        Inl err \<Rightarrow> Publish_Panics err None
      | Inr conn \<Rightarrow> after_write (write_events (nw_put nw) events conn))"

definition unix_datagram_Publish ::
  "'w network \<Rightarrow> unix_datagram_socket_publisher \<Rightarrow> log_entry list \<Rightarrow> 'w published" where
  "unix_datagram_Publish nw u events =
     (case nw_resolve_err nw ''unixgram'' (udp_socketPath u) of
        Some err \<Rightarrow> Publish_Panics err None
      | None \<Rightarrow>
          (case nw_dial nw ''unixgram'' (udp_socketPath u) of
             Inl err \<Rightarrow> Publish_Panics err None
           | Inr conn \<Rightarrow> after_write (write_events (nw_put nw) events conn)))"

definition fifo_Publish :: "'w network \<Rightarrow> fifo_publisher \<Rightarrow> log_entry list \<Rightarrow> 'w published" where
  "fifo_Publish nw f events =
     (case nw_open_fifo nw (fp_fifoPath f) of
        Inl err \<Rightarrow> Publish_Exits err
      | Inr file \<Rightarrow> after_write (write_events (nw_put nw) events file))"

definition tcp_Publish :: "'w network \<Rightarrow> tcp_socket_publisher \<Rightarrow> log_entry list \<Rightarrow> 'w published" where
  "tcp_Publish nw t events =
     (case nw_dial nw ''tcp'' (tsp_address t) of
        Inl err \<Rightarrow> Publish_Panics err None
      | Inr conn \<Rightarrow> after_write (write_events (nw_put nw) events conn))"

definition udp_Publish :: "'w network \<Rightarrow> udp_socket_publisher \<Rightarrow> log_entry list \<Rightarrow> 'w published" where
  "udp_Publish nw u events =
     (case nw_dial nw ''udp'' (usp_address u) of
        Inl err \<Rightarrow> Publish_Panics err None
      | Inr conn \<Rightarrow> after_write (write_events (nw_put nw) events conn))"

text \<open>An interface value of type \<open>Publisher\<close>.\<close>

datatype publisher =
    Unix_Socket_Publisher unix_socket_publisher
  | Unix_Datagram_Publisher unix_datagram_socket_publisher
  | Fifo_Publisher fifo_publisher
  | Tcp_Publisher tcp_socket_publisher
  | Udp_Publisher udp_socket_publisher

fun Publish :: "'w network \<Rightarrow> publisher \<Rightarrow> log_entry list \<Rightarrow> 'w published" where
  "Publish nw (Unix_Socket_Publisher p) es = unix_socket_Publish nw p es"
| "Publish nw (Unix_Datagram_Publisher p) es = unix_datagram_Publish nw p es"
| "Publish nw (Fifo_Publisher p) es = fifo_Publish nw p es"
| "Publish nw (Tcp_Publisher p) es = tcp_Publish nw p es"
| "Publish nw (Udp_Publisher p) es = udp_Publish nw p es"

text \<open>How each of them connects, before anything is written.\<close>

fun connect :: "'w network \<Rightarrow> publisher \<Rightarrow> string + 'w" where
  "connect nw (Unix_Socket_Publisher p) = nw_dial nw ''unix'' (usp_socketPath p)"
| "connect nw (Unix_Datagram_Publisher p) =
     (case nw_resolve_err nw ''unixgram'' (udp_socketPath p) of
        Some err \<Rightarrow> Inl err | None \<Rightarrow> nw_dial nw ''unixgram'' (udp_socketPath p))"
| "connect nw (Fifo_Publisher p) = nw_open_fifo nw (fp_fifoPath p)"
| "connect nw (Tcp_Publisher p) = nw_dial nw ''tcp'' (tsp_address p)"
| "connect nw (Udp_Publisher p) = nw_dial nw ''udp'' (usp_address p)"

lemma Publish_connected:
  "connect nw p = Inr c \<Longrightarrow> Publish nw p es = after_write (write_events (nw_put nw) es c)"
  by (cases p)
    (auto simp: unix_socket_Publish_def unix_datagram_Publish_def fifo_Publish_def tcp_Publish_def
      udp_Publish_def split: option.splits)

section \<open>What a connection promises\<close>

locale connection =
  fixes put :: "bytes \<Rightarrow> 'w \<Rightarrow> string option \<times> 'w"
    and sent :: "'w \<Rightarrow> 'a list"
    and unit_of :: "bytes \<Rightarrow> 'a list"
  assumes put_sent: "put b c = (None, c') \<Longrightarrow> sent c' = sent c @ unit_of b"
begin

definition sends :: "log_entry list \<Rightarrow> 'a list" where
  "sends es = concat (map (\<lambda>e. unit_of (frame e)) es)"

lemma sends_simps [simp]: "sends [] = []" "sends (e # es) = unit_of (frame e) @ sends es"
  "sends (xs @ ys) = sends xs @ sends ys"
  by (simp_all add: sends_def)

lemma write_events_sent: "write_events put es c = (None, c') \<Longrightarrow> sent c' = sent c @ sends es"
  by (induction es arbitrary: c) (auto simp: put_sent split: prod.splits option.splits)

text \<open>A write that fails stops the loop there.\<close>

lemma write_events_failed:
  "write_events put es c = (Some err, c') \<Longrightarrow>
     \<exists>pre e post c1. es = pre @ e # post \<and> sent c1 = sent c @ sends pre \<and> put (frame e) c1 = (Some err, c')"
proof (induction es arbitrary: c)
  case (Cons e es)
  show ?case
  proof (cases "put (frame e) c")
    case (Pair r c1)
    show ?thesis
    proof (cases r)
      case None
      with Cons.prems Pair obtain pre e' post c2 where
        "es = pre @ e' # post" "sent c2 = sent c1 @ sends pre" "put (frame e') c2 = (Some err, c')"
        using Cons.IH [of c1] by auto
      then show ?thesis
        using put_sent [of "frame e" c c1] Pair None
        by (intro exI [of _ "e # pre"] exI [of _ e'] exI [of _ post] exI [of _ c2]) simp
    next
      case (Some x)
      with Cons.prems Pair show ?thesis
        by (intro exI [of _ "[]"] exI [of _ e] exI [of _ es] exI [of _ c]) simp
    qed
  qed
qed simp

end

interpretation stream: connection stream_put sc_sent "\<lambda>b. b"
  by unfold_locales (auto simp: stream_put_def split: if_splits)

interpretation dgram: connection dgram_put dg_sent "\<lambda>b. [b]"
  by unfold_locales (auto simp: dgram_put_def split: if_splits)

lemma dgram_sends: "dgram.sends es = map frame es"
  by (induction es) simp_all

lemma stream_sends: "stream.sends es = concat (map (\<lambda>l. l @ [nl]) (map Marshal es))"
  by (induction es) (simp_all add: frame_def)

section \<open>The producer\<close>

definition producerBufferSize :: nat where
  "producerBufferSize = 100"

record producer =
  pr_publisher :: publisher
  pr_messageSize :: int

definition NewProducer :: "publisher \<Rightarrow> int \<Rightarrow> producer" where
  "NewProducer p messageSize = \<lparr>pr_publisher = p, pr_messageSize = messageSize\<rparr>"

text \<open>\<open>make\<close> panics for a negative size.\<close>

definition MessageOfSize :: "int \<Rightarrow> bytes option" where
  "MessageOfSize sz = (if sz < 0 then None else Some (map (\<lambda>i. 65 + of_nat (i mod 26)) [0..<nat sz]))"

definition producer_entry :: "bytes \<Rightarrow> int \<Rightarrow> log_entry" where
  "producer_entry msg t =
     \<lparr>Source = ascii ''producer'', Timestamp = t, Level = ascii ''INFO'', Message = msg\<rparr>"

datatype loop_pc = At_Select | Sending_Entry log_entry | Joining | Run_Returned

datatype publisher_pc = Connecting | Awaiting | Writing log_entry | Finished | Panicked string

record 'w prod_state =
  ps_events :: "log_entry chan"
  ps_loop :: loop_pc
  ps_pub :: publisher_pc
  ps_wg :: nat
  ps_conn :: "'w option"
  ps_ticked :: "log_entry list"

definition prod_start :: "producer \<Rightarrow> (bytes \<times> 'w prod_state) option" where
  "prod_start p =
     (case MessageOfSize (pr_messageSize p) of
        None \<Rightarrow> None
      | Some msg \<Rightarrow>
          Some (msg, \<lparr>ps_events = make_chan producerBufferSize, ps_loop = At_Select, ps_pub = Connecting,
                      ps_wg = 1, ps_conn = None, ps_ticked = []\<rparr>))"

definition prod_dead :: "'w prod_state \<Rightarrow> bool" where
  "prod_dead s \<longleftrightarrow> ps_loop s = Run_Returned \<or> (\<exists>err. ps_pub s = Panicked err)"

text \<open>
  The steps of \<open>Run\<close> and of the goroutine with \<open>Publish\<close>.  A send on a closed channel would be a panic of the
  loop; a panic of the publisher ends the program.
\<close>

inductive prod_step ::
  "'w network \<Rightarrow> publisher \<Rightarrow> bytes \<Rightarrow> 'w prod_state \<Rightarrow> 'w prod_state \<Rightarrow> bool"
  for nw p msg where
  p_tick: "\<not> prod_dead s \<Longrightarrow> ps_loop s = At_Select \<Longrightarrow> int64_range t \<Longrightarrow>
    prod_step nw p msg s (s\<lparr>ps_loop := Sending_Entry (producer_entry msg t),
      ps_ticked := ps_ticked s @ [producer_entry msg t]\<rparr>)"
| p_send: "\<not> prod_dead s \<Longrightarrow> ps_loop s = Sending_Entry e \<Longrightarrow> chan_send e (ps_events s) = Sent ev \<Longrightarrow>
    prod_step nw p msg s (s\<lparr>ps_loop := At_Select, ps_events := ev\<rparr>)"
| p_timeout: "\<not> prod_dead s \<Longrightarrow> ps_loop s = At_Select \<Longrightarrow> chan_close (ps_events s) = Some ev \<Longrightarrow>
    prod_step nw p msg s (s\<lparr>ps_loop := Joining, ps_events := ev\<rparr>)"
| p_join: "\<not> prod_dead s \<Longrightarrow> ps_loop s = Joining \<Longrightarrow> ps_wg s = 0 \<Longrightarrow>
    prod_step nw p msg s (s\<lparr>ps_loop := Run_Returned\<rparr>)"
| p_connect: "\<not> prod_dead s \<Longrightarrow> ps_pub s = Connecting \<Longrightarrow> connect nw p = Inr c \<Longrightarrow>
    prod_step nw p msg s (s\<lparr>ps_pub := Awaiting, ps_conn := Some c\<rparr>)"
| p_refused: "\<not> prod_dead s \<Longrightarrow> ps_pub s = Connecting \<Longrightarrow> connect nw p = Inl err \<Longrightarrow>
    prod_step nw p msg s (s\<lparr>ps_pub := Panicked err\<rparr>)"
| p_receive: "\<not> prod_dead s \<Longrightarrow> ps_pub s = Awaiting \<Longrightarrow> chan_recv (ps_events s) = Received e ev \<Longrightarrow>
    prod_step nw p msg s (s\<lparr>ps_pub := Writing e, ps_events := ev\<rparr>)"
| p_write: "\<not> prod_dead s \<Longrightarrow> ps_pub s = Writing e \<Longrightarrow> ps_conn s = Some c \<Longrightarrow>
    nw_put nw (frame e) c = (None, c') \<Longrightarrow> prod_step nw p msg s (s\<lparr>ps_pub := Awaiting, ps_conn := Some c'\<rparr>)"
| p_write_error: "\<not> prod_dead s \<Longrightarrow> ps_pub s = Writing e \<Longrightarrow> ps_conn s = Some c \<Longrightarrow>
    nw_put nw (frame e) c = (Some err, c') \<Longrightarrow>
    prod_step nw p msg s (s\<lparr>ps_pub := Panicked err, ps_conn := Some c'\<rparr>)"
| p_finish: "\<not> prod_dead s \<Longrightarrow> ps_pub s = Awaiting \<Longrightarrow> chan_recv (ps_events s) = Recv_Closed \<Longrightarrow>
    prod_step nw p msg s (s\<lparr>ps_pub := Finished, ps_wg := ps_wg s - 1\<rparr>)"

inductive prod_reach ::
  "'w network \<Rightarrow> publisher \<Rightarrow> bytes \<Rightarrow> 'w prod_state \<Rightarrow> 'w prod_state \<Rightarrow> bool"
  for nw p msg s0 where
  prod_refl: "prod_reach nw p msg s0 s0"
| prod_more: "prod_reach nw p msg s0 s \<Longrightarrow> prod_step nw p msg s s' \<Longrightarrow> prod_reach nw p msg s0 s'"

definition in_loop :: "'w prod_state \<Rightarrow> log_entry list" where
  "in_loop s = (case ps_loop s of Sending_Entry e \<Rightarrow> [e] | _ \<Rightarrow> [])"

definition in_publisher :: "'w prod_state \<Rightarrow> log_entry list" where
  "in_publisher s = (case ps_pub s of Writing e \<Rightarrow> [e] | _ \<Rightarrow> [])"

text \<open>
  While nothing has failed: what the connection has, what is on its way and what is still to be sent make
  up what was ticked, in order; the channel is closed exactly when the loop has left; and the publisher
  finishes only after that.
\<close>

context connection
begin

definition prod_ok :: "'w network \<Rightarrow> publisher \<Rightarrow> bytes \<Rightarrow> 'w prod_state \<Rightarrow> bool" where
  "prod_ok nw p msg s \<longleftrightarrow>
     chan_ok (ps_events s) \<and> ch_cap (ps_events s) = producerBufferSize \<and>
     (\<forall>e \<in> set (ps_ticked s). \<exists>t. int64_range t \<and> e = producer_entry msg t) \<and>
     (ch_closed (ps_events s) \<longleftrightarrow> ps_loop s \<in> {Joining, Run_Returned}) \<and>
     ps_wg s = (if ps_pub s = Finished then 0 else 1) \<and>
     (ps_pub s = Finished \<longrightarrow> ch_closed (ps_events s) \<and> ch_buf (ps_events s) = []) \<and>
     (ps_loop s = Run_Returned \<longrightarrow> ps_pub s = Finished) \<and>
     (ps_pub s = Connecting \<longrightarrow> ps_conn s = None \<and> ps_ticked s = ch_buf (ps_events s) @ in_loop s) \<and>
     (ps_pub s = Awaiting \<or> ps_pub s = Finished \<or> (\<exists>e. ps_pub s = Writing e) \<longrightarrow>
        (\<exists>c c0 ws. connect nw p = Inr c0 \<and> ps_conn s = Some c \<and> sent c = sent c0 @ sends ws \<and>
           ps_ticked s = ws @ in_publisher s @ ch_buf (ps_events s) @ in_loop s))"

lemma prod_start_ok:
  "prod_start pr = Some (msg, s) \<Longrightarrow> prod_ok nw (pr_publisher pr) msg s"
  by (auto simp: prod_start_def prod_ok_def make_chan_def chan_ok_def in_loop_def split: option.splits)

lemma prod_step_ok:
  assumes "nw_put nw = put" and "prod_step nw p msg s s'" and "prod_ok nw p msg s"
  shows "prod_ok nw p msg s'"
  using assms(2,3)
proof cases
  case (p_tick t)
  then show ?thesis
    using assms(3) by (auto simp: prod_ok_def in_loop_def in_publisher_def prod_dead_def)
next
  case (p_send e ev)
  then show ?thesis
    using assms(3) by (auto simp: prod_ok_def in_loop_def in_publisher_def prod_dead_def chan_iffs chan_ok_def)
next
  case (p_timeout ev)
  then show ?thesis
    using assms(3) by (auto simp: prod_ok_def in_loop_def in_publisher_def prod_dead_def chan_iffs chan_ok_def)
next
  case p_join
  then show ?thesis
    using assms(3) by (auto simp: prod_ok_def in_loop_def in_publisher_def prod_dead_def split: if_splits)
next
  case (p_connect c)
  then show ?thesis
    using assms(3)
    by (auto simp: prod_ok_def in_loop_def in_publisher_def prod_dead_def intro!: exI [of _ "[]"])
next
  case (p_refused err)
  then show ?thesis using assms(3) by (auto simp: prod_ok_def in_loop_def in_publisher_def prod_dead_def)
next
  case (p_receive e ev)
  then show ?thesis
    using assms(3) by (auto simp: prod_ok_def in_loop_def in_publisher_def prod_dead_def chan_iffs chan_ok_def)
next
  case (p_write e c c')
  then have "sent c' = sent c @ unit_of (frame e)" using put_sent assms(1) by metis
  moreover obtain c0 ws where "connect nw p = Inr c0" "sent c = sent c0 @ sends ws"
    "ps_ticked s = ws @ [e] @ ch_buf (ps_events s) @ in_loop s"
    using assms(3) p_write by (auto simp: prod_ok_def in_publisher_def)
  ultimately show ?thesis
    using p_write assms(3)
    by (auto simp: prod_ok_def in_loop_def in_publisher_def prod_dead_def intro!: exI [of _ "ws @ [e]"])
next
  case (p_write_error e c err c')
  then show ?thesis using assms(3) by (auto simp: prod_ok_def in_loop_def in_publisher_def prod_dead_def)
next
  case p_finish
  then show ?thesis
    using assms(3) by (auto simp: prod_ok_def in_loop_def in_publisher_def prod_dead_def chan_iffs)
qed

lemma prod_reach_ok:
  "prod_reach nw p msg s0 s \<Longrightarrow> nw_put nw = put \<Longrightarrow> prod_ok nw p msg s0 \<Longrightarrow> prod_ok nw p msg s"
  by (induction rule: prod_reach.induct) (auto intro: prod_step_ok)

lemma prod_returned:
  assumes "prod_ok nw p msg s" and "ps_loop s = Run_Returned"
  shows "\<exists>c c0. connect nw p = Inr c0 \<and> ps_conn s = Some c \<and> sent c = sent c0 @ sends (ps_ticked s)"
  using assms by (auto simp: prod_ok_def in_loop_def in_publisher_def)

end

section \<open>The producer's clock\<close>

text \<open>
  \<open>Run\<close> under its two timers, in milliseconds: the ticker's channel holds one tick, so that a tick the loop is late for replaces
  none; the timeout stays ready once it has fired.  When both are ready \<open>select\<close> takes either.
\<close>

definition frequency :: nat where
  "frequency = 10"

definition duration :: nat where
  "duration = 5 * 1000"

definition tick_interval :: nat where
  "tick_interval = 1000 div frequency"

record 'w timed_producer =
  tp_state :: "'w prod_state"
  tp_now :: nat
  tp_pending :: bool

definition timed_start :: "'w prod_state \<Rightarrow> 'w timed_producer" where
  "timed_start s0 = \<lparr>tp_state = s0, tp_now = 0, tp_pending = False\<rparr>"

inductive timed_step :: "'w network \<Rightarrow> publisher \<Rightarrow> bytes \<Rightarrow> 'w timed_producer \<Rightarrow> 'w timed_producer \<Rightarrow> bool"
  for nw p msg where
  tm_clock: "timed_step nw p msg x (x\<lparr>tp_now := Suc (tp_now x),
    tp_pending := (tp_pending x \<or> Suc (tp_now x) mod tick_interval = 0)\<rparr>)"
| tm_tick: "tp_pending x \<Longrightarrow> ps_loop (tp_state x) = At_Select \<Longrightarrow> prod_step nw p msg (tp_state x) s \<Longrightarrow>
    ps_loop s = Sending_Entry e \<Longrightarrow> timed_step nw p msg x (x\<lparr>tp_state := s, tp_pending := False\<rparr>)"
| tm_timeout: "duration \<le> tp_now x \<Longrightarrow> ps_loop (tp_state x) = At_Select \<Longrightarrow> prod_step nw p msg (tp_state x) s \<Longrightarrow>
    ps_loop s = Joining \<Longrightarrow> timed_step nw p msg x (x\<lparr>tp_state := s\<rparr>)"
| tm_other: "prod_step nw p msg (tp_state x) s \<Longrightarrow> ps_loop (tp_state x) \<noteq> At_Select \<or> ps_loop s = At_Select \<Longrightarrow>
    timed_step nw p msg x (x\<lparr>tp_state := s\<rparr>)"

inductive timed_reach :: "'w network \<Rightarrow> publisher \<Rightarrow> bytes \<Rightarrow> 'w prod_state \<Rightarrow> 'w timed_producer \<Rightarrow> bool"
  for nw p msg s0 where
  tm_init: "timed_reach nw p msg s0 (timed_start s0)"
| tm_more: "timed_reach nw p msg s0 x \<Longrightarrow> timed_step nw p msg x y \<Longrightarrow> timed_reach nw p msg s0 y"

text \<open>The clock restricts the order of the steps, and nothing else: the states are those of the program without it.\<close>

lemma timed_prod: "timed_reach nw p msg s0 x \<Longrightarrow> prod_reach nw p msg s0 (tp_state x)"
proof (induction rule: timed_reach.induct)
  case (tm_more x y)
  from tm_more(2) show ?case by cases (use tm_more(3) in \<open>auto intro: prod_more\<close>)
qed (simp add: timed_start_def prod_refl)

lemma timed_later:
  assumes "timed_reach nw p msg s0 x"
  shows "\<exists>y. timed_reach nw p msg s0 y \<and> tp_state y = tp_state x \<and> tp_now y = tp_now x + n \<and>
    (tp_pending x \<or> (\<exists>m \<in> {tp_now x<..tp_now x + n}. m mod tick_interval = 0) \<longrightarrow> tp_pending y)"
proof (induction n)
  case 0
  with assms show ?case by (intro exI [of _ x]) simp
next
  case (Suc n)
  then obtain y where y: "timed_reach nw p msg s0 y" "tp_state y = tp_state x" "tp_now y = tp_now x + n"
    "tp_pending x \<or> (\<exists>m \<in> {tp_now x<..tp_now x + n}. m mod tick_interval = 0) \<longrightarrow> tp_pending y" by blast
  let ?z = "y\<lparr>tp_now := Suc (tp_now y), tp_pending := (tp_pending y \<or> Suc (tp_now y) mod tick_interval = 0)\<rparr>"
  have "timed_reach nw p msg s0 ?z" by (rule tm_more [OF y(1) tm_clock])
  moreover have "tp_pending ?z" if "tp_pending x \<or> (\<exists>m \<in> {tp_now x<..tp_now x + Suc n}. m mod tick_interval = 0)"
    using that
  proof (elim disjE bexE)
    fix m assume m: "m \<in> {tp_now x<..tp_now x + Suc n}" "m mod tick_interval = 0"
    show "tp_pending ?z"
    proof (cases "m \<le> tp_now x + n")
      case True
      with m have "\<exists>m \<in> {tp_now x<..tp_now x + n}. m mod tick_interval = 0" by (intro bexI [of _ m]) simp_all
      with y(4) show ?thesis by simp
    next
      case False
      with m(1) y(3) have "m = Suc (tp_now y)" by simp
      with m(2) show ?thesis by simp
    qed
  qed (use y(4) in simp)
  ultimately show ?case using y(2,3) by (intro exI [of _ ?z]) simp
qed

lemma timed_ready:
  assumes "timed_reach nw p msg s0 x"
  obtains y where "timed_reach nw p msg s0 y" and "tp_state y = tp_state x" and "tp_pending y" and "duration \<le> tp_now y"
proof -
  obtain y where y: "timed_reach nw p msg s0 y" "tp_state y = tp_state x" "tp_now y = tp_now x + 5000"
    "(\<exists>m \<in> {tp_now x<..tp_now x + 5000}. m mod tick_interval = 0) \<longrightarrow> tp_pending y"
    using timed_later [OF assms, of 5000] by blast
  have "\<exists>m \<in> {tp_now x<..tp_now x + 5000}. m mod tick_interval = 0"
  proof (rule bexI)
    show "100 * (tp_now x div 100 + 1) mod tick_interval = 0" by (simp add: tick_interval_def frequency_def)
    show "100 * (tp_now x div 100 + 1) \<in> {tp_now x<..tp_now x + 5000}"
      unfolding greaterThanAtMost_iff
    proof
      show "tp_now x < 100 * (tp_now x div 100 + 1)"
        using dividend_less_times_div [of 100 "tp_now x"] by (simp add: distrib_left add.commute)
      show "100 * (tp_now x div 100 + 1) \<le> tp_now x + 5000"
        using times_div_less_eq_dividend [of 100 "tp_now x"] by (simp add: distrib_left)
    qed
  qed
  with y(4) have "tp_pending y" by (rule mp)
  with y that show ?thesis by (simp add: duration_def)
qed

lemma prod_timed:
  "prod_reach nw p msg s0 s \<Longrightarrow> \<exists>x. timed_reach nw p msg s0 x \<and> tp_state x = s"
proof (induction rule: prod_reach.induct)
  case prod_refl
  show ?case by (rule exI, rule conjI, rule tm_init) (simp add: timed_start_def)
next
  case (prod_more s s')
  then obtain x where "timed_reach nw p msg s0 x" "tp_state x = s" by blast
  then obtain y where y: "timed_reach nw p msg s0 y" "tp_state y = s" "tp_pending y" "duration \<le> tp_now y"
    using timed_ready by metis
  have st: "prod_step nw p msg (tp_state y) s'" using prod_more(2) y(2) by simp
  have "\<exists>z. timed_step nw p msg y z \<and> tp_state z = s'"
  proof (cases "ps_loop (tp_state y) = At_Select \<and> ps_loop s' \<noteq> At_Select")
    case False
    show ?thesis by (rule exI, rule conjI, rule tm_other [OF st]) (use False in auto)
  next
    case True
    from st True have "ps_loop s' = Joining \<or> (\<exists>e. ps_loop s' = Sending_Entry e)" by cases auto
    then show ?thesis
    proof (elim disjE exE)
      assume "ps_loop s' = Joining"
      from tm_timeout [OF y(4) _ st this] True show ?thesis by (intro exI conjI) auto
    next
      fix e assume "ps_loop s' = Sending_Entry e"
      from tm_tick [OF y(3) _ st this] True show ?thesis by (intro exI conjI) auto
    qed
  qed
  then show ?case using tm_more [OF y(1)] by blast
qed

text \<open>At most one tick has been taken for every interval that has passed.\<close>

lemma timed_ticks:
  "timed_reach nw p msg s0 x \<Longrightarrow> ps_ticked s0 = [] \<Longrightarrow>
     length (ps_ticked (tp_state x)) + (if tp_pending x then 1 else 0) \<le> tp_now x div tick_interval"
proof (induction rule: timed_reach.induct)
  case (tm_more x y)
  have same: "ps_ticked s' = ps_ticked s" if "prod_step nw p msg s s'" "ps_loop s \<noteq> At_Select \<or> ps_loop s' \<in> {At_Select, Joining}" for s s'
    using that by cases auto
  from tm_more(2) show ?case
  proof cases
    case tm_clock
    have "Suc (tp_now x) div tick_interval = tp_now x div tick_interval + (if Suc (tp_now x) mod tick_interval = 0 then 1 else 0)"
      by (simp add: div_Suc)
    then show ?thesis using tm_more(3,4) tm_clock by (auto split: if_splits)
  next
    case (tm_tick s e)
    from tm_tick(4,3,5) have "length (ps_ticked s) = Suc (length (ps_ticked (tp_state x)))" by cases auto
    then show ?thesis using tm_more(3,4) tm_tick by simp
  next
    case (tm_timeout s)
    then have "ps_ticked s = ps_ticked (tp_state x)" using same [OF tm_timeout(4)] by simp
    then show ?thesis using tm_more(3,4) tm_timeout(1) by simp
  next
    case (tm_other s)
    then have "ps_ticked s = ps_ticked (tp_state x)" using same [OF tm_other(2)] by blast
    then show ?thesis using tm_more(3,4) tm_other(1) by simp
  qed
qed (simp add: timed_start_def)

section \<open>Properties of the producer\<close>

text \<open>
  C28: A producer over a stream, under its timers, as long as its publisher has not panicked (a panic ends the process).  It has taken at most one tick for every 100 ms, so that for the first ten seconds its
  channel of 100 entries has room and the loop never blocks, however slow the connection is; it never sends on the
  closed channel; once the five seconds are over the loop can leave whenever it selects.  And when \<open>Run\<close> returns, the connection has received, in
  order and without anything else, one line for every tick.
\<close>

theorem producer_run_complete:
  assumes "prod_start (NewProducer p n) = Some (msg, s0)" and "nw_put nw = stream_put"
    and "timed_reach nw p msg s0 x" and "\<forall>err. ps_pub (tp_state x) \<noteq> Panicked err"
  shows "length (ps_ticked (tp_state x)) \<le> tp_now x div 100 \<and>
    (\<forall>e. ps_loop (tp_state x) = Sending_Entry e \<longrightarrow> chan_send e (ps_events (tp_state x)) \<noteq> Send_Panics \<and>
       (tp_now x < 10100 \<longrightarrow> (\<exists>ev. chan_send e (ps_events (tp_state x)) = Sent ev))) \<and>
    (5000 \<le> tp_now x \<and> ps_loop (tp_state x) = At_Select \<longrightarrow>
       (\<exists>y. timed_step nw p msg x y \<and> ps_loop (tp_state y) = Joining)) \<and>
    (ps_loop (tp_state x) = Run_Returned \<longrightarrow>
       (\<exists>c c0. connect nw p = Inr c0 \<and> ps_conn (tp_state x) = Some c \<and>
          sc_sent c = sc_sent c0 @ concat (map (\<lambda>l. l @ [nl]) (map Marshal (ps_ticked (tp_state x)))) \<and>
          (\<forall>e \<in> set (ps_ticked (tp_state x)). \<exists>t. int64_range t \<and> e = producer_entry msg t)))"
proof -
  let ?s = "tp_state x"
  have "stream.prod_ok nw p msg s0"
    using stream.prod_start_ok [OF assms(1)] by (simp add: NewProducer_def)
  then have ok: "stream.prod_ok nw p msg ?s" by (rule stream.prod_reach_ok [OF timed_prod [OF assms(3)] assms(2)])
  have "ps_ticked s0 = []" using assms(1) by (auto simp: prod_start_def split: option.splits)
  then have ticks: "length (ps_ticked ?s) \<le> tp_now x div 100"
    using timed_ticks [OF assms(3)] by (simp add: tick_interval_def frequency_def split: if_splits)
  have send: "chan_send e (ps_events ?s) \<noteq> Send_Panics \<and> (tp_now x < 10100 \<longrightarrow> (\<exists>ev. chan_send e (ps_events ?s) = Sent ev))"
    if l: "ps_loop ?s = Sending_Entry e" for e
  proof -
    have open_: "\<not> ch_closed (ps_events ?s)" "ch_cap (ps_events ?s) = 100"
      using ok l by (auto simp: stream.prod_ok_def producerBufferSize_def)
    have "length (ch_buf (ps_events ?s)) < length (ps_ticked ?s)"
      using ok l assms(4) by (cases "ps_pub ?s") (auto simp: stream.prod_ok_def in_loop_def)
    then have "length (ch_buf (ps_events ?s)) < 100" if "tp_now x < 10100" using ticks that by linarith
    with open_ show ?thesis by (auto simp: chan_send_def)
  qed
  have leave: "\<exists>y. timed_step nw p msg x y \<and> ps_loop (tp_state y) = Joining"
    if t: "5000 \<le> tp_now x" and l: "ps_loop ?s = At_Select"
  proof -
    have "\<not> ch_closed (ps_events ?s)" using ok l by (simp add: stream.prod_ok_def)
    then obtain ev where ev: "chan_close (ps_events ?s) = Some ev" by (simp add: chan_close_def)
    have "\<not> prod_dead ?s" using l assms(4) by (simp add: prod_dead_def)
    from tm_timeout [OF _ l p_timeout [OF this l ev]] t show ?thesis by (intro exI conjI) (auto simp: duration_def)
  qed
  have "\<forall>e \<in> set (ps_ticked ?s). \<exists>t. int64_range t \<and> e = producer_entry msg t"
    using ok by (simp add: stream.prod_ok_def)
  moreover have "ps_loop ?s = Run_Returned \<Longrightarrow> \<exists>c c0. connect nw p = Inr c0 \<and> ps_conn ?s = Some c \<and>
      sc_sent c = sc_sent c0 @ concat (map (\<lambda>l. l @ [nl]) (map Marshal (ps_ticked ?s)))"
    using stream.prod_returned [OF ok] by (simp add: stream_sends)
  ultimately show ?thesis using ticks send leave by blast
qed

definition demo_network :: "stream_conn network" where
  "demo_network =
     \<lparr>nw_dial = (\<lambda>_ _. Inr \<lparr>sc_sent = [], sc_room = 1000\<rparr>), nw_resolve_err = (\<lambda>_ _. None),
      nw_open_fifo = (\<lambda>_. Inr \<lparr>sc_sent = [], sc_room = 1000\<rparr>), nw_put = stream_put\<rparr>"

definition demo_publisher :: publisher where
  "demo_publisher = Unix_Socket_Publisher (NewUnixSocketPublisher ''/tmp/log.sock'')"

lemma demo_frame_length: "length (frame (producer_entry [65, 66] 7)) = 66"
  by code_simp

text \<open>A run with one tick.\<close>

lemma one_tick_run:
  fixes nw :: "'w network"
  assumes conn: "connect nw p = Inr c0" and put: "nw_put nw (frame (producer_entry [65, 66] 7)) c0 = (None, c1)"
  obtains s0 s where "prod_start (NewProducer p 2) = Some ([65, 66], s0)"
    and "prod_reach nw p [65, 66] s0 s" and "ps_loop s = Run_Returned"
    and "ps_ticked s = [producer_entry [65, 66] 7]" and "ps_conn s = Some c1"
proof -
  let ?e = "producer_entry [65, 66] 7"
  define s0 :: "'w prod_state" where "s0 = \<lparr>ps_events = make_chan producerBufferSize,
    ps_loop = At_Select, ps_pub = Connecting, ps_wg = 1, ps_conn = None, ps_ticked = []\<rparr>"
  define s1 where "s1 = s0\<lparr>ps_pub := Awaiting, ps_conn := Some c0\<rparr>"
  define s2 where "s2 = s1\<lparr>ps_loop := Sending_Entry ?e, ps_ticked := ps_ticked s1 @ [?e]\<rparr>"
  define s3 where "s3 = s2\<lparr>ps_loop := At_Select, ps_events := (ps_events s2)\<lparr>ch_buf := [?e]\<rparr>\<rparr>"
  define s4 where "s4 = s3\<lparr>ps_pub := Writing ?e, ps_events := (ps_events s3)\<lparr>ch_buf := []\<rparr>\<rparr>"
  define s5 where "s5 = s4\<lparr>ps_pub := Awaiting, ps_conn := Some c1\<rparr>"
  define s6 where "s6 = s5\<lparr>ps_loop := Joining, ps_events := (ps_events s5)\<lparr>ch_closed := True\<rparr>\<rparr>"
  define s7 where "s7 = s6\<lparr>ps_pub := Finished, ps_wg := ps_wg s6 - 1\<rparr>"
  define s8 where "s8 = s7\<lparr>ps_loop := Run_Returned\<rparr>"
  note defs = s0_def s1_def s2_def s3_def s4_def s5_def s6_def s7_def s8_def
  note unf = defs prod_dead_def make_chan_def producerBufferSize_def chan_iffs
  have st1: "prod_step nw p [65, 66] s0 s1"
    unfolding s1_def by (rule p_connect [OF _ _ conn]) (simp_all add: unf)
  have st2: "prod_step nw p [65, 66] s1 s2"
    unfolding s2_def by (rule p_tick) (simp_all add: unf int64_range_def)
  have st3: "prod_step nw p [65, 66] s2 s3"
    unfolding s3_def by (rule p_send [of s2 ?e]) (simp_all add: unf)
  have st4: "prod_step nw p [65, 66] s3 s4"
    unfolding s4_def by (rule p_receive) (simp_all add: unf)
  have st5: "prod_step nw p [65, 66] s4 s5"
    unfolding s5_def by (rule p_write [of s4 ?e c0]) (simp_all add: unf put)
  have st6: "prod_step nw p [65, 66] s5 s6"
    unfolding s6_def by (rule p_timeout) (simp_all add: unf)
  have st7: "prod_step nw p [65, 66] s6 s7"
    unfolding s7_def by (rule p_finish) (simp_all add: unf)
  have st8: "prod_step nw p [65, 66] s7 s8"
    unfolding s8_def by (rule p_join) (simp_all add: unf)
  have reach: "prod_reach nw p [65, 66] s0 s8"
    by (rule prod_more [OF prod_more [OF prod_more [OF prod_more [OF prod_more [OF prod_more [OF prod_more
          [OF prod_more [OF prod_refl st1] st2] st3] st4] st5] st6] st7] st8])
  have start: "prod_start (NewProducer p 2) = Some ([65, 66], s0)"
    by (simp add: prod_start_def NewProducer_def MessageOfSize_def s0_def upt_rec)
  show ?thesis by (rule that [OF start reach]) (simp_all add: defs)
qed

lemma demo_put: "nw_put demo_network = stream_put"
  by (simp add: demo_network_def)

lemma demo_connect: "connect demo_network demo_publisher = Inr \<lparr>sc_sent = [], sc_room = 1000\<rparr>"
  by (simp add: demo_network_def demo_publisher_def NewUnixSocketPublisher_def)

lemma demo_producer_run:
  obtains s0 s where "prod_start (NewProducer demo_publisher 2) = Some ([65, 66], s0)"
    and "prod_reach demo_network demo_publisher [65, 66] s0 s" and "ps_loop s = Run_Returned"
    and "ps_ticked s = [producer_entry [65, 66] 7]"
proof (rule one_tick_run [OF demo_connect])
  show "nw_put demo_network (frame (producer_entry [65, 66] 7)) \<lparr>sc_sent = [], sc_room = 1000\<rparr> =
      (None, \<lparr>sc_sent = frame (producer_entry [65, 66] 7), sc_room = 934\<rparr>)"
    by (simp add: demo_put stream_put_def demo_frame_length)
qed (rule that)

lemma producer_run_complete_witness:
  "\<exists>s0 x. prod_start (NewProducer demo_publisher 2) = Some ([65, 66], s0) \<and>
     timed_reach demo_network demo_publisher [65, 66] s0 x \<and> ps_loop (tp_state x) = Run_Returned \<and>
     100 \<le> tp_now x \<and> (\<exists>c. ps_conn (tp_state x) = Some c \<and> sc_sent c = Marshal (producer_entry [65, 66] 7) @ [nl])"
proof (rule demo_producer_run)
  fix s0 s
  assume start: "prod_start (NewProducer demo_publisher 2) = Some ([65, 66], s0)"
    and reach: "prod_reach demo_network demo_publisher [65, 66] s0 s"
    and ret: "ps_loop s = Run_Returned" "ps_ticked s = [producer_entry [65, 66] 7]"
  obtain x where x: "timed_reach demo_network demo_publisher [65, 66] s0 x" "tp_state x = s"
    using prod_timed [OF reach] by blast
  have "stream.prod_ok demo_network demo_publisher [65, 66] s0"
    using stream.prod_start_ok [OF start] by (simp add: NewProducer_def)
  then have "stream.prod_ok demo_network demo_publisher [65, 66] s" by (rule stream.prod_reach_ok [OF reach demo_put])
  then have alive: "\<forall>err. ps_pub (tp_state x) \<noteq> Panicked err" using ret(1) x(2) by (simp add: stream.prod_ok_def)
  note c = producer_run_complete [OF start demo_put x(1) alive, unfolded x(2) ret(2)]
  have "(1::nat) \<le> tp_now x div 100" using c by simp
  then have "100 \<le> tp_now x" by linarith
  moreover have "\<exists>c. ps_conn s = Some c \<and> sc_sent c = Marshal (producer_entry [65, 66] 7) @ [nl]"
    using c ret(1) demo_connect by auto
  ultimately show ?thesis using start x ret(1) by blast
qed

end
