(* ===== verification/Log_Receiver.thy ===== *)
theory Log_Receiver
  imports Log_Publisher Go_Scan
begin

text \<open>
  \<open>log-aggregator/pkg/receiver/receiver.go\<close>: the five receivers.  The world gives the errors of their
  set-up calls and what arrives.  A goroutine that turns payloads into events is a \<open>handler\<close>: the
  payloads it has yet to unmarshal, and how it ends.
\<close>

section \<open>Handlers\<close>

datatype handler =
    Payloads "bytes list" "string option"
  | Delivering log_entry "bytes list" "string option"

text \<open>What \<open>unmarshalAndWrite\<close> sends to the channel: nothing when the payload is not an entry.\<close>

definition unmarshalAndWrite :: "bytes \<Rightarrow> log_entry option" where
  "unmarshalAndWrite payload = Unmarshal payload"

definition decoded :: "bytes list \<Rightarrow> log_entry list" where
  "decoded ps = List.map_filter unmarshalAndWrite ps"

text \<open>The goroutine of one accepted connection; it ignores the scanner's error.\<close>

definition connection_handler :: "bytes \<Rightarrow> handler" where
  "connection_handler stream = Payloads (fst (scan_tokens stream)) None"

section \<open>Receivers\<close>

datatype mkfifo_result = Fifo_Made | Fifo_Exists | Mkfifo_Fails string

record recv_world =
  rw_listen_err :: "string \<Rightarrow> string \<Rightarrow> string option"
  rw_resolve_err :: "string \<Rightarrow> string \<Rightarrow> string option"
  rw_mkfifo :: "string \<Rightarrow> mkfifo_result"
  rw_open_err :: "string \<Rightarrow> string option"
  rw_stream :: bytes
  rw_stream_err :: "string option"
  rw_datagrams :: "bytes list"
  rw_datagram_err :: string

text \<open>
  What a call of \<open>Receive\<close> does: it serves connections for ever, it is itself the handler of one source, it
  returns an error, or it exits the program.
\<close>

datatype receiving =
    Serves_Connections
  | Serves_Source handler
  | Receive_Fails string
  | Receive_Exits string

record unix_socket_receiver =
  usr_Path :: string

record unix_datagram_socket_receiver =
  udr_socketPath :: string

record fifo_receiver =
  fr_fifoPath :: string

record tcp_socket_receiver =
  tsr_address :: string

record udp_socket_receiver =
  usr_address :: string

definition NewUnixSocketReceiver :: "string \<Rightarrow> unix_socket_receiver" where
  "NewUnixSocketReceiver path = \<lparr>usr_Path = path\<rparr>"

definition NewUnixDatagramSocketReceiver :: "string \<Rightarrow> unix_datagram_socket_receiver" where
  "NewUnixDatagramSocketReceiver socketPath = \<lparr>udr_socketPath = socketPath\<rparr>"

definition NewFIFOReceiver :: "string \<Rightarrow> fifo_receiver" where
  "NewFIFOReceiver fifoPath = \<lparr>fr_fifoPath = fifoPath\<rparr>"

definition NewTCPSocketReceiver :: "string \<Rightarrow> tcp_socket_receiver" where
  "NewTCPSocketReceiver address = \<lparr>tsr_address = address\<rparr>"

definition NewUDPSocketReceiver :: "string \<Rightarrow> udp_socket_receiver" where
  "NewUDPSocketReceiver address = \<lparr>usr_address = address\<rparr>"

definition unix_socket_Receive :: "recv_world \<Rightarrow> unix_socket_receiver \<Rightarrow> receiving" where
  "unix_socket_Receive rw u =
     (case rw_listen_err rw ''unix'' (usr_Path u) of
        Some err \<Rightarrow> Receive_Fails err
      | None \<Rightarrow> Serves_Connections)"

text \<open>
  \<open>buf := make([]byte, 8192)\<close>: the rest of a longer datagram is gone.
\<close>

definition datagram_buffer :: nat where
  "datagram_buffer = 8192"

definition datagram_handler :: "recv_world \<Rightarrow> handler" where
  "datagram_handler rw = Payloads (map (take datagram_buffer) (rw_datagrams rw)) (Some (rw_datagram_err rw))"

definition unix_datagram_Receive :: "recv_world \<Rightarrow> unix_datagram_socket_receiver \<Rightarrow> receiving" where
  "unix_datagram_Receive rw u =
     (case rw_resolve_err rw ''unixgram'' (udr_socketPath u) of
        Some err \<Rightarrow> Receive_Fails err
      | None \<Rightarrow>
          (case rw_listen_err rw ''unixgram'' (udr_socketPath u) of
             Some err \<Rightarrow> Receive_Fails err
           | None \<Rightarrow> Serves_Source (datagram_handler rw)))"

definition fifo_handler :: "recv_world \<Rightarrow> handler" where
  "fifo_handler rw =
     (case scan_tokens (rw_stream rw) of
        (payloads, too_long) \<Rightarrow>
          Payloads payloads (if too_long then Some ''bufio.Scanner: token too long'' else rw_stream_err rw))"

definition fifo_Receive :: "recv_world \<Rightarrow> fifo_receiver \<Rightarrow> receiving" where
  "fifo_Receive rw f =
     (case rw_mkfifo rw (fr_fifoPath f) of
        Mkfifo_Fails err \<Rightarrow> Receive_Exits err
      | _ \<Rightarrow>
          (case rw_open_err rw (fr_fifoPath f) of
             Some err \<Rightarrow> Receive_Fails err
           | None \<Rightarrow> Serves_Source (fifo_handler rw)))"

definition tcp_Receive :: "recv_world \<Rightarrow> tcp_socket_receiver \<Rightarrow> receiving" where
  "tcp_Receive rw t =
     (case rw_listen_err rw ''tcp'' (tsr_address t) of
        Some err \<Rightarrow> Receive_Fails err
      | None \<Rightarrow> Serves_Connections)"

definition udp_Receive :: "recv_world \<Rightarrow> udp_socket_receiver \<Rightarrow> receiving" where
  "udp_Receive rw u =
     (case rw_listen_err rw ''udp'' (usr_address u) of
        Some err \<Rightarrow> Receive_Fails err
      | None \<Rightarrow> Serves_Source (datagram_handler rw))"

text \<open>An interface value of type \<open>Receiver\<close>.\<close>

datatype receiver =
    Unix_Socket_Receiver unix_socket_receiver
  | Unix_Datagram_Receiver unix_datagram_socket_receiver
  | Fifo_Receiver fifo_receiver
  | Tcp_Receiver tcp_socket_receiver
  | Udp_Receiver udp_socket_receiver

fun Receive :: "recv_world \<Rightarrow> receiver \<Rightarrow> receiving" where
  "Receive rw (Unix_Socket_Receiver r) = unix_socket_Receive rw r"
| "Receive rw (Unix_Datagram_Receiver r) = unix_datagram_Receive rw r"
| "Receive rw (Fifo_Receiver r) = fifo_Receive rw r"
| "Receive rw (Tcp_Receiver r) = tcp_Receive rw r"
| "Receive rw (Udp_Receiver r) = udp_Receive rw r"

fun handler_entries :: "handler \<Rightarrow> log_entry list" where
  "handler_entries (Payloads ps en) = decoded ps"
| "handler_entries (Delivering e ps en) = e # decoded ps"

fun handler_end :: "handler \<Rightarrow> string option" where
  "handler_end (Payloads ps en) = en"
| "handler_end (Delivering e ps en) = en"

lemma decoded_simps [simp]:
  "decoded [] = []"
  "decoded (p # ps) = (case unmarshalAndWrite p of Some e \<Rightarrow> e # decoded ps | None \<Rightarrow> decoded ps)"
  by (auto simp: decoded_def List.map_filter_simps split: option.split)

section \<open>From entries to payloads and back\<close>

abbreviation in_range :: "log_entry list \<Rightarrow> bool" where
  "in_range es \<equiv> \<forall>e \<in> set es. int64_range (Timestamp e)"

lemma decoded_Marshal: "in_range es \<Longrightarrow> decoded (map Marshal es) = map valid_entry es"
  by (induction es) (simp_all add: unmarshalAndWrite_def unmarshal_Marshal)

lemma scan_frames:
  "scan_tokens (concat (map (\<lambda>l. l @ [nl]) (map Marshal es))) =
    (map Marshal (takeWhile (\<lambda>e. length (Marshal e) < max_scan_token) es),
     \<exists>e \<in> set es. max_scan_token \<le> length (Marshal e))"
  using scan_lines [of "map Marshal es"] by (simp add: Marshal_one_line takeWhile_map comp_def)

lemma truncated_frame:
  assumes "int64_range (Timestamp e)"
  shows "Unmarshal (take datagram_buffer (frame e)) =
    (if length (Marshal e) \<le> datagram_buffer then Some (valid_entry e) else None)"
proof (cases "length (Marshal e) < datagram_buffer")
  case True
  then have "take datagram_buffer (frame e) = Marshal e @ [nl]" by (simp add: frame_def)
  with True assms show ?thesis by (simp add: unmarshal_Marshal)
next
  case False
  then have "take datagram_buffer (frame e) = take datagram_buffer (Marshal e)" by (simp add: frame_def)
  with False show ?thesis using assms by (simp add: unmarshal_Marshal unmarshal_truncated)
qed

lemma decoded_frames:
  "in_range es \<Longrightarrow> decoded (map (take datagram_buffer) (map frame es)) =
     map valid_entry (filter (\<lambda>e. length (Marshal e) \<le> datagram_buffer) es)"
  by (induction es) (auto simp: unmarshalAndWrite_def truncated_frame)

text \<open>
  C29: Entries published over a stream and received by the goroutine of a connection or by the FIFO
  receiver come out in order, valid UTF-8 replaced, up to the first whose JSON has 64 KiB or more: that
  one and everything after it is lost.  The goroutine of a connection ends without an error then; the
  FIFO receiver returns one.
\<close>

theorem stream_delivery:
  assumes "in_range es" and "connect nw p = Inr c0" and "nw_put nw = stream_put"
    and "Publish nw p es = Publish_Returns c" and "sc_sent c0 = []"
    and "rw_stream rw = sc_sent c" and "rw_stream_err rw = None"
  shows "handler_entries (connection_handler (sc_sent c)) =
      map valid_entry (takeWhile (\<lambda>e. length (Marshal e) < 65536) es) \<and>
    handler_end (connection_handler (sc_sent c)) = None \<and>
    handler_entries (fifo_handler rw) = handler_entries (connection_handler (sc_sent c)) \<and>
    (handler_end (fifo_handler rw) = None \<longleftrightarrow> (\<forall>e \<in> set es. length (Marshal e) < 65536))"
proof -
  have "write_events stream_put es c0 = (None, c)"
    using assms(4) Publish_connected [OF assms(2), of es] assms(3)
    by (auto simp: after_write_def split: prod.splits option.splits)
  then have s: "sc_sent c = concat (map (\<lambda>l. l @ [nl]) (map Marshal es))"
    using stream.write_events_sent assms(5) stream_sends [of es] by simp
  have r: "in_range (takeWhile (\<lambda>e. length (Marshal e) < 65536) es)"
    using assms(1) by (auto dest: set_takeWhileD)
  have m: "max_scan_token = 65536" by (simp add: max_scan_token_def)
  show ?thesis
    using scan_frames [of es] decoded_Marshal [OF r] assms(6,7) unfolding m s [symmetric]
    by (auto simp: connection_handler_def fifo_handler_def not_less)
qed

text \<open>
  Entries published over a datagram socket, of which the network delivers any selection in any
  order, come out as delivered, except that an entry whose JSON has more than 8192 bytes is dropped
  without an error; a datagram receiver only ever ends with an error.
\<close>

theorem datagram_delivery:
  assumes "in_range es" and "connect nw p = Inr c0" and "nw_put nw = dgram_put"
    and "Publish nw p es = Publish_Returns c" and "dg_sent c0 = []"
    and "rw_datagrams rw = map (\<lambda>i. dg_sent c ! i) order" and "\<forall>i \<in> set order. i < length es"
  shows "handler_entries (datagram_handler rw) =
      map valid_entry (filter (\<lambda>e. length (Marshal e) \<le> 8192) (map (\<lambda>i. es ! i) order)) \<and>
    handler_end (datagram_handler rw) \<noteq> None"
proof -
  have "write_events dgram_put es c0 = (None, c)"
    using assms(4) Publish_connected [OF assms(2), of es] assms(3)
    by (auto simp: after_write_def split: prod.splits option.splits)
  then have "dg_sent c = map frame es"
    using dgram.write_events_sent assms(5) dgram_sends [of es] by simp
  then have s: "rw_datagrams rw = map frame (map (\<lambda>i. es ! i) order)"
    using assms(6,7) by simp
  have r: "in_range (map (\<lambda>i. es ! i) order)" using assms(1,7) by simp
  show ?thesis
    using decoded_frames [OF r]
    by (simp add: datagram_handler_def s datagram_buffer_def)
qed

section \<open>How long a message may be\<close>

lemma json_chars_plain:
  "\<forall>b \<in> set s. html_safe b \<and> b < 0x80 \<Longrightarrow> json_chars s = s"
  by (induction s) (simp_all add: escape_ascii_def)

lemma message_letters:
  assumes "MessageOfSize n = Some msg" and "b \<in> set msg"
  shows "html_safe b \<and> b < 0x80 \<and> 65 \<le> b \<and> b \<le> 90"
proof -
  obtain i where b: "b = 65 + of_nat (i mod 26)"
    using assms by (auto simp: MessageOfSize_def split: if_splits)
  have le: "i mod 26 < 26" by simp
  then have "unat (of_nat (65 + i mod 26) :: byte) = 65 + i mod 26" by (intro unat_byte) linarith
  then have u: "unat b = 65 + i mod 26" by (simp add: b)
  then have "b \<noteq> 92" "b \<noteq> 34" "b \<noteq> 38" "b \<noteq> 60" "b \<noteq> 62" using le by auto
  moreover have "i mod 26 \<le> 25" using le by linarith
  ultimately show ?thesis using u by (simp add: html_safe_def word_le_nat_alt word_less_nat_alt)
qed

lemma MessageOfSize_length: "MessageOfSize n = Some msg \<Longrightarrow> length msg = nat n"
  by (auto simp: MessageOfSize_def split: if_splits)

lemma length_json_int: "length (json_int n) = length (show_int n)"
  by (simp add: json_int_def ascii_def)

lemma producer_entry_length:
  assumes "MessageOfSize n = Some msg"
  shows "length (Marshal (producer_entry msg t)) = 62 + length (show_int t) + nat n"
proof -
  have "json_chars msg = msg"
    using message_letters [OF assms] by (intro json_chars_plain) blast
  moreover have "json_chars (ascii k) = ascii k"
    if "k \<in> {''source'', ''timestamp'', ''level'', ''message'', ''producer'', ''INFO''}" for k
    using that by (intro json_chars_plain) (auto simp: ascii_def html_safe_def)
  ultimately show ?thesis
    using MessageOfSize_length [OF assms]
    by (simp add: Marshal_def member_text_def json_string_def producer_entry_def length_json_int)
      (simp add: ascii_def)
qed


lemma MessageOfSize_Some: "0 \<le> n \<Longrightarrow> MessageOfSize n = Some (the (MessageOfSize n))"
  by (simp add: MessageOfSize_def)

lemma producer_entry_valid:
  assumes "MessageOfSize n = Some msg"
  shows "valid_entry (producer_entry msg t) = producer_entry msg t"
proof -
  have "\<forall>b \<in> set msg. b < 0x80" using message_letters [OF assms] by blast
  then have "valid_utf8 msg = msg" by (rule valid_utf8_ascii)
  moreover have "valid_utf8 (ascii ''producer'') = ascii ''producer''" "valid_utf8 (ascii ''INFO'') = ascii ''INFO''"
    by (rule valid_utf8_ascii, simp add: ascii_def)+
  ultimately show ?thesis by (simp add: valid_entry_def producer_entry_def)
qed

text \<open>
  The largest message of a producer that arrives: over a datagram socket the message and the decimal
  digits of the timestamp may have 8130 bytes together, over a stream 65473; a larger one is dropped, or ends the
  reading.
\<close>

theorem producer_message_limits:
  assumes "MessageOfSize n = Some msg" and "int64_range t"
  shows "unmarshalAndWrite (take datagram_buffer (frame (producer_entry msg t))) =
      (if nat n + length (show_int t) \<le> 8130 then Some (producer_entry msg t) else None) \<and>
    scan_tokens (frame (producer_entry msg t)) =
      (if nat n + length (show_int t) \<le> 65473 then ([Marshal (producer_entry msg t)], False) else ([], True))"
proof -
  have "Timestamp (producer_entry msg t) = t" by (simp add: producer_entry_def)
  then show ?thesis
    using truncated_frame [of "producer_entry msg t"] assms(2) producer_entry_length [OF assms(1), of t]
      producer_entry_valid [OF assms(1), of t] scan_frames [of "[producer_entry msg t]"]
    by (auto simp: unmarshalAndWrite_def datagram_buffer_def max_scan_token_def frame_def)
qed

lemma show_7: "length (show_int 7) = 1"
  by code_simp

definition demo_message :: "int \<Rightarrow> bytes" where
  "demo_message n = the (MessageOfSize n)"

definition demo_entry :: "int \<Rightarrow> log_entry" where
  "demo_entry n = producer_entry (demo_message n) 7"

lemma demo_message: "0 \<le> n \<Longrightarrow> MessageOfSize n = Some (demo_message n)"
  unfolding demo_message_def by (rule MessageOfSize_Some)

lemma demo_entry_length: "0 \<le> n \<Longrightarrow> length (Marshal (demo_entry n)) = 63 + nat n"
  unfolding demo_entry_def by (simp add: producer_entry_length [OF demo_message] show_7)

lemma demo_entry_valid: "0 \<le> n \<Longrightarrow> valid_entry (demo_entry n) = demo_entry n"
  unfolding demo_entry_def by (rule producer_entry_valid [OF demo_message])

lemma demo_entry_range: "int64_range (Timestamp (demo_entry n))"
  by (simp add: demo_entry_def producer_entry_def int64_range_def)

lemma producer_message_limits_witness:
  "unmarshalAndWrite (take datagram_buffer (frame (demo_entry 8129))) = Some (demo_entry 8129) \<and>
   unmarshalAndWrite (take datagram_buffer (frame (demo_entry 8130))) = None"
  using producer_message_limits [OF demo_message, of 8129 7] producer_message_limits [OF demo_message, of 8130 7]
  by (simp add: demo_entry_def show_7 int64_range_def)

definition demo_stream :: "log_entry list \<Rightarrow> stream_conn" where
  "demo_stream es = snd (write_events stream_put es \<lparr>sc_sent = [], sc_room = 100000\<rparr>)"

definition long_network :: "stream_conn network" where
  "long_network =
     \<lparr>nw_dial = (\<lambda>_ _. Inr \<lparr>sc_sent = [], sc_room = 100000\<rparr>), nw_resolve_err = (\<lambda>_ _. None),
      nw_open_fifo = (\<lambda>_. Inr \<lparr>sc_sent = [], sc_room = 100000\<rparr>), nw_put = stream_put\<rparr>"

definition demo_world :: "bytes \<Rightarrow> bytes list \<Rightarrow> recv_world" where
  "demo_world stream ds =
     \<lparr>rw_listen_err = (\<lambda>_ _. None), rw_resolve_err = (\<lambda>_ _. None), rw_mkfifo = (\<lambda>_. Fifo_Made),
      rw_open_err = (\<lambda>_. None), rw_stream = stream, rw_stream_err = None, rw_datagrams = ds,
      rw_datagram_err = ''use of closed network connection''\<rparr>"

lemma stream_delivery_witness:
  "handler_entries (connection_handler (sc_sent (demo_stream [demo_entry 2, demo_entry 70000, demo_entry 3]))) =
     [demo_entry 2] \<and>
   handler_end (fifo_handler (demo_world (sc_sent (demo_stream [demo_entry 2, demo_entry 70000, demo_entry 3])) []))
     \<noteq> None"
proof -
  let ?es = "[demo_entry 2, demo_entry 70000, demo_entry 3]"
  have "fst (write_events stream_put ?es \<lparr>sc_sent = [], sc_room = 100000\<rparr>) = None"
    by (simp add: stream_put_def frame_def demo_entry_length)
  then have w: "write_events stream_put ?es \<lparr>sc_sent = [], sc_room = 100000\<rparr> = (None, demo_stream ?es)"
    unfolding demo_stream_def by (metis prod.collapse)
  have conn: "connect long_network demo_publisher = Inr \<lparr>sc_sent = [], sc_room = 100000\<rparr>"
    by (simp add: demo_publisher_def long_network_def)
  have put: "nw_put long_network = stream_put" by (simp add: long_network_def)
  have pub: "Publish long_network demo_publisher ?es = Publish_Returns (demo_stream ?es)"
    using Publish_connected [OF conn, of ?es] w put by (simp add: after_write_def)
  have range: "in_range ?es" by (simp add: demo_entry_range)
  show ?thesis
    using stream_delivery [OF range conn put pub, of "demo_world (sc_sent (demo_stream ?es)) []"]
    by (simp add: demo_world_def demo_entry_length demo_entry_valid)
qed

definition demo_datagrams :: "log_entry list \<Rightarrow> dgram_conn" where
  "demo_datagrams es = snd (write_events dgram_put es \<lparr>dg_sent = [], dg_max = 65507\<rparr>)"

definition datagram_network :: "dgram_conn network" where
  "datagram_network =
     \<lparr>nw_dial = (\<lambda>_ _. Inr \<lparr>dg_sent = [], dg_max = 65507\<rparr>), nw_resolve_err = (\<lambda>_ _. None),
      nw_open_fifo = (\<lambda>_. Inl ''not a socket''), nw_put = dgram_put\<rparr>"

lemma datagram_delivery_witness:
  "handler_entries (datagram_handler
      (demo_world [] (map (\<lambda>i. dg_sent (demo_datagrams [demo_entry 2, demo_entry 9000, demo_entry 3]) ! i) [2, 1, 0]))) =
     [demo_entry 3, demo_entry 2]"
proof -
  let ?es = "[demo_entry 2, demo_entry 9000, demo_entry 3]"
  let ?rw = "demo_world [] (map (\<lambda>i. dg_sent (demo_datagrams ?es) ! i) [2, 1, 0])"
  let ?p = "Udp_Publisher (NewUDPSocketPublisher ''127.0.0.1:9000'')"
  have "fst (write_events dgram_put ?es \<lparr>dg_sent = [], dg_max = 65507\<rparr>) = None"
    by (simp add: dgram_put_def frame_def demo_entry_length)
  then have w: "write_events dgram_put ?es \<lparr>dg_sent = [], dg_max = 65507\<rparr> = (None, demo_datagrams ?es)"
    unfolding demo_datagrams_def by (metis prod.collapse)
  have conn: "connect datagram_network ?p = Inr \<lparr>dg_sent = [], dg_max = 65507\<rparr>"
    by (simp add: datagram_network_def)
  have put: "nw_put datagram_network = dgram_put" by (simp add: datagram_network_def)
  have pub: "Publish datagram_network ?p ?es = Publish_Returns (demo_datagrams ?es)"
    using Publish_connected [OF conn, of ?es] w put by (simp add: after_write_def)
  have range: "in_range ?es" by (simp add: demo_entry_range)
  have rw: "rw_datagrams ?rw = map (\<lambda>i. dg_sent (demo_datagrams ?es) ! i) [2, 1, 0]"
    by (simp add: demo_world_def)
  show ?thesis
    using datagram_delivery [OF range conn put pub _ rw]
    by (simp add: demo_entry_length demo_entry_valid)
qed

end
