(* ===== verification/Log_Aggregator.thy ===== *)
theory Log_Aggregator
  imports Log_Receiver
begin

text \<open>
  \<open>log-aggregator/pkg/output/output.go\<close> and \<open>pkg/ipc/aggregator.go\<close>: the file output, and the aggregator
  as a step relation over its goroutines: the receiver and the connections it accepts, the collector
  that writes the file, and the goroutine that closes the event channel on an interrupt.
  \<open>as_expected\<close>, \<open>as_sent\<close> and \<open>as_collected\<close> are histories: the entries in each source, those sent
  with the source they come from, and those the collector took.
\<close>

section \<open>File output\<close>

record file_output =
  fo_FilePath :: string

definition NewFileOutput :: "string \<Rightarrow> file_output" where
  "NewFileOutput filePath = \<lparr>fo_FilePath = filePath\<rparr>"

text \<open>One round of the loop: a failed write is printed and the loop goes on.\<close>

definition output_line :: "log_entry \<Rightarrow> file_writer \<Rightarrow> file_writer" where
  "output_line e w = write_string (Marshal e @ [nl]) w"

text \<open>
  \<open>Write\<close> on the events its channel delivers until it is closed: the error, or the file that is left.
  \<open>create\<close> is the error of \<open>os.Create\<close> or the space on the disk.
\<close>

definition output_Write :: "(string \<Rightarrow> string + nat) \<Rightarrow> file_output \<Rightarrow> log_entry list \<Rightarrow> string + bytes" where
  "output_Write create fo events =
     (case create (fo_FilePath fo) of
        Inl err \<Rightarrow> Inl (''failed to open file: '' @ err)
      | Inr space \<Rightarrow> Inr (fw_disk (writer_flush (fold output_line events (new_writer space)))))"

lemma output_line_holds: "writer_holds t w \<Longrightarrow> writer_holds (t @ frame e) (output_line e w)"
  unfolding output_line_def frame_def by (rule write_string_holds)

lemma output_line_space [simp]: "fw_space (output_line e w) = fw_space w"
  by (simp add: output_line_def)

lemma fold_output_holds:
  "writer_holds t w \<Longrightarrow> writer_holds (t @ concat (map frame es)) (fold output_line es w)"
proof (induction es arbitrary: t w)
  case (Cons e es)
  show ?case using Cons.IH [OF output_line_holds [OF Cons.prems, of e]] by simp
qed simp

lemma fold_output_space: "fw_space (fold output_line es w) = fw_space w"
  by (induction es arbitrary: w) simp_all

section \<open>The aggregator\<close>

definition aggregatorBufferSize :: nat where
  "aggregatorBufferSize = 100"

record aggregator =
  ag_receiver :: receiver

definition NewAggregator :: "receiver \<Rightarrow> aggregator" where
  "NewAggregator r = \<lparr>ag_receiver = r\<rparr>"

datatype collector_pc = Creating | Collecting | Collected

record agg_state =
  as_events :: "log_entry chan"
  as_receiving :: bool
  as_accepting :: bool
  as_handlers :: "handler list"
  as_collector :: collector_pc
  as_out :: file_writer
  as_done :: bool
  as_panicked :: "string option"
  as_expected :: "log_entry list list"
  as_sent :: "(nat \<times> log_entry) list"
  as_collected :: "log_entry list"

definition agg_start :: agg_state where
  "agg_start =
     \<lparr>as_events = make_chan aggregatorBufferSize, as_receiving = False, as_accepting = False,
      as_handlers = [], as_collector = Creating, as_out = new_writer 0, as_done = False,
      as_panicked = None, as_expected = [], as_sent = [], as_collected = []\<rparr>"

definition agg_dead :: "agg_state \<Rightarrow> bool" where
  "agg_dead s \<longleftrightarrow> as_done s \<or> as_panicked s \<noteq> None"

definition add_handler :: "handler \<Rightarrow> agg_state \<Rightarrow> agg_state" where
  "add_handler h s =
     s\<lparr>as_handlers := as_handlers s @ [h], as_expected := as_expected s @ [handler_entries h]\<rparr>"

abbreviation set_handler :: "nat \<Rightarrow> handler \<Rightarrow> agg_state \<Rightarrow> agg_state" where
  "set_handler i h s \<equiv> s\<lparr>as_handlers := (as_handlers s)[i := h]\<rparr>"

definition at_handler :: "agg_state \<Rightarrow> nat \<Rightarrow> handler \<Rightarrow> bool" where
  "at_handler s i h \<longleftrightarrow> i < length (as_handlers s) \<and> as_handlers s ! i = h"

inductive agg_step ::
  "recv_world \<Rightarrow> (string \<Rightarrow> string + nat) \<Rightarrow> file_output \<Rightarrow> aggregator \<Rightarrow> agg_state \<Rightarrow> agg_state \<Rightarrow> bool"
  for rw create fo ag where
  a_serve: "\<not> agg_dead s \<Longrightarrow> \<not> as_receiving s \<Longrightarrow> Receive rw (ag_receiver ag) = Serves_Connections \<Longrightarrow>
    agg_step rw create fo ag s (s\<lparr>as_receiving := True, as_accepting := True\<rparr>)"
| a_source: "\<not> agg_dead s \<Longrightarrow> \<not> as_receiving s \<Longrightarrow> Receive rw (ag_receiver ag) = Serves_Source h \<Longrightarrow>
    agg_step rw create fo ag s (add_handler h (s\<lparr>as_receiving := True\<rparr>))"
| a_receive_fails: "\<not> agg_dead s \<Longrightarrow> \<not> as_receiving s \<Longrightarrow> Receive rw (ag_receiver ag) = Receive_Fails err \<Longrightarrow>
    agg_step rw create fo ag s (s\<lparr>as_receiving := True, as_panicked := Some err\<rparr>)"
| a_receive_exits: "\<not> agg_dead s \<Longrightarrow> \<not> as_receiving s \<Longrightarrow> Receive rw (ag_receiver ag) = Receive_Exits err \<Longrightarrow>
    agg_step rw create fo ag s (s\<lparr>as_receiving := True, as_panicked := Some err\<rparr>)"
| a_accept: "\<not> agg_dead s \<Longrightarrow> as_accepting s \<Longrightarrow>
    agg_step rw create fo ag s (add_handler (connection_handler stream) s)"
| a_skip: "\<not> agg_dead s \<Longrightarrow> at_handler s i (Payloads (p # ps) en) \<Longrightarrow> unmarshalAndWrite p = None \<Longrightarrow>
    agg_step rw create fo ag s (set_handler i (Payloads ps en) s)"
| a_decode: "\<not> agg_dead s \<Longrightarrow> at_handler s i (Payloads (p # ps) en) \<Longrightarrow> unmarshalAndWrite p = Some e \<Longrightarrow>
    agg_step rw create fo ag s (set_handler i (Delivering e ps en) s)"
| a_send: "\<not> agg_dead s \<Longrightarrow> at_handler s i (Delivering e ps en) \<Longrightarrow> chan_send e (as_events s) = Sent ev \<Longrightarrow>
    agg_step rw create fo ag s (set_handler i (Payloads ps en) (s\<lparr>as_events := ev, as_sent := as_sent s @ [(i, e)]\<rparr>))"
| a_send_closed: "\<not> agg_dead s \<Longrightarrow> at_handler s i (Delivering e ps en) \<Longrightarrow>
    chan_send e (as_events s) = Send_Panics \<Longrightarrow>
    agg_step rw create fo ag s (s\<lparr>as_panicked := Some ''send on closed channel''\<rparr>)"
| a_source_error: "\<not> agg_dead s \<Longrightarrow> at_handler s i (Payloads [] (Some err)) \<Longrightarrow>
    agg_step rw create fo ag s (s\<lparr>as_panicked := Some err\<rparr>)"
| a_interrupt: "\<not> agg_dead s \<Longrightarrow> chan_close (as_events s) = Some ev \<Longrightarrow>
    agg_step rw create fo ag s (s\<lparr>as_events := ev\<rparr>)"
| a_create: "\<not> agg_dead s \<Longrightarrow> as_collector s = Creating \<Longrightarrow> create (fo_FilePath fo) = Inr space \<Longrightarrow>
    agg_step rw create fo ag s (s\<lparr>as_collector := Collecting, as_out := new_writer space\<rparr>)"
| a_create_fails: "\<not> agg_dead s \<Longrightarrow> as_collector s = Creating \<Longrightarrow> create (fo_FilePath fo) = Inl err \<Longrightarrow>
    agg_step rw create fo ag s (s\<lparr>as_panicked := Some (''failed to open file: '' @ err)\<rparr>)"
| a_collect: "\<not> agg_dead s \<Longrightarrow> as_collector s = Collecting \<Longrightarrow> chan_recv (as_events s) = Received e ev \<Longrightarrow>
    agg_step rw create fo ag s (s\<lparr>as_events := ev, as_out := output_line e (as_out s),
      as_collected := as_collected s @ [e]\<rparr>)"
| a_finish: "\<not> agg_dead s \<Longrightarrow> as_collector s = Collecting \<Longrightarrow> chan_recv (as_events s) = Recv_Closed \<Longrightarrow>
    agg_step rw create fo ag s (s\<lparr>as_collector := Collected, as_out := writer_flush (as_out s), as_done := True\<rparr>)"

inductive agg_reach ::
  "recv_world \<Rightarrow> (string \<Rightarrow> string + nat) \<Rightarrow> file_output \<Rightarrow> aggregator \<Rightarrow> agg_state \<Rightarrow> agg_state \<Rightarrow> bool"
  for rw create fo ag s0 where
  agg_refl: "agg_reach rw create fo ag s0 s0"
| agg_more: "agg_reach rw create fo ag s0 s \<Longrightarrow> agg_step rw create fo ag s s' \<Longrightarrow> agg_reach rw create fo ag s0 s'"

text \<open>What source \<open>i\<close> has sent.\<close>

definition sent_by :: "nat \<Rightarrow> agg_state \<Rightarrow> log_entry list" where
  "sent_by i s = map snd (filter (\<lambda>p. fst p = i) (as_sent s))"

section \<open>The invariant\<close>

definition sources_ok :: "agg_state \<Rightarrow> bool" where
  "sources_ok s \<longleftrightarrow>
     length (as_expected s) = length (as_handlers s) \<and>
     (\<forall>p \<in> set (as_sent s). fst p < length (as_handlers s)) \<and>
     (\<forall>i < length (as_handlers s). sent_by i s @ handler_entries (as_handlers s ! i) = as_expected s ! i)"

definition output_ok :: "(string \<Rightarrow> string + nat) \<Rightarrow> file_output \<Rightarrow> agg_state \<Rightarrow> bool" where
  "output_ok create fo s \<longleftrightarrow>
     as_collected s @ ch_buf (as_events s) = map snd (as_sent s) \<and>
     writer_holds (concat (map frame (as_collected s))) (as_out s) \<and>
     (as_collector s = Creating \<longrightarrow> as_collected s = []) \<and>
     (as_collector s \<noteq> Creating \<longrightarrow> create (fo_FilePath fo) = Inr (fw_space (as_out s))) \<and>
     (as_done s \<longrightarrow> as_collector s = Collected \<and> ch_closed (as_events s) \<and> ch_buf (as_events s) = [] \<and>
        fw_disk (as_out s) = take (fw_space (as_out s)) (concat (map frame (as_collected s))))"

lemma sources_ok_add: "sources_ok s \<Longrightarrow> sources_ok (add_handler h s)"
proof -
  assume ok: "sources_ok s"
  have "sent_by (length (as_handlers s)) s = []"
    using ok by (auto simp: sources_ok_def sent_by_def filter_empty_conv)
  then show ?thesis
    using ok by (auto simp: sources_ok_def add_handler_def nth_append sent_by_def less_Suc_eq)
qed

lemma sources_ok_set:
  assumes "sources_ok s" and "at_handler s i h" and "handler_entries h' = handler_entries h"
  shows "sources_ok (set_handler i h' s)"
  using assms by (auto simp: sources_ok_def at_handler_def sent_by_def nth_list_update)

lemma sources_ok_send:
  assumes "sources_ok s" and "at_handler s i (Delivering e ps en)"
  shows "sources_ok (set_handler i (Payloads ps en) (s\<lparr>as_events := ev, as_sent := as_sent s @ [(i, e)]\<rparr>))"
  using assms by (auto simp: sources_ok_def at_handler_def sent_by_def nth_list_update)

lemma sources_ok_other:
  "sources_ok s \<Longrightarrow> as_handlers s' = as_handlers s \<Longrightarrow> as_expected s' = as_expected s \<Longrightarrow> as_sent s' = as_sent s \<Longrightarrow>
     sources_ok s'"
  by (simp add: sources_ok_def sent_by_def)

lemma agg_step_sources:
  assumes "agg_step rw create fo ag s s'" and ok: "sources_ok s"
  shows "sources_ok s'"
  using assms(1)
proof cases
  case (a_skip i p ps en)
  show ?thesis unfolding a_skip(1) by (rule sources_ok_set [OF ok a_skip(3)]) (simp add: a_skip(4))
next
  case (a_decode i p ps en e)
  show ?thesis unfolding a_decode(1) by (rule sources_ok_set [OF ok a_decode(3)]) (simp add: a_decode(4))
next
  case (a_send i e ps en ev)
  show ?thesis unfolding a_send(1) by (rule sources_ok_send [OF ok a_send(3)])
next
  case (a_source h)
  show ?thesis
    unfolding a_source(1) by (rule sources_ok_add, rule sources_ok_other [OF ok]) simp_all
next
  case (a_accept stream)
  show ?thesis unfolding a_accept(1) by (rule sources_ok_add [OF ok])
qed (use ok in \<open>auto elim: sources_ok_other\<close>)

lemma agg_step_output:
  assumes "agg_step rw create fo ag s s'" and "output_ok create fo s"
  shows "output_ok create fo s'"
  using assms(1)
proof cases
  case (a_collect e ev)
  then show ?thesis
    using assms(2) output_line_holds [of "concat (map frame (as_collected s))" "as_out s" e]
    by (auto simp: output_ok_def chan_iffs agg_dead_def)
next
  case a_finish
  then show ?thesis
    using assms(2) writer_flush_holds [of "concat (map frame (as_collected s))" "as_out s"]
      writer_final [of "concat (map frame (as_collected s))" "as_out s"]
    by (auto simp: output_ok_def chan_iffs)
next
  case (a_create space)
  then show ?thesis
    using assms(2) writer_holds_new [of space] by (auto simp: output_ok_def agg_dead_def) (simp add: new_writer_def)
qed (use assms(2) in \<open>auto simp: output_ok_def chan_iffs agg_dead_def add_handler_def\<close>)

lemma agg_start_ok: "sources_ok agg_start" "output_ok create fo agg_start"
  by (simp_all add: sources_ok_def output_ok_def agg_start_def make_chan_def writer_holds_new)

lemma agg_reach_ok:
  "agg_reach rw create fo ag agg_start s \<Longrightarrow> sources_ok s \<and> output_ok create fo s"
  by (induction rule: agg_reach.induct) (auto simp: agg_start_ok intro: agg_step_sources agg_step_output)

section \<open>How it ends\<close>

definition life_ok :: "recv_world \<Rightarrow> (string \<Rightarrow> string + nat) \<Rightarrow> file_output \<Rightarrow> aggregator \<Rightarrow> agg_state \<Rightarrow> bool" where
  "life_ok rw create fo ag s \<longleftrightarrow>
     (as_accepting s \<longrightarrow> as_receiving s \<and> Receive rw (ag_receiver ag) = Serves_Connections) \<and>
     (\<not> as_receiving s \<longrightarrow> as_handlers s = [] \<and> as_expected s = []) \<and>
     (\<forall>h. Receive rw (ag_receiver ag) = Serves_Source h \<longrightarrow>
        as_expected s = (if as_receiving s then [handler_entries h] else [])) \<and>
     (\<forall>h \<in> set (as_handlers s). handler_end h = None \<or>
        (\<exists>h0. Receive rw (ag_receiver ag) = Serves_Source h0 \<and> handler_end h0 = handler_end h)) \<and>
     (as_panicked s \<noteq> None \<longrightarrow> ch_closed (as_events s) \<or>
        (\<exists>err. Receive rw (ag_receiver ag) \<in> {Receive_Fails err, Receive_Exits err}) \<or>
        (\<exists>err. create (fo_FilePath fo) = Inl err) \<or>
        (\<exists>h err. Receive rw (ag_receiver ag) = Serves_Source h \<and> handler_end h = Some err))"

lemma handlers_set:
  assumes "\<forall>h \<in> set hs. P (handler_end h)" and "i < length hs" and "handler_end h' = handler_end (hs ! i)"
  shows "\<forall>h \<in> set (hs[i := h']). P (handler_end h)"
proof
  fix h assume "h \<in> set (hs[i := h'])"
  then have "h \<in> insert h' (set hs)" using set_update_subset_insert by (rule subsetD [rotated])
  then show "P (handler_end h)" using assms nth_mem [OF assms(2)] by auto
qed

lemma life_ok_set:
  assumes "life_ok rw create fo ag s" and "at_handler s i h" and "handler_end h' = handler_end h"
    and "as_handlers s' = (as_handlers s)[i := h']" and "as_accepting s' = as_accepting s"
    and "as_receiving s' = as_receiving s" and "as_expected s' = as_expected s"
    and "as_panicked s' = as_panicked s" and "ch_closed (as_events s') = ch_closed (as_events s)"
  shows "life_ok rw create fo ag s'"
proof -
  have "\<forall>h \<in> set (as_handlers s'). handler_end h = None \<or>
      (\<exists>h0. Receive rw (ag_receiver ag) = Serves_Source h0 \<and> handler_end h0 = handler_end h)"
    unfolding assms(4) using assms(1-3)
    by (intro handlers_set [where P = "\<lambda>en. en = None \<or>
        (\<exists>h0. Receive rw (ag_receiver ag) = Serves_Source h0 \<and> handler_end h0 = en)"])
      (auto simp: life_ok_def at_handler_def)
  moreover have "as_handlers s = [] \<Longrightarrow> as_handlers s' = []" by (simp add: assms(4))
  ultimately show ?thesis
    using assms(1) unfolding life_ok_def assms(5-9) by blast
qed

lemma agg_step_life:
  assumes "agg_step rw create fo ag s s'" and ok: "life_ok rw create fo ag s"
  shows "life_ok rw create fo ag s'"
  using assms(1)
proof cases
  case (a_skip i p ps en)
  then show ?thesis by (intro life_ok_set [OF ok a_skip(3), of "Payloads ps en"]) simp_all
next
  case (a_decode i p ps en e)
  then show ?thesis by (intro life_ok_set [OF ok a_decode(3), of "Delivering e ps en"]) simp_all
next
  case (a_send i e ps en ev)
  then show ?thesis
    by (intro life_ok_set [OF ok a_send(3), of "Payloads ps en"]) (simp_all add: chan_iffs)
next
  case (a_send_closed i e ps en)
  then have "ch_closed (as_events s)" by (auto simp: chan_send_def split: if_splits)
  then show ?thesis using ok a_send_closed(1) by (auto simp: life_ok_def)
next
  case (a_source_error i err)
  then have "Payloads [] (Some err) \<in> set (as_handlers s)" by (auto simp: at_handler_def in_set_conv_nth)
  then have "\<exists>h0. Receive rw (ag_receiver ag) = Serves_Source h0 \<and> handler_end h0 = Some err"
    using ok by (fastforce simp: life_ok_def)
  then show ?thesis using ok a_source_error(1) by (auto simp: life_ok_def)
qed (use ok in \<open>auto simp: life_ok_def chan_iffs add_handler_def connection_handler_def agg_dead_def\<close>)

lemma agg_reach_life:
  "agg_reach rw create fo ag agg_start s \<Longrightarrow> life_ok rw create fo ag s"
proof (induction rule: agg_reach.induct)
  case agg_refl
  show ?case by (simp add: life_ok_def agg_start_def)
qed (rule agg_step_life)

lemma sent_of_one:
  assumes "sources_ok s" and "as_expected s = [es] \<or> as_expected s = []"
  shows "\<exists>rest. map snd (as_sent s) @ rest = es"
proof (cases "as_handlers s")
  case Nil
  then have "as_sent s = []" using assms(1) by (cases "as_sent s") (auto simp: sources_ok_def)
  then show ?thesis by simp
next
  case (Cons h hs)
  then have one: "as_expected s = [es]" "length (as_handlers s) = 1"
    using assms by (auto simp: sources_ok_def)
  then have "filter (\<lambda>p. fst p = 0) (as_sent s) = as_sent s"
    using assms(1) by (auto simp: sources_ok_def filter_id_conv)
  then show ?thesis using assms(1) one by (auto simp: sources_ok_def sent_by_def)
qed

section \<open>Properties of the aggregator\<close>

text \<open>
  C30: In every interleaving, the entries each source has sent are a beginning of the entries in it, in
  order; and when the aggregator exits, the file has one line for every entry any source has sent, in
  the order of the sends, cut off only where the disk was full.
\<close>

theorem aggregator_exit_file:
  assumes "agg_reach rw create fo ag agg_start s"
  shows "(\<forall>i < length (as_handlers s). \<exists>rest. sent_by i s @ rest = as_expected s ! i) \<and>
    (as_done s \<longrightarrow>
       (\<exists>space. create (fo_FilePath fo) = Inr space \<and>
          output_Write create fo (map snd (as_sent s)) = Inr (fw_disk (as_out s)) \<and>
          fw_disk (as_out s) = take space (concat (map frame (map snd (as_sent s))))))"
proof -
  have ok: "sources_ok s" "output_ok create fo s" using agg_reach_ok [OF assms] by auto
  have "\<forall>i < length (as_handlers s). \<exists>rest. sent_by i s @ rest = as_expected s ! i"
    using ok(1) by (auto simp: sources_ok_def)
  moreover have "\<exists>space. create (fo_FilePath fo) = Inr space \<and>
      output_Write create fo (map snd (as_sent s)) = Inr (fw_disk (as_out s)) \<and>
      fw_disk (as_out s) = take space (concat (map frame (map snd (as_sent s))))" if d: "as_done s"
  proof -
    let ?es = "map snd (as_sent s)" and ?space = "fw_space (as_out s)"
    have col: "as_collected s = ?es" using ok(2) d by (auto simp: output_ok_def)
    have cr: "create (fo_FilePath fo) = Inr ?space" using ok(2) d by (auto simp: output_ok_def)
    have fin: "fw_disk (as_out s) = take ?space (concat (map frame ?es))"
      using ok(2) d unfolding col [symmetric] by (simp add: output_ok_def)
    have "writer_holds (concat (map frame ?es)) (fold output_line ?es (new_writer ?space))"
      using fold_output_holds [OF writer_holds_new, of ?es ?space] by simp
    from writer_final [OF this] have "output_Write create fo ?es = Inr (fw_disk (as_out s))"
      by (simp add: output_Write_def cr fold_output_space fin new_writer_def)
    with cr fin show ?thesis by blast
  qed
  ultimately show ?thesis by blast
qed

text \<open>
  An aggregator that serves connections and could create its file ends only after an interrupt:
  no connection, whatever it sends, makes it panic or exit.
\<close>

theorem connections_cannot_stop:
  assumes "agg_reach rw create fo ag agg_start s"
    and "Receive rw (ag_receiver ag) = Serves_Connections" and "create (fo_FilePath fo) = Inr space"
  shows "agg_dead s \<longrightarrow> ch_closed (as_events s)"
  using agg_reach_ok [OF assms(1)] agg_reach_life [OF assms(1)] assms(2,3)
  by (auto simp: agg_dead_def life_ok_def output_ok_def)

text \<open>
  An interrupt races with the receivers: in any state in which some goroutine is about to send an
  event and the channel is open, the interrupt can come first.  The send then panics, the program dies
  without the last flush, and of what the collector has already taken only what had reached the disk is kept.
\<close>

theorem interrupt_loses_output:
  assumes "agg_reach rw create fo ag agg_start s" and "\<not> agg_dead s" and "\<not> ch_closed (as_events s)"
    and "at_handler s i (Delivering e ps en)"
  shows "\<exists>s1 s2. agg_step rw create fo ag s s1 \<and> agg_step rw create fo ag s1 s2 \<and>
    as_panicked s2 = Some ''send on closed channel'' \<and> fw_disk (as_out s2) = fw_disk (as_out s) \<and>
    (\<not> fw_err (as_out s) \<longrightarrow> fw_disk (as_out s2) @ fw_buf (as_out s) = concat (map frame (as_collected s))) \<and>
    (\<forall>s3. \<not> agg_step rw create fo ag s2 s3)"
proof -
  define s1 where "s1 = s\<lparr>as_events := (as_events s)\<lparr>ch_closed := True\<rparr>\<rparr>"
  define s2 where "s2 = s1\<lparr>as_panicked := Some ''send on closed channel''\<rparr>"
  have "agg_step rw create fo ag s s1"
    unfolding s1_def by (rule a_interrupt [OF assms(2)]) (simp add: chan_iffs assms(3))
  moreover have "agg_step rw create fo ag s1 s2"
    unfolding s2_def
  proof (rule a_send_closed)
    show "\<not> agg_dead s1" using assms(2) by (simp add: s1_def agg_dead_def)
    show "at_handler s1 i (Delivering e ps en)" using assms(4) by (simp add: s1_def at_handler_def)
    show "chan_send e (as_events s1) = Send_Panics" by (simp add: s1_def chan_send_def)
  qed
  moreover have "\<not> agg_step rw create fo ag s2 s3" for s3
  proof
    assume "agg_step rw create fo ag s2 s3"
    moreover have "agg_dead s2" by (simp add: s2_def agg_dead_def)
    ultimately show False by cases simp_all
  qed
  moreover have "writer_holds (concat (map frame (as_collected s))) (as_out s)"
    using agg_reach_ok [OF assms(1)] by (simp add: output_ok_def)
  then have "\<not> fw_err (as_out s) \<longrightarrow> fw_disk (as_out s2) @ fw_buf (as_out s) = concat (map frame (as_collected s))"
    by (simp add: writer_holds_def s1_def s2_def)
  ultimately show ?thesis by (intro exI [of _ s1] exI [of _ s2]) (simp add: s1_def s2_def)
qed

text \<open>
  The FIFO receiver reads one stream: what it ever sends is a beginning of the entries written before
  the first moment at which no writer had the pipe open, and it does not read what later writers write.
  Without an interrupt the aggregator dies only of a failure to create the file, of a read error, or of a
  line of 64 KiB.
\<close>

theorem fifo_reads_once:
  assumes "agg_reach rw create fo ag agg_start s"
    and "ag = NewAggregator (Fifo_Receiver f)"
    and "rw_mkfifo rw (fr_fifoPath f) \<in> {Fifo_Made, Fifo_Exists}" and "rw_open_err rw (fr_fifoPath f) = None"
  shows "(\<exists>rest. map snd (as_sent s) @ rest = decoded (fst (scan_tokens (rw_stream rw)))) \<and>
    (agg_dead s \<and> \<not> ch_closed (as_events s) \<longrightarrow>
       snd (scan_tokens (rw_stream rw)) \<or> rw_stream_err rw \<noteq> None \<or> (\<exists>err. create (fo_FilePath fo) = Inl err))"
proof -
  have rc: "Receive rw (ag_receiver ag) = Serves_Source (fifo_handler rw)"
    using assms(2-4) by (auto simp: NewAggregator_def fifo_Receive_def)
  have ok: "sources_ok s" "output_ok create fo s" and life: "life_ok rw create fo ag s"
    using agg_reach_ok [OF assms(1)] agg_reach_life [OF assms(1)] by auto
  have entries: "handler_entries (fifo_handler rw) = decoded (fst (scan_tokens (rw_stream rw)))"
    by (simp add: fifo_handler_def split: prod.split)
  have fend: "handler_end (fifo_handler rw) = Some err \<Longrightarrow>
      snd (scan_tokens (rw_stream rw)) \<or> rw_stream_err rw \<noteq> None" for err
    by (simp add: fifo_handler_def split: prod.splits if_splits)
  have "as_expected s = [handler_entries (fifo_handler rw)] \<or> as_expected s = []"
    using life rc by (auto simp: life_ok_def)
  from sent_of_one [OF ok(1) this]
  have "\<exists>rest. map snd (as_sent s) @ rest = decoded (fst (scan_tokens (rw_stream rw)))"
    by (simp only: entries)
  moreover have "snd (scan_tokens (rw_stream rw)) \<or> rw_stream_err rw \<noteq> None \<or> (\<exists>err. create (fo_FilePath fo) = Inl err)"
    if "agg_dead s" "\<not> ch_closed (as_events s)"
    using that life ok(2) rc fend by (auto simp: life_ok_def output_ok_def agg_dead_def)
  ultimately show ?thesis by blast
qed


section \<open>A run\<close>

text \<open>One connection with two entries: the first is in the buffer of the writer, the second about to be sent.\<close>

definition demo_create :: "string \<Rightarrow> string + nat" where
  "demo_create path = Inr 1000000"

definition demo_file :: file_output where
  "demo_file = NewFileOutput ''aggregated_logs.jsonl''"

definition demo_aggregator :: aggregator where
  "demo_aggregator = NewAggregator (Tcp_Receiver (NewTCPSocketReceiver ''127.0.0.1:9000''))"

abbreviation demo_step :: "agg_state \<Rightarrow> agg_state \<Rightarrow> bool" where
  "demo_step \<equiv> agg_step (demo_world [] []) demo_create demo_file demo_aggregator"

abbreviation demo_reach :: "agg_state \<Rightarrow> bool" where
  "demo_reach \<equiv> agg_reach (demo_world [] []) demo_create demo_file demo_aggregator agg_start"

definition racing_state :: agg_state where
  "racing_state =
     \<lparr>as_events = make_chan 100, as_receiving = True, as_accepting = True,
      as_handlers = [Delivering (demo_entry 3) [] None], as_collector = Collecting,
      as_out = output_line (demo_entry 2) (new_writer 1000000), as_done = False, as_panicked = None,
      as_expected = [[demo_entry 2, demo_entry 3]], as_sent = [(0, demo_entry 2)],
      as_collected = [demo_entry 2]\<rparr>"

lemma demo_receive: "Receive (demo_world [] []) (ag_receiver demo_aggregator) = Serves_Connections"
  by (simp add: demo_world_def demo_aggregator_def NewAggregator_def tcp_Receive_def)

lemma demo_unmarshal: "0 \<le> n \<Longrightarrow> unmarshalAndWrite (Marshal (demo_entry n)) = Some (demo_entry n)"
  by (simp add: unmarshalAndWrite_def unmarshal_Marshal demo_entry_range demo_entry_valid)

lemma demo_handler:
  "connection_handler (frame (demo_entry 2) @ frame (demo_entry 3)) =
     Payloads [Marshal (demo_entry 2), Marshal (demo_entry 3)] None"
  using scan_frames [of "[demo_entry 2, demo_entry 3]"]
  by (simp add: connection_handler_def frame_def demo_entry_length max_scan_token_def)

lemma racing_state_reached: "demo_reach racing_state"
proof -
  let ?m3 = "Marshal (demo_entry 3)"
  define s1 where "s1 = agg_start\<lparr>as_collector := Collecting, as_out := new_writer 1000000\<rparr>"
  define s2 where "s2 = s1\<lparr>as_receiving := True, as_accepting := True\<rparr>"
  define s3 where "s3 = add_handler (connection_handler (frame (demo_entry 2) @ frame (demo_entry 3))) s2"
  define s4 where "s4 = set_handler 0 (Delivering (demo_entry 2) [?m3] None) s3"
  define s5 where "s5 = set_handler 0 (Payloads [?m3] None)
    (s4\<lparr>as_events := (as_events s4)\<lparr>ch_buf := [demo_entry 2]\<rparr>, as_sent := as_sent s4 @ [(0, demo_entry 2)]\<rparr>)"
  define s6 where "s6 = s5\<lparr>as_events := make_chan 100, as_out := output_line (demo_entry 2) (as_out s5),
    as_collected := as_collected s5 @ [demo_entry 2]\<rparr>"
  note defs = s1_def s2_def s3_def s4_def s5_def s6_def agg_start_def add_handler_def demo_handler
  note unf = defs agg_dead_def make_chan_def aggregatorBufferSize_def at_handler_def chan_iffs
  have st1: "demo_step agg_start s1"
    unfolding s1_def by (rule a_create) (simp_all add: unf demo_create_def)
  have st2: "demo_step s1 s2" unfolding s2_def by (rule a_serve [OF _ _ demo_receive]) (simp_all add: unf)
  have st3: "demo_step s2 s3" unfolding s3_def by (rule a_accept) (simp_all add: unf)
  have st4: "demo_step s3 s4"
    unfolding s4_def by (rule a_decode [of _ _ "Marshal (demo_entry 2)"]) (simp_all add: unf demo_unmarshal)
  have st5: "demo_step s4 s5" unfolding s5_def by (rule a_send) (simp_all add: unf)
  have st6: "demo_step s5 s6" unfolding s6_def by (rule a_collect) (simp_all add: unf)
  have st7: "demo_step s6 (set_handler 0 (Delivering (demo_entry 3) [] None) s6)"
    by (rule a_decode [of _ _ "Marshal (demo_entry 3)"]) (simp_all add: unf demo_unmarshal)
  have "set_handler 0 (Delivering (demo_entry 3) [] None) s6 = racing_state"
    by (simp add: defs racing_state_def make_chan_def aggregatorBufferSize_def demo_unmarshal)
  with agg_more [OF agg_more [OF agg_more [OF agg_more [OF agg_more [OF agg_more [OF agg_more
      [OF agg_refl st1] st2] st3] st4] st5] st6] st7]
  show ?thesis by simp
qed

lemma interrupt_loses_output_witness:
  "\<exists>s1 s2. demo_step racing_state s1 \<and> demo_step s1 s2 \<and> as_panicked s2 = Some ''send on closed channel'' \<and>
     fw_disk (as_out s2) = [] \<and> as_collected racing_state = [demo_entry 2]"
proof -
  have disk: "fw_disk (as_out racing_state) = []"
    by (simp add: racing_state_def output_line_def write_string_def new_writer_def demo_entry_length writer_size_def)
  have col: "as_collected racing_state = [demo_entry 2]" by (simp add: racing_state_def)
  have "\<not> agg_dead racing_state" "\<not> ch_closed (as_events racing_state)"
    "at_handler racing_state 0 (Delivering (demo_entry 3) [] None)"
    by (simp_all add: racing_state_def agg_dead_def make_chan_def at_handler_def)
  from interrupt_loses_output [OF racing_state_reached this] show ?thesis
    unfolding disk col by metis
qed

lemma connections_cannot_stop_witness:
  "agg_dead racing_state \<longrightarrow> ch_closed (as_events racing_state)"
  using connections_cannot_stop [OF racing_state_reached demo_receive] by (simp add: demo_create_def)

lemma aggregator_exit_file_witness:
  "\<exists>s. demo_reach s \<and> as_done s \<and>
     fw_disk (as_out s) = Marshal (demo_entry 2) @ [nl] @ Marshal (demo_entry 3) @ [nl]"
proof -
  let ?r = racing_state
  define s1 where "s1 = set_handler 0 (Payloads [] None) (?r\<lparr>as_events := (as_events ?r)\<lparr>ch_buf := [demo_entry 3]\<rparr>,
    as_sent := as_sent ?r @ [(0, demo_entry 3)]\<rparr>)"
  define s2 where "s2 = s1\<lparr>as_events := (as_events s1)\<lparr>ch_closed := True\<rparr>\<rparr>"
  define s3 where "s3 = s2\<lparr>as_events := (as_events s2)\<lparr>ch_buf := []\<rparr>,
    as_out := output_line (demo_entry 3) (as_out s2), as_collected := as_collected s2 @ [demo_entry 3]\<rparr>"
  define s4 where "s4 = s3\<lparr>as_collector := Collected, as_out := writer_flush (as_out s3), as_done := True\<rparr>"
  note defs = s1_def s2_def s3_def s4_def racing_state_def
  note unf = defs agg_dead_def make_chan_def at_handler_def chan_iffs
  have st1: "demo_step ?r s1" unfolding s1_def by (rule a_send) (simp_all add: unf)
  have st2: "demo_step s1 s2" unfolding s2_def by (rule a_interrupt) (simp_all add: unf)
  have st3: "demo_step s2 s3" unfolding s3_def by (rule a_collect) (simp_all add: unf)
  have st4: "demo_step s3 s4" unfolding s4_def by (rule a_finish) (simp_all add: unf)
  have reach: "demo_reach s4"
    by (rule agg_more [OF agg_more [OF agg_more [OF agg_more [OF racing_state_reached st1] st2] st3] st4])
  have d: "as_done s4" by (simp add: s4_def)
  have sent: "map snd (as_sent s4) = [demo_entry 2, demo_entry 3]" by (simp add: defs)
  have "fw_disk (as_out s4) = take 1000000 (concat (map frame [demo_entry 2, demo_entry 3]))"
    using aggregator_exit_file [OF reach] d unfolding sent by (auto simp: demo_create_def)
  then have "fw_disk (as_out s4) = Marshal (demo_entry 2) @ [nl] @ Marshal (demo_entry 3) @ [nl]"
    by (simp add: frame_def demo_entry_length)
  with reach d show ?thesis by blast
qed

lemma fifo_reads_once_witness:
  "\<exists>s rw. agg_reach rw demo_create demo_file (NewAggregator (Fifo_Receiver (NewFIFOReceiver ''/tmp/log_fifo'')))
     agg_start s \<and> as_receiving s \<and> (\<exists>rest. map snd (as_sent s) @ rest = [demo_entry 2])"
proof -
  let ?ag = "NewAggregator (Fifo_Receiver (NewFIFOReceiver ''/tmp/log_fifo''))"
  let ?rw = "demo_world (frame (demo_entry 2)) []"
  have scan: "scan_tokens (frame (demo_entry 2)) = ([Marshal (demo_entry 2)], False)"
    using scan_frames [of "[demo_entry 2]"] by (simp add: frame_def demo_entry_length max_scan_token_def)
  have "Receive ?rw (ag_receiver ?ag) = Serves_Source (fifo_handler ?rw)"
    by (simp add: NewAggregator_def fifo_Receive_def demo_world_def)
  then have "agg_step ?rw demo_create demo_file ?ag agg_start
      (add_handler (fifo_handler ?rw) (agg_start\<lparr>as_receiving := True\<rparr>))"
    by (intro a_source) (simp_all add: agg_start_def agg_dead_def)
  then have reach: "agg_reach ?rw demo_create demo_file ?ag agg_start
      (add_handler (fifo_handler ?rw) (agg_start\<lparr>as_receiving := True\<rparr>))"
    by (rule agg_more [OF agg_refl])
  moreover have "\<exists>rest. map snd (as_sent (add_handler (fifo_handler ?rw) (agg_start\<lparr>as_receiving := True\<rparr>))) @ rest =
      [demo_entry 2]"
    using fifo_reads_once [OF reach refl] demo_unmarshal [of 2] by (simp add: demo_world_def scan)
  moreover have "as_receiving (add_handler (fifo_handler ?rw) (agg_start\<lparr>as_receiving := True\<rparr>))"
    by (simp add: add_handler_def)
  ultimately show ?thesis by blast
qed

end
