(* ===== verification/Log_Ipc.thy ===== *)
theory Log_Ipc
  imports Log_Aggregator
begin

text \<open>
  \<open>log-aggregator/pkg/ipc/ipc_repo.go\<close> and the two commands.  The table of IPC types is a global of the
  program whose values point to producers, so \<open>GetProducer\<close> writes to an object that every later caller gets
  as well: the objects are a list, and a pointer is a position in it.
\<close>

section \<open>The table\<close>

record ipc =
  ipc_producer :: "nat option"
  ipc_aggregator :: "aggregator option"

record ipc_repo =
  ir_producers :: "producer list"
  ir_types :: "string \<rightharpoonup> ipc"

definition socketPath :: string where "socketPath = ''/tmp/log.sock''"
definition networkAddress :: string where "networkAddress = ''127.0.0.1:9000''"
definition fifoPath :: string where "fifoPath = ''/tmp/log_fifo''"
definition outputFilePath :: string where "outputFilePath = ''aggregated_logs.jsonl''"
definition defaultMessageSize :: int where "defaultMessageSize = 100"

definition ipc_entry :: "nat \<Rightarrow> receiver \<Rightarrow> ipc" where
  "ipc_entry i r = \<lparr>ipc_producer = Some i, ipc_aggregator = Some (NewAggregator r)\<rparr>"

definition ipcTypes :: ipc_repo where
  "ipcTypes =
     \<lparr>ir_producers =
        [NewProducer (Unix_Socket_Publisher (NewUnixSocketPublisher socketPath)) defaultMessageSize,
         NewProducer (Tcp_Publisher (NewTCPSocketPublisher networkAddress)) defaultMessageSize,
         NewProducer (Unix_Datagram_Publisher (NewUnixDatagramSocketPublisher socketPath)) defaultMessageSize,
         NewProducer (Udp_Publisher (NewUDPSocketPublisher networkAddress)) defaultMessageSize,
         NewProducer (Fifo_Publisher (NewFIFOPublisher fifoPath)) defaultMessageSize],
      ir_types = map_of
        [(''unixsock'', ipc_entry 0 (Unix_Socket_Receiver (NewUnixSocketReceiver socketPath))),
         (''tcp'', ipc_entry 1 (Tcp_Receiver (NewTCPSocketReceiver networkAddress))),
         (''unixgram'', ipc_entry 2 (Unix_Datagram_Receiver (NewUnixDatagramSocketReceiver socketPath))),
         (''udp'', ipc_entry 3 (Udp_Receiver (NewUDPSocketReceiver networkAddress))),
         (''fifo'', ipc_entry 4 (Fifo_Receiver (NewFIFOReceiver fifoPath)))]\<rparr>"

definition getIPC :: "ipc_repo \<Rightarrow> string \<Rightarrow> ipc option" where
  "getIPC repo ipcType = ir_types repo ipcType"

definition GetAggregator :: "ipc_repo \<Rightarrow> string \<Rightarrow> aggregator option" where
  "GetAggregator repo ipcType =
     (case getIPC repo ipcType of None \<Rightarrow> None | Some i \<Rightarrow> ipc_aggregator i)"

definition GetProducer :: "ipc_repo \<Rightarrow> string \<Rightarrow> int \<Rightarrow> nat option \<times> ipc_repo" where
  "GetProducer repo ipcType messageSize =
     (case getIPC repo ipcType of
        None \<Rightarrow> (None, repo)
      | Some i \<Rightarrow>
          (case ipc_producer i of
             None \<Rightarrow> (None, repo)
           | Some p \<Rightarrow>
               (Some p, repo\<lparr>ir_producers :=
                  (ir_producers repo)[p := (ir_producers repo ! p)\<lparr>pr_messageSize := messageSize\<rparr>]\<rparr>)))"

section \<open>Commands\<close>

definition is_decimal :: "char \<Rightarrow> bool" where
  "is_decimal c \<longleftrightarrow> is_digit (of_char c)"

text \<open>
  \<open>fmt.Sscanf(s, "%d", &n)\<close> on ASCII text: blanks, a sign, and digits up to the first other character; what
  follows them is ignored.  A newline among the blanks, no digit, or a number beyond 64 bits is an error.
\<close>

fun skip_blanks :: "string \<Rightarrow> string option" where
  "skip_blanks [] = Some []"
| "skip_blanks (c # cs) =
     (if c = CHR 0x0A then None
      else if c \<in> {CHR '' '', CHR 0x09, CHR 0x0B, CHR 0x0C, CHR 0x0D} then skip_blanks cs
      else Some (c # cs))"

definition scan_decimal :: "string \<Rightarrow> int option" where
  "scan_decimal s =
     (case skip_blanks s of
        None \<Rightarrow> None
      | Some t \<Rightarrow>
          (let neg = (t \<noteq> [] \<and> hd t = CHR ''-'');
               u = (if t \<noteq> [] \<and> hd t \<in> {CHR ''-'', CHR ''+''} then tl t else t);
               ds = takeWhile is_decimal u;
               n = (if neg then - int (read_nat ds) else int (read_nat ds))
           in if ds = [] \<or> \<not> int64_range n then None else Some n))"

datatype 'a main_outcome = Exits int string | Runs 'a

definition producer_main :: "ipc_repo \<Rightarrow> string list \<Rightarrow> producer main_outcome" where
  "producer_main repo args =
     (if length args < 3 then Exits 1 ''Usage''
      else
        (case scan_decimal (args ! 2) of
           None \<Rightarrow> Exits 1 ''Invalid message size''
         | Some messageSize \<Rightarrow>
             if messageSize \<le> 0 then Exits 1 ''Invalid message size''
             else
               (case GetProducer repo (args ! 1) messageSize of
                  (None, _) \<Rightarrow> Exits 1 ''Unknown IPC type''
                | (Some p, repo') \<Rightarrow> Runs (ir_producers repo' ! p))))"

definition aggregator_main :: "ipc_repo \<Rightarrow> string list \<Rightarrow> aggregator main_outcome" where
  "aggregator_main repo args =
     (if length args < 2 then Exits 1 ''Usage''
      else
        (case GetAggregator repo (args ! 1) of
           None \<Rightarrow> Exits 1 ''Unknown IPC type''
         | Some agg \<Rightarrow> Runs agg))"

section \<open>Properties\<close>

text \<open>The kind of the transport and its address, as each end has it.\<close>

fun publisher_end :: "publisher \<Rightarrow> string \<times> string" where
  "publisher_end (Unix_Socket_Publisher p) = (''unix'', usp_socketPath p)"
| "publisher_end (Unix_Datagram_Publisher p) = (''unixgram'', udp_socketPath p)"
| "publisher_end (Fifo_Publisher p) = (''fifo'', fp_fifoPath p)"
| "publisher_end (Tcp_Publisher p) = (''tcp'', tsp_address p)"
| "publisher_end (Udp_Publisher p) = (''udp'', usp_address p)"

fun receiver_end :: "receiver \<Rightarrow> string \<times> string" where
  "receiver_end (Unix_Socket_Receiver r) = (''unix'', usr_Path r)"
| "receiver_end (Unix_Datagram_Receiver r) = (''unixgram'', udr_socketPath r)"
| "receiver_end (Fifo_Receiver r) = (''fifo'', fr_fifoPath r)"
| "receiver_end (Tcp_Receiver r) = (''tcp'', tsr_address r)"
| "receiver_end (Udp_Receiver r) = (''udp'', usr_address r)"

definition ipc_names :: "string list" where
  "ipc_names = [''unixsock'', ''tcp'', ''unixgram'', ''udp'', ''fifo'']"

lemma ipc_lookup:
  "getIPC ipcTypes name \<noteq> None \<longleftrightarrow> name \<in> set ipc_names"
  by (auto simp: getIPC_def ipcTypes_def ipc_names_def)

definition ends_match :: "string \<Rightarrow> nat \<Rightarrow> receiver \<Rightarrow> bool" where
  "ends_match name p r \<longleftrightarrow>
     getIPC ipcTypes name = Some (ipc_entry p r) \<and> p < 5 \<and>
     publisher_end (pr_publisher (ir_producers ipcTypes ! p)) = receiver_end r"

lemma ipc_ends_match:
  "ends_match ''unixsock'' 0 (Unix_Socket_Receiver (NewUnixSocketReceiver socketPath))"
  "ends_match ''tcp'' 1 (Tcp_Receiver (NewTCPSocketReceiver networkAddress))"
  "ends_match ''unixgram'' 2 (Unix_Datagram_Receiver (NewUnixDatagramSocketReceiver socketPath))"
  "ends_match ''udp'' 3 (Udp_Receiver (NewUDPSocketReceiver networkAddress))"
  "ends_match ''fifo'' 4 (Fifo_Receiver (NewFIFOReceiver fifoPath))"
  by (simp_all add: ends_match_def getIPC_def ipcTypes_def NewProducer_def
      NewUnixSocketPublisher_def NewUnixSocketReceiver_def
      NewTCPSocketPublisher_def NewTCPSocketReceiver_def
      NewUnixDatagramSocketPublisher_def NewUnixDatagramSocketReceiver_def
      NewUDPSocketPublisher_def NewUDPSocketReceiver_def
      NewFIFOPublisher_def NewFIFOReceiver_def)

lemma ipc_ends:
  assumes "name \<in> set ipc_names"
  shows "\<exists>p r. ends_match name p r"
proof -
  have "name = ''unixsock'' \<or> name = ''tcp'' \<or> name = ''unixgram'' \<or> name = ''udp'' \<or> name = ''fifo''"
    using assms by (simp only: ipc_names_def list.set insert_iff empty_iff simp_thms)
  then show ?thesis by (elim disjE) (use ipc_ends_match in metis)+
qed

lemma length_producers: "length (ir_producers ipcTypes) = 5"
  by (simp add: ipcTypes_def)

text \<open>
  The two commands agree: whenever the producer command runs a producer and the aggregator command is
  given the same IPC type, it runs an aggregator at the other end of the same transport and address; the
  producer has a positive message size, so that its message is made without a panic and has that size;
  and an unknown type, a missing argument or a size that is not a positive number makes the command exit
  with status 1.
\<close>

theorem commands_agree:
  "(\<exists>msg. producer_main ipcTypes args = Exits 1 msg \<and>
      (length args < 3 \<or> args ! 1 \<notin> set ipc_names \<or> (\<forall>n. scan_decimal (args ! 2) = Some n \<longrightarrow> n \<le> 0))) \<or>
   (\<exists>p agg n msg. 3 \<le> length args \<and> scan_decimal (args ! 2) = Some n \<and> 0 < n \<and>
      producer_main ipcTypes args = Runs p \<and> aggregator_main ipcTypes args = Runs agg \<and>
      publisher_end (pr_publisher p) = receiver_end (ag_receiver agg) \<and>
      pr_messageSize p = n \<and> MessageOfSize (pr_messageSize p) = Some msg \<and> length msg = nat n)"
proof (cases "length args < 3 \<or> args ! 1 \<notin> set ipc_names \<or> (\<forall>n. scan_decimal (args ! 2) = Some n \<longrightarrow> n \<le> 0)")
  case True
  then have "\<exists>msg. producer_main ipcTypes args = Exits 1 msg"
    using ipc_lookup [of "args ! 1"] by (auto simp: producer_main_def GetProducer_def split: option.splits)
  with True show ?thesis by blast
next
  case False
  then obtain n where n: "scan_decimal (args ! 2) = Some n" "0 < n" and len: "3 \<le> length args"
    and name: "args ! 1 \<in> set ipc_names"
    by fastforce
  obtain p r where e: "getIPC ipcTypes (args ! 1) = Some (ipc_entry p r)" "p < 5"
    and ends: "publisher_end (pr_publisher (ir_producers ipcTypes ! p)) = receiver_end r"
    using ipc_ends [OF name] unfolding ends_match_def by metis
  let ?p = "(ir_producers ipcTypes ! p)\<lparr>pr_messageSize := n\<rparr>"
  have run: "producer_main ipcTypes args = Runs ?p"
    using n len e length_producers by (simp add: producer_main_def GetProducer_def ipc_entry_def)
  have agg: "aggregator_main ipcTypes args = Runs (NewAggregator r)"
    using len e by (simp add: aggregator_main_def GetAggregator_def ipc_entry_def)
  obtain msg where msg: "MessageOfSize n = Some msg" using n(2) MessageOfSize_Some [of n] by auto
  have "length msg = nat n" by (rule MessageOfSize_length [OF msg])
  moreover have "publisher_end (pr_publisher ?p) = receiver_end (ag_receiver (NewAggregator r))"
    using ends by (simp add: NewAggregator_def)
  ultimately show ?thesis
    using n len run agg msg by (intro disjI2 exI [of _ ?p] exI [of _ "NewAggregator r"] exI [of _ n] exI [of _ msg]) simp
qed

text \<open>
  Two callers that ask for the same type get the same object: the second size is the one both will run
  with, and no other producer changes.
\<close>

lemma get_producer_shared:
  assumes "GetProducer repo name m = (Some a, repo1)" and "GetProducer repo1 name n = (Some b, repo2)"
    and "a < length (ir_producers repo)"
  shows "a = b \<and> pr_messageSize (ir_producers repo2 ! a) = n \<and>
    (\<forall>i. i \<noteq> a \<longrightarrow> ir_producers repo2 ! i = ir_producers repo ! i)"
  using assms by (auto simp: GetProducer_def getIPC_def split: option.splits)

lemma scan_64: "scan_decimal '' 64kB'' = Some 64"
  by code_simp

lemma scan_bad: "scan_decimal ''kB'' = None" "scan_decimal ''-5'' = Some (- 5)"
  by code_simp+

lemma commands_agree_witness:
  "\<exists>p agg. producer_main ipcTypes [''producer'', ''tcp'', '' 64kB''] = Runs p \<and>
     aggregator_main ipcTypes [''producer'', ''tcp'', '' 64kB''] = Runs agg \<and>
     publisher_end (pr_publisher p) = receiver_end (ag_receiver agg) \<and> pr_messageSize p = 64"
proof -
  let ?args = "[''producer'', ''tcp'', '' 64kB'']"
  have at: "?args ! 2 = '' 64kB''" "?args ! 1 = ''tcp''" "\<not> length ?args < 3" by simp_all
  have name: "''tcp'' \<in> set ipc_names" by (simp add: ipc_names_def)
  have no: "\<not> (length ?args < 3 \<or> ?args ! 1 \<notin> set ipc_names \<or> (\<forall>n. scan_decimal (?args ! 2) = Some n \<longrightarrow> n \<le> 0))"
    unfolding at scan_64 using name at(3) by simp
  show ?thesis
    using commands_agree [of ?args] no unfolding at scan_64 by auto
qed

end
