(* ===== verification/Log_System.thy ===== *)
theory Log_System
  imports Log_Ipc "HOL-Library.Sublist"
begin

text \<open>
  The log aggregator from end to end (\<open>cmd/producer/main.go\<close>, \<open>pkg/ipc\<close>, \<open>pkg/publisher\<close>, \<open>pkg/receiver\<close>, \<open>cmd/aggregator/main.go\<close>):
  a producer that has run to its end, and the aggregator that has read what it sent and exited: over a stream socket, where its
  connection is one among others, and over datagrams, of which the network delivers some.  The theorems compose those of the parts.
\<close>

section \<open>Lengths\<close>

lemma show_nat_length: "n < 10 ^ k \<Longrightarrow> 0 < k \<Longrightarrow> length (show_nat n) \<le> k"
proof (induction n arbitrary: k rule: show_nat.induct)
  case (1 n)
  show ?case
  proof (cases "n < 10")
    case True
    then show ?thesis using 1 by (subst show_nat.simps) simp
  next
    case False
    then obtain j where k: "k = Suc j" "0 < j" using "1.prems" by (cases k; cases "k - 1") auto
    then have "n div 10 < 10 ^ j" using "1.prems" by (simp add: div_less_iff_less_mult mult.commute)
    then have "length (show_nat (n div 10)) \<le> j" using "1.IH" False k(2) by blast
    then show ?thesis using False k by (subst show_nat.simps) simp
  qed
qed

lemma show_int_length: "int64_range t \<Longrightarrow> length (show_int t) \<le> 20"
  using show_nat_length [of "nat (- t)" 19] show_nat_length [of "nat t" 19]
  by (auto simp: show_int_def int64_range_def nat_less_iff)

text \<open>Every line of a producer whose message has at most 65453 bytes fits the scanner.\<close>

lemma producer_line_fits:
  assumes "MessageOfSize n = Some msg" and "n \<le> 65453" and "int64_range t"
  shows "length (Marshal (producer_entry msg t)) < max_scan_token"
  using producer_entry_length [OF assms(1), of t] show_int_length [OF assms(3)] assms(2)
  by (simp add: max_scan_token_def)

section \<open>One connection\<close>

text \<open>What the goroutine of a connection gets from a producer that has returned.\<close>

lemma producer_stream_entries:
  assumes start: "prod_start pr = Some (msg, s0)" and put: "nw_put nw = stream_put"
    and reach: "prod_reach nw (pr_publisher pr) msg s0 s" and ret: "ps_loop s = Run_Returned"
    and fresh: "\<And>c0. connect nw (pr_publisher pr) = Inr c0 \<Longrightarrow> sc_sent c0 = []"
    and c: "ps_conn s = Some c" and small: "pr_messageSize pr \<le> 65453"
  shows "handler_entries (connection_handler (sc_sent c)) = ps_ticked s"
proof -
  let ?es = "ps_ticked s"
  have msg: "MessageOfSize (pr_messageSize pr) = Some msg"
    using start by (simp add: prod_start_def split: option.splits)
  have ok: "stream.prod_ok nw (pr_publisher pr) msg s"
    by (rule stream.prod_reach_ok [OF reach put stream.prod_start_ok [OF start]])
  then have es: "\<forall>e \<in> set ?es. \<exists>t. int64_range t \<and> e = producer_entry msg t" by (simp add: stream.prod_ok_def)
  obtain c' c0 where cn: "connect nw (pr_publisher pr) = Inr c0" "ps_conn s = Some c'"
    "sc_sent c' = sc_sent c0 @ stream.sends ?es"
    using stream.prod_returned [OF ok ret] by blast
  then have sent: "sc_sent c = concat (map (\<lambda>l. l @ [nl]) (map Marshal ?es))"
    using c fresh [OF cn(1)] by (simp only: option.inject append_Nil stream_sends)
  have each: "length (Marshal e) < max_scan_token" "int64_range (Timestamp e)" "valid_entry e = e" if e: "e \<in> set ?es" for e
  proof -
    obtain t where t: "int64_range t" "e = producer_entry msg t" using es e by auto
    show "length (Marshal e) < max_scan_token" unfolding t(2) by (rule producer_line_fits [OF msg small t(1)])
    show "int64_range (Timestamp e)" unfolding t(2) using t(1) by (simp add: producer_entry_def)
    show "valid_entry e = e" unfolding t(2) by (rule producer_entry_valid [OF msg])
  qed
  have all: "takeWhile (\<lambda>e. length (Marshal e) < max_scan_token) ?es = ?es"
    by (simp add: takeWhile_eq_all_conv each(1))
  have range: "in_range ?es" using each(2) by blast
  have "map valid_entry ?es = ?es" by (rule map_idI) (rule each(3))
  then show ?thesis
    unfolding connection_handler_def sent scan_frames all by (simp add: decoded_Marshal [OF range])
qed

text \<open>What is received of a producer's datagrams when the network delivers some of them, in some order.\<close>

lemma producer_datagram_entries:
  assumes start: "prod_start pr = Some (msg, s0)" and put: "nw_put nw = dgram_put"
    and reach: "prod_reach nw (pr_publisher pr) msg s0 s" and ret: "ps_loop s = Run_Returned"
    and fresh: "\<And>c0. connect nw (pr_publisher pr) = Inr c0 \<Longrightarrow> dg_sent c0 = []" and c: "ps_conn s = Some c"
    and order: "rw_datagrams rw = map (\<lambda>i. dg_sent c ! i) order" "\<forall>i \<in> set order. i < length (dg_sent c)"
  shows "handler_entries (datagram_handler rw) =
      filter (\<lambda>e. length (Marshal e) \<le> 8192) (map (\<lambda>i. ps_ticked s ! i) order)"
    and "\<forall>e \<in> set (map (\<lambda>i. ps_ticked s ! i) order). \<exists>t. int64_range t \<and> e = producer_entry msg t"
proof -
  have msg: "MessageOfSize (pr_messageSize pr) = Some msg"
    using start by (simp add: prod_start_def split: option.splits)
  have ok: "dgram.prod_ok nw (pr_publisher pr) msg s"
    by (rule dgram.prod_reach_ok [OF reach put dgram.prod_start_ok [OF start]])
  obtain c' c0 where "connect nw (pr_publisher pr) = Inr c0" "ps_conn s = Some c'"
    "dg_sent c' = dg_sent c0 @ dgram.sends (ps_ticked s)"
    using dgram.prod_returned [OF ok ret] by blast
  then have sent: "dg_sent c = map frame (ps_ticked s)" using c fresh dgram_sends [of "ps_ticked s"] by simp
  let ?es = "map (\<lambda>i. ps_ticked s ! i) order"
  have sub: "set ?es \<subseteq> set (ps_ticked s)" using order(2) by (auto simp: sent)
  show es: "\<forall>e \<in> set ?es. \<exists>t. int64_range t \<and> e = producer_entry msg t" using ok sub by (auto simp: dgram.prod_ok_def)
  then have each: "int64_range (Timestamp e)" "valid_entry e = e" if "e \<in> set ?es" for e
    using that producer_entry_valid [OF msg] by (auto simp: producer_entry_def)
  have "rw_datagrams rw = map frame ?es" using order by (simp add: sent)
  moreover have "map valid_entry (filter P ?es) = filter P ?es" for P
    by (rule map_idI) (use each(2) in \<open>auto simp only: set_filter mem_Collect_eq\<close>)
  ultimately show "handler_entries (datagram_handler rw) = filter (\<lambda>e. length (Marshal e) \<le> 8192) ?es"
    using decoded_frames [of ?es] each(1) by (simp only: datagram_handler_def handler_entries.simps) (simp add: datagram_buffer_def)
qed

lemma sent_by_subseq: "subseq (sent_by i a) (map snd (as_sent a))"
  unfolding sent_by_def by (intro subseq_map) simp

lemma done_file:
  assumes "agg_reach rw create fo ag agg_start a" and "as_done a"
  shows "\<exists>space. create (fo_FilePath fo) = Inr space \<and> fw_disk (as_out a) = take space (concat (map frame (map snd (as_sent a))))"
proof -
  have ok: "output_ok create fo a" using agg_reach_ok [OF assms(1)] by simp
  then have "as_collected a = map snd (as_sent a)" using assms(2) by (auto simp: output_ok_def)
  with ok assms(2) show ?thesis by (auto simp: output_ok_def)
qed

section \<open>Properties\<close>




section \<open>A run\<close>

lemma one_payload_run:
  assumes h: "h = Payloads [m] en" and e: "unmarshalAndWrite m = Some e"
    and reach: "agg_reach rw demo_create demo_file ag agg_start (add_handler h (agg_start\<lparr>as_collector := Collecting,
      as_out := new_writer 1000000, as_receiving := True, as_accepting := b\<rparr>))"
  obtains a where "agg_reach rw demo_create demo_file ag agg_start a" and "as_handlers a = [Payloads [] en]"
    and "as_expected a = [handler_entries h]" and "as_done a" and "map snd (as_sent a) = [e]"
proof -
  define s3 where "s3 = add_handler h (agg_start\<lparr>as_collector := Collecting,
    as_out := new_writer 1000000, as_receiving := True, as_accepting := b\<rparr>)"
  define s4 where "s4 = set_handler 0 (Delivering e [] en) s3"
  define s5 where "s5 = set_handler 0 (Payloads [] en)
    (s4\<lparr>as_events := (as_events s4)\<lparr>ch_buf := [e]\<rparr>, as_sent := as_sent s4 @ [(0, e)]\<rparr>)"
  define s6 where "s6 = s5\<lparr>as_events := (as_events s5)\<lparr>ch_closed := True\<rparr>\<rparr>"
  define s7 where "s7 = s6\<lparr>as_events := (as_events s6)\<lparr>ch_buf := []\<rparr>,
    as_out := output_line e (as_out s6), as_collected := as_collected s6 @ [e]\<rparr>"
  define s8 where "s8 = s7\<lparr>as_collector := Collected, as_out := writer_flush (as_out s7), as_done := True\<rparr>"
  note defs = s3_def s4_def s5_def s6_def s7_def s8_def agg_start_def add_handler_def h
  note unf = defs agg_dead_def make_chan_def aggregatorBufferSize_def at_handler_def chan_iffs
  let ?step = "agg_step rw demo_create demo_file ag"
  have st4: "?step s3 s4" unfolding s4_def by (rule a_decode [of _ _ m]) (simp_all add: unf e)
  have st5: "?step s4 s5" unfolding s5_def by (rule a_send) (simp_all add: unf)
  have st6: "?step s5 s6" unfolding s6_def by (rule a_interrupt) (simp_all add: unf)
  have st7: "?step s6 s7" unfolding s7_def by (rule a_collect) (simp_all add: unf)
  have st8: "?step s7 s8" unfolding s8_def by (rule a_finish) (simp_all add: unf)
  have "agg_reach rw demo_create demo_file ag agg_start s8"
    by (rule agg_more [OF agg_more [OF agg_more [OF agg_more [OF agg_more [OF reach [folded s3_def] st4] st5] st6] st7] st8])
  then show ?thesis by (rule that) (simp_all add: unf e)
qed

text \<open>The collector creates its file, and the receiver then accepts a connection or serves its one source.\<close>

lemma receiving_run:
  shows "Receive rw (ag_receiver ag) = Serves_Connections \<Longrightarrow>
      agg_reach rw demo_create demo_file ag agg_start (add_handler (connection_handler stream) (agg_start\<lparr>as_collector := Collecting,
        as_out := new_writer 1000000, as_receiving := True, as_accepting := True\<rparr>))"
    and "Receive rw (ag_receiver ag) = Serves_Source h \<Longrightarrow>
      agg_reach rw demo_create demo_file ag agg_start (add_handler h (agg_start\<lparr>as_collector := Collecting,
        as_out := new_writer 1000000, as_receiving := True, as_accepting := False\<rparr>))"
proof -
  let ?step = "agg_step rw demo_create demo_file ag"
  let ?s1 = "agg_start\<lparr>as_collector := Collecting, as_out := new_writer 1000000\<rparr>"
  have "?step agg_start ?s1" by (rule a_create) (simp_all add: agg_start_def agg_dead_def demo_create_def)
  then have r1: "agg_reach rw demo_create demo_file ag agg_start ?s1" by (rule agg_more [OF agg_refl])
  have alive: "\<not> agg_dead ?s1" "\<not> as_receiving ?s1" by (simp_all add: agg_start_def agg_dead_def)
  show "agg_reach rw demo_create demo_file ag agg_start (add_handler (connection_handler stream) (agg_start\<lparr>as_collector := Collecting,
      as_out := new_writer 1000000, as_receiving := True, as_accepting := True\<rparr>))"
    if serves: "Receive rw (ag_receiver ag) = Serves_Connections"
  proof -
    have r2: "agg_reach rw demo_create demo_file ag agg_start (?s1\<lparr>as_receiving := True, as_accepting := True\<rparr>)"
      by (rule agg_more [OF r1 a_serve [OF alive serves]])
    have "?step (?s1\<lparr>as_receiving := True, as_accepting := True\<rparr>)
        (add_handler (connection_handler stream) (?s1\<lparr>as_receiving := True, as_accepting := True\<rparr>))"
      by (rule a_accept) (simp_all add: agg_start_def agg_dead_def)
    with r2 show ?thesis using agg_more by fastforce
  qed
  show "agg_reach rw demo_create demo_file ag agg_start (add_handler h (agg_start\<lparr>as_collector := Collecting,
      as_out := new_writer 1000000, as_receiving := True, as_accepting := False\<rparr>))"
    if serves: "Receive rw (ag_receiver ag) = Serves_Source h"
  proof -
    have "?s1\<lparr>as_receiving := True\<rparr> = ?s1\<lparr>as_receiving := True, as_accepting := False\<rparr>" by (simp add: agg_start_def)
    then show ?thesis using agg_more [OF r1 a_source [OF alive serves]] by simp
  qed
qed

lemma demo_commands:
  "producer_main ipcTypes [''p'', ''unixsock'', ''2''] = Runs (NewProducer demo_publisher 2)"
  "aggregator_main ipcTypes [''a'', ''unixsock''] = Runs (NewAggregator (Unix_Socket_Receiver (NewUnixSocketReceiver socketPath)))"
proof -
  have "scan_decimal ''2'' = Some 2" by code_simp
  then show "producer_main ipcTypes [''p'', ''unixsock'', ''2''] = Runs (NewProducer demo_publisher 2)"
    by (simp add: producer_main_def GetProducer_def getIPC_def ipcTypes_def ipc_entry_def demo_publisher_def NewProducer_def
        socketPath_def)
  show "aggregator_main ipcTypes [''a'', ''unixsock''] =
      Runs (NewAggregator (Unix_Socket_Receiver (NewUnixSocketReceiver socketPath)))"
    by (simp add: aggregator_main_def GetAggregator_def getIPC_def ipcTypes_def ipc_entry_def)
qed


lemma datagram_commands:
  "producer_main ipcTypes [''p'', ''udp'', ''2''] = Runs (NewProducer (Udp_Publisher (NewUDPSocketPublisher networkAddress)) 2)"
  "aggregator_main ipcTypes [''a'', ''udp''] = Runs (NewAggregator (Udp_Receiver (NewUDPSocketReceiver networkAddress)))"
proof -
  have "scan_decimal ''2'' = Some 2" by code_simp
  then show "producer_main ipcTypes [''p'', ''udp'', ''2''] = Runs (NewProducer (Udp_Publisher (NewUDPSocketPublisher networkAddress)) 2)"
    by (simp add: producer_main_def GetProducer_def getIPC_def ipcTypes_def ipc_entry_def NewProducer_def)
  show "aggregator_main ipcTypes [''a'', ''udp''] = Runs (NewAggregator (Udp_Receiver (NewUDPSocketReceiver networkAddress)))"
    by (simp add: aggregator_main_def GetAggregator_def getIPC_def ipcTypes_def ipc_entry_def)
qed


end
