(* ===== verification/Lab_Counters.thy ===== *)
theory Lab_Counters
  imports Go_Env
begin

text \<open>
  \<open>labs/0104-go-atomics-vs-mutex-contention/counter.go\<close> and
  \<open>labs/0105-go-locking-vs-channels/counter.go\<close>: workers that increment a shared counter for ever, and a
  reporter.  In the first lab the increment is one atomic instruction, or a load and a store under a
  mutex; in the second it is an atomic addition under a mutex, or done by an owner goroutine on request
  over an unbuffered channel.  \<open>cs_ops\<close> counts the increments that are finished.
\<close>

section \<open>State\<close>

datatype worker_pc = Outside | Holding | Loaded u64 | Unlocking

datatype owner_pc = Owner_Receiving | Owner_Adding

record counter_state =
  cs_counter :: u64
  cs_mutex :: "nat option"
  cs_workers :: "worker_pc list"
  cs_owner :: owner_pc
  cs_requests :: nat
  cs_ops :: nat
  cs_last :: u64
  cs_reports :: "u64 list"

definition counter_start :: "int \<Rightarrow> counter_state" where
  "counter_start workers =
     \<lparr>cs_counter = 0, cs_mutex = None, cs_workers = replicate (nat workers) Outside,
      cs_owner = Owner_Receiving, cs_requests = 0, cs_ops = 0, cs_last = 0, cs_reports = []\<rparr>"

abbreviation set_worker :: "nat \<Rightarrow> worker_pc \<Rightarrow> counter_state \<Rightarrow> counter_state" where
  "set_worker i p s \<equiv> s\<lparr>cs_workers := (cs_workers s)[i := p]\<rparr>"

definition at_worker :: "counter_state \<Rightarrow> nat \<Rightarrow> worker_pc \<Rightarrow> bool" where
  "at_worker s i p \<longleftrightarrow> i < length (cs_workers s) \<and> cs_workers s ! i = p"

text \<open>One tick of the reporter: it prints what was added since the last one.\<close>

definition report :: "counter_state \<Rightarrow> counter_state" where
  "report s = s\<lparr>cs_reports := cs_reports s @ [cs_counter s - cs_last s], cs_last := cs_counter s\<rparr>"

section \<open>The two programs\<close>

inductive contention_step :: "string \<Rightarrow> counter_state \<Rightarrow> counter_state \<Rightarrow> bool" for mode where
  ct_lock: "mode = ''mutex'' \<Longrightarrow> at_worker s i Outside \<Longrightarrow> cs_mutex s = None \<Longrightarrow>
    contention_step mode s (set_worker i Holding (s\<lparr>cs_mutex := Some i\<rparr>))"
| ct_load: "mode = ''mutex'' \<Longrightarrow> at_worker s i Holding \<Longrightarrow>
    contention_step mode s (set_worker i (Loaded (cs_counter s)) s)"
| ct_store: "mode = ''mutex'' \<Longrightarrow> at_worker s i (Loaded v) \<Longrightarrow>
    contention_step mode s (set_worker i Unlocking (s\<lparr>cs_counter := v + 1, cs_ops := cs_ops s + 1\<rparr>))"
| ct_unlock: "mode = ''mutex'' \<Longrightarrow> at_worker s i Unlocking \<Longrightarrow>
    contention_step mode s (set_worker i Outside (s\<lparr>cs_mutex := None\<rparr>))"
| ct_atomic: "mode \<noteq> ''mutex'' \<Longrightarrow> at_worker s i Outside \<Longrightarrow>
    contention_step mode s (s\<lparr>cs_counter := cs_counter s + 1, cs_ops := cs_ops s + 1\<rparr>)"
| ct_report: "contention_step mode s (report s)"

inductive locking_step :: "string \<Rightarrow> counter_state \<Rightarrow> counter_state \<Rightarrow> bool" for mech where
  lk_request: "mech = ''channel'' \<Longrightarrow> at_worker s i Outside \<Longrightarrow> cs_owner s = Owner_Receiving \<Longrightarrow>
    locking_step mech s (s\<lparr>cs_owner := Owner_Adding, cs_requests := cs_requests s + 1\<rparr>)"
| lk_serve: "mech = ''channel'' \<Longrightarrow> cs_owner s = Owner_Adding \<Longrightarrow>
    locking_step mech s (s\<lparr>cs_owner := Owner_Receiving, cs_counter := cs_counter s + 1, cs_ops := cs_ops s + 1\<rparr>)"
| lk_lock: "mech \<noteq> ''channel'' \<Longrightarrow> at_worker s i Outside \<Longrightarrow> cs_mutex s = None \<Longrightarrow>
    locking_step mech s (set_worker i Holding (s\<lparr>cs_mutex := Some i\<rparr>))"
| lk_add: "mech \<noteq> ''channel'' \<Longrightarrow> at_worker s i Holding \<Longrightarrow>
    locking_step mech s (set_worker i Unlocking (s\<lparr>cs_counter := cs_counter s + 1, cs_ops := cs_ops s + 1\<rparr>))"
| lk_unlock: "mech \<noteq> ''channel'' \<Longrightarrow> at_worker s i Unlocking \<Longrightarrow>
    locking_step mech s (set_worker i Outside (s\<lparr>cs_mutex := None\<rparr>))"
| lk_report: "locking_step mech s (report s)"

definition contention_main :: "environment \<Rightarrow> string \<times> counter_state" where
  "contention_main env = (env_or env ''MODE'' ''atomic'', counter_start (envInt env ''WORKERS'' 32))"

definition locking_main :: "environment \<Rightarrow> string \<times> counter_state" where
  "locking_main env = (env_or env ''MECH'' ''mutex'', counter_start (envInt env ''WORKERS'' 32))"

inductive counter_reach :: "(counter_state \<Rightarrow> counter_state \<Rightarrow> bool) \<Rightarrow> counter_state \<Rightarrow> counter_state \<Rightarrow> bool"
  for step s0 where
  counter_refl: "counter_reach step s0 s0"
| counter_more: "counter_reach step s0 s \<Longrightarrow> step s s' \<Longrightarrow> counter_reach step s0 s'"

section \<open>What every mechanism keeps\<close>

text \<open>
  The contract of a counter: a step adds one for an increment that finishes, and nothing else.
\<close>

locale counting =
  fixes step :: "counter_state \<Rightarrow> counter_state \<Rightarrow> bool"
    and good :: "counter_state \<Rightarrow> bool"
  assumes good_start: "good (counter_start n)"
    and good_step: "good s \<Longrightarrow> step s s' \<Longrightarrow> good s'"
    and good_counts: "good s \<Longrightarrow> step s s' \<Longrightarrow>
      s' = report s \<or>
      cs_counter s' = cs_counter s + of_nat (cs_ops s' - cs_ops s) \<and> cs_ops s \<le> cs_ops s' \<and>
      cs_last s' = cs_last s \<and> cs_reports s' = cs_reports s"
begin

lemma reach_good: "counter_reach step (counter_start n) s \<Longrightarrow> good s"
  by (induction rule: counter_reach.induct) (auto intro: good_start good_step)

lemma reach_counts:
  "counter_reach step (counter_start n) s \<Longrightarrow>
     cs_counter s = of_nat (cs_ops s) \<and> sum_list (cs_reports s) = cs_last s"
proof (induction rule: counter_reach.induct)
  case counter_refl
  show ?case by (simp add: counter_start_def)
next
  case (counter_more s s')
  from good_counts [OF reach_good [OF counter_more.hyps(1)] counter_more.hyps(2)] show ?case
  proof
    assume "s' = report s"
    with counter_more.IH show ?thesis by (simp add: report_def)
  next
    assume "cs_counter s' = cs_counter s + of_nat (cs_ops s' - cs_ops s) \<and> cs_ops s \<le> cs_ops s' \<and>
      cs_last s' = cs_last s \<and> cs_reports s' = cs_reports s"
    then obtain d where "cs_ops s' = cs_ops s + d" "cs_counter s' = cs_counter s + of_nat d"
      "cs_last s' = cs_last s" "cs_reports s' = cs_reports s"
      by (metis le_add_diff_inverse)
    with counter_more.IH show ?thesis by simp
  qed
qed

lemma reach_exact:
  "counter_reach step (counter_start n) s \<Longrightarrow> cs_ops s < 2 ^ 64 \<Longrightarrow> unat (cs_counter s) = cs_ops s"
  using reach_counts [of n s] by (simp add: unat_of_nat)

end

text \<open>Mutual exclusion: only the holder of the mutex is inside, and what it has loaded is current.\<close>

definition mutex_ok :: "counter_state \<Rightarrow> bool" where
  "mutex_ok s \<longleftrightarrow>
     (\<forall>i < length (cs_workers s). cs_workers s ! i \<noteq> Outside \<longrightarrow> cs_mutex s = Some i) \<and>
     (\<forall>i < length (cs_workers s). \<forall>v. cs_workers s ! i = Loaded v \<longrightarrow> v = cs_counter s)"

lemma mutex_ok_start: "mutex_ok (counter_start n)"
  by (simp add: mutex_ok_def counter_start_def)

lemma others_outside:
  assumes "mutex_ok s" and "at_worker s i p" and "p \<noteq> Outside" and "j < length (cs_workers s)" and "j \<noteq> i"
  shows "cs_workers s ! j = Outside"
proof (rule ccontr)
  assume "cs_workers s ! j \<noteq> Outside"
  then have "cs_mutex s = Some j" using assms(1,4) by (simp add: mutex_ok_def)
  moreover have "cs_mutex s = Some i" using assms(1-3) by (simp add: mutex_ok_def at_worker_def)
  ultimately show False using assms(5) by simp
qed

text \<open>The holder moves on, whatever it does to the counter.\<close>

lemma mutex_ok_inside:
  assumes "mutex_ok s" and "at_worker s i p" and "p \<noteq> Outside" and "\<forall>v. q = Loaded v \<longrightarrow> v = c"
    and "cs_workers s' = (cs_workers s)[i := q]" and "cs_counter s' = c"
    and "cs_mutex s' = cs_mutex s \<or> q = Outside"
  shows "mutex_ok s'"
proof -
  have out: "j < length (cs_workers s) \<Longrightarrow> j \<noteq> i \<Longrightarrow> cs_workers s' ! j = Outside" for j
    using others_outside [OF assms(1-3)] assms(5) by simp
  have at: "i < length (cs_workers s)" "cs_workers s' ! i = q" "cs_mutex s = Some i"
    using assms(1-3,5) by (auto simp: at_worker_def mutex_ok_def)
  show ?thesis
    unfolding mutex_ok_def
  proof (intro conjI allI impI)
    fix j assume j: "j < length (cs_workers s')" "cs_workers s' ! j \<noteq> Outside"
    then have "j = i" using out [of j] assms(5) by (cases "j = i") auto
    then show "cs_mutex s' = Some j" using j at assms(7) by auto
  next
    fix j v assume j: "j < length (cs_workers s')" "cs_workers s' ! j = Loaded v"
    then have "j = i" using out [of j] assms(5) by (cases "j = i") auto
    then show "v = cs_counter s'" using j at assms(4,6) by auto
  qed
qed

lemma mutex_ok_lock:
  assumes "mutex_ok s" and "cs_mutex s = None" and "cs_workers s' = (cs_workers s)[i := Holding]"
    and "cs_mutex s' = Some i"
  shows "mutex_ok s'"
proof -
  have "j < length (cs_workers s) \<Longrightarrow> cs_workers s ! j = Outside" for j
    using assms(1,2) by (auto simp: mutex_ok_def)
  then have "cs_workers s' ! j = (if j = i then Holding else Outside)" if "j < length (cs_workers s)" for j
    using that assms(3) by (cases "j = i") simp_all
  then show ?thesis using assms(3,4) by (auto simp: mutex_ok_def split: if_splits)
qed

lemma mutex_ok_idle:
  assumes "\<forall>i < length (cs_workers s). cs_workers s ! i = Outside" and "cs_workers s' = cs_workers s"
  shows "mutex_ok s'"
  using assms by (simp add: mutex_ok_def)

definition contention_ok :: "string \<Rightarrow> counter_state \<Rightarrow> bool" where
  "contention_ok mode s \<longleftrightarrow>
     mutex_ok s \<and> (mode \<noteq> ''mutex'' \<longrightarrow> (\<forall>i < length (cs_workers s). cs_workers s ! i = Outside))"

lemma contention_good:
  assumes "contention_ok mode s" and "contention_step mode s s'"
  shows "contention_ok mode s'"
  using assms(2)
proof cases
  case (ct_lock i)
  have "mutex_ok s'" by (rule mutex_ok_lock [of s s' i]) (use assms(1) ct_lock in \<open>simp_all add: contention_ok_def\<close>)
  then show ?thesis using ct_lock(2) by (simp add: contention_ok_def)
next
  case (ct_load i)
  have "mutex_ok s'"
    by (rule mutex_ok_inside [of s i Holding "Loaded (cs_counter s)" "cs_counter s"])
      (use assms(1) ct_load in \<open>simp_all add: contention_ok_def\<close>)
  then show ?thesis using ct_load(2) by (simp add: contention_ok_def)
next
  case (ct_store i v)
  have "mutex_ok s'"
    by (rule mutex_ok_inside [of s i "Loaded v" Unlocking "v + 1"])
      (use assms(1) ct_store in \<open>simp_all add: contention_ok_def\<close>)
  then show ?thesis using ct_store(2) by (simp add: contention_ok_def)
next
  case (ct_unlock i)
  have "mutex_ok s'"
    by (rule mutex_ok_inside [of s i Unlocking Outside "cs_counter s"])
      (use assms(1) ct_unlock in \<open>simp_all add: contention_ok_def\<close>)
  then show ?thesis using ct_unlock(2) by (simp add: contention_ok_def)
next
  case (ct_atomic i)
  then have "\<forall>j < length (cs_workers s). cs_workers s ! j = Outside" using assms(1) by (simp add: contention_ok_def)
  then show ?thesis using ct_atomic mutex_ok_idle [of s s'] by (simp add: contention_ok_def)
next
  case ct_report
  then show ?thesis using assms(1) by (simp add: contention_ok_def report_def mutex_ok_def)
qed

lemma contention_counts:
  assumes "contention_ok mode s" and "contention_step mode s s'"
  shows "s' = report s \<or>
      cs_counter s' = cs_counter s + of_nat (cs_ops s' - cs_ops s) \<and> cs_ops s \<le> cs_ops s' \<and>
      cs_last s' = cs_last s \<and> cs_reports s' = cs_reports s"
  using assms(2)
proof cases
  case (ct_store i v)
  then have "v = cs_counter s" using assms(1) by (auto simp: contention_ok_def mutex_ok_def at_worker_def)
  with ct_store(1) show ?thesis by simp
qed simp_all

interpretation contention: counting "contention_step mode" "contention_ok mode" for mode
proof
  show "contention_ok mode (counter_start n)" for n
    using mutex_ok_start [of n] by (simp add: contention_ok_def counter_start_def)
qed (fact contention_good contention_counts)+

definition locking_ok :: "string \<Rightarrow> counter_state \<Rightarrow> bool" where
  "locking_ok mech s \<longleftrightarrow>
     mutex_ok s \<and>
     (mech = ''channel'' \<longrightarrow>
        (\<forall>i < length (cs_workers s). cs_workers s ! i = Outside) \<and>
        cs_requests s = cs_ops s + (if cs_owner s = Owner_Adding then 1 else 0))"

lemma locking_good:
  assumes "locking_ok mech s" and "locking_step mech s s'"
  shows "locking_ok mech s'"
  using assms(2)
proof cases
  case (lk_lock i)
  have "mutex_ok s'" by (rule mutex_ok_lock [of s s' i]) (use assms(1) lk_lock in \<open>simp_all add: locking_ok_def\<close>)
  then show ?thesis using lk_lock(2) by (simp add: locking_ok_def)
next
  case (lk_add i)
  have "mutex_ok s'"
    by (rule mutex_ok_inside [of s i Holding Unlocking "cs_counter s + 1"])
      (use assms(1) lk_add in \<open>simp_all add: locking_ok_def\<close>)
  then show ?thesis using lk_add(2) by (simp add: locking_ok_def)
next
  case (lk_unlock i)
  have "mutex_ok s'"
    by (rule mutex_ok_inside [of s i Unlocking Outside "cs_counter s"])
      (use assms(1) lk_unlock in \<open>simp_all add: locking_ok_def\<close>)
  then show ?thesis using lk_unlock(2) by (simp add: locking_ok_def)
next
  case (lk_request i)
  then show ?thesis using assms(1) mutex_ok_idle [of s s'] by (simp add: locking_ok_def)
next
  case lk_serve
  then show ?thesis using assms(1) mutex_ok_idle [of s s'] by (simp add: locking_ok_def)
next
  case lk_report
  then show ?thesis using assms(1) by (simp add: locking_ok_def report_def mutex_ok_def)
qed

lemma locking_counts:
  assumes "locking_ok mech s" and "locking_step mech s s'"
  shows "s' = report s \<or>
      cs_counter s' = cs_counter s + of_nat (cs_ops s' - cs_ops s) \<and> cs_ops s \<le> cs_ops s' \<and>
      cs_last s' = cs_last s \<and> cs_reports s' = cs_reports s"
  using assms(2) by cases simp_all

interpretation locking: counting "locking_step mech" "locking_ok mech" for mech
proof
  show "locking_ok mech (counter_start n)" for n
    using mutex_ok_start [of n] by (simp add: locking_ok_def counter_start_def)
qed (fact locking_good locking_counts)+

section \<open>Properties\<close>


definition demo_env :: environment where
  "demo_env = [''MODE'' \<mapsto> ''mutex'', ''MECH'' \<mapsto> ''channel'', ''WORKERS'' \<mapsto> ''2'']"

lemma demo_env_main:
  "contention_main demo_env = (''mutex'', counter_start 2)" "locking_main demo_env = (''channel'', counter_start 2)"
  by code_simp+


end
