(* ===== verification/Lab_Ring.thy ===== *)
theory Lab_Ring
  imports Go_Env
begin

text \<open>
  \<open>labs/0105-go-locking-vs-channels/pingpong.go\<close>: participants in a ring that hand on one token for
  ever, over unbuffered channels or with a turn variable, a mutex and a condition variable.  A step
  relation for each; a rendezvous on an unbuffered channel is one step of both sides.  \<open>rg_log\<close> and
  \<open>tn_log\<close> are histories of who has counted a hand-off.  The reporter comes last.
\<close>

section \<open>The ring of channels\<close>

datatype ring_pc = Ring_Receiving | Ring_Counting | Ring_Sending

record ring_state =
  rg_pcs :: "ring_pc list"
  rg_starting :: bool
  rg_counter :: u64
  rg_panicked :: bool
  rg_log :: "nat list"

text \<open>\<open>make([]chan struct{}, participants)\<close> panics for a negative number.\<close>

definition ring_start :: "int \<Rightarrow> ring_state option" where
  "ring_start participants =
     (if participants < 0 then None
      else Some \<lparr>rg_pcs = replicate (nat participants) Ring_Receiving, rg_starting = True, rg_counter = 0,
                 rg_panicked = False, rg_log = []\<rparr>)"

definition at_ring :: "ring_state \<Rightarrow> nat \<Rightarrow> ring_pc \<Rightarrow> bool" where
  "at_ring s i p \<longleftrightarrow> i < length (rg_pcs s) \<and> rg_pcs s ! i = p"

inductive ring_step :: "ring_state \<Rightarrow> ring_state \<Rightarrow> bool" where
  r_no_channel: "\<not> rg_panicked s \<Longrightarrow> rg_starting s \<Longrightarrow> rg_pcs s = [] \<Longrightarrow> ring_step s (s\<lparr>rg_panicked := True\<rparr>)"
| r_begin: "\<not> rg_panicked s \<Longrightarrow> rg_starting s \<Longrightarrow> at_ring s 0 Ring_Receiving \<Longrightarrow>
    ring_step s (s\<lparr>rg_starting := False, rg_pcs := (rg_pcs s)[0 := Ring_Counting]\<rparr>)"
| r_count: "\<not> rg_panicked s \<Longrightarrow> at_ring s i Ring_Counting \<Longrightarrow>
    ring_step s (s\<lparr>rg_counter := rg_counter s + 1, rg_log := rg_log s @ [i], rg_pcs := (rg_pcs s)[i := Ring_Sending]\<rparr>)"
| r_pass: "\<not> rg_panicked s \<Longrightarrow> at_ring s i Ring_Sending \<Longrightarrow> k = (i + 1) mod length (rg_pcs s) \<Longrightarrow>
    at_ring s k Ring_Receiving \<Longrightarrow>
    ring_step s (s\<lparr>rg_pcs := (rg_pcs s)[i := Ring_Receiving, k := Ring_Counting]\<rparr>)"

section \<open>Turns under a mutex\<close>

datatype turn_pc = At_Lock | Checking | Cond_Waiting | Woken | Counted | Passed | Unlocking

record turn_state =
  tn_pcs :: "turn_pc list"
  tn_mutex :: "nat option"
  tn_turn :: nat
  tn_counter :: u64
  tn_log :: "nat list"

definition turn_start :: "int \<Rightarrow> turn_state" where
  "turn_start participants =
     \<lparr>tn_pcs = replicate (nat participants) At_Lock, tn_mutex = None, tn_turn = 0, tn_counter = 0, tn_log = []\<rparr>"

definition at_turn :: "turn_state \<Rightarrow> nat \<Rightarrow> turn_pc \<Rightarrow> bool" where
  "at_turn s i p \<longleftrightarrow> i < length (tn_pcs s) \<and> tn_pcs s ! i = p"

abbreviation set_turn_pc :: "nat \<Rightarrow> turn_pc \<Rightarrow> turn_state \<Rightarrow> turn_state" where
  "set_turn_pc i p s \<equiv> s\<lparr>tn_pcs := (tn_pcs s)[i := p]\<rparr>"

text \<open>\<open>cond.Broadcast\<close>\<close>

definition wake :: "turn_pc \<Rightarrow> turn_pc" where
  "wake p = (if p = Cond_Waiting then Woken else p)"

inductive turn_step :: "turn_state \<Rightarrow> turn_state \<Rightarrow> bool" where
  t_lock: "at_turn s i At_Lock \<or> at_turn s i Woken \<Longrightarrow> tn_mutex s = None \<Longrightarrow>
    turn_step s (set_turn_pc i Checking (s\<lparr>tn_mutex := Some i\<rparr>))"
| t_wait: "at_turn s i Checking \<Longrightarrow> tn_turn s \<noteq> i \<Longrightarrow>
    turn_step s (set_turn_pc i Cond_Waiting (s\<lparr>tn_mutex := None\<rparr>))"
| t_count: "at_turn s i Checking \<Longrightarrow> tn_turn s = i \<Longrightarrow>
    turn_step s (set_turn_pc i Counted (s\<lparr>tn_counter := tn_counter s + 1, tn_log := tn_log s @ [i]\<rparr>))"
| t_pass: "at_turn s i Counted \<Longrightarrow>
    turn_step s (set_turn_pc i Passed (s\<lparr>tn_turn := (tn_turn s + 1) mod length (tn_pcs s)\<rparr>))"
| t_broadcast: "at_turn s i Passed \<Longrightarrow>
    turn_step s (s\<lparr>tn_pcs := (map wake (tn_pcs s))[i := Unlocking]\<rparr>)"
| t_unlock: "at_turn s i Unlocking \<Longrightarrow> turn_step s (set_turn_pc i At_Lock (s\<lparr>tn_mutex := None\<rparr>))"

datatype ring_program = Channels "ring_state option" | Turns turn_state

definition pingpong_main :: "environment \<Rightarrow> ring_program" where
  "pingpong_main env =
     (let mech = env_or env ''MECH'' ''mutex''; participants = envInt env ''PARTICIPANTS'' 4
      in if mech = ''channel'' then Channels (ring_start participants) else Turns (turn_start participants))"

section \<open>The ring keeps one token\<close>

definition round_robin :: "nat \<Rightarrow> nat list \<Rightarrow> bool" where
  "round_robin n log \<longleftrightarrow> log = map (\<lambda>k. k mod n) [0..<length log]"

lemma round_robin_Nil [simp]: "round_robin n []"
  by (simp add: round_robin_def)

lemma round_robin_snoc: "round_robin n log \<Longrightarrow> i = length log mod n \<Longrightarrow> round_robin n (log @ [i])"
  by (simp add: round_robin_def)

definition token_at :: "nat \<Rightarrow> ring_state \<Rightarrow> nat \<Rightarrow> ring_pc \<Rightarrow> bool" where
  "token_at n s i p \<longleftrightarrow>
     i < n \<and> rg_pcs s = (replicate n Ring_Receiving)[i := p] \<and>
     (p = Ring_Counting \<and> i = length (rg_log s) mod n \<or>
      p = Ring_Sending \<and> (\<exists>l. length (rg_log s) = Suc l \<and> i = l mod n))"

definition ring_ok :: "nat \<Rightarrow> ring_state \<Rightarrow> bool" where
  "ring_ok n s \<longleftrightarrow>
     round_robin n (rg_log s) \<and> rg_counter s = of_nat (length (rg_log s)) \<and> (rg_panicked s \<longrightarrow> n = 0) \<and>
     (if rg_starting s then rg_log s = [] \<and> rg_pcs s = replicate n Ring_Receiving else \<exists>i p. token_at n s i p)"

lemma at_token: "token_at n s i p \<Longrightarrow> at_ring s j q \<Longrightarrow> q \<noteq> Ring_Receiving \<Longrightarrow> j = i \<and> q = p"
  by (auto simp: token_at_def at_ring_def nth_list_update split: if_splits)

lemma ring_ok_start: "ring_start m = Some s \<Longrightarrow> ring_ok (nat m) s"
  by (auto simp: ring_start_def ring_ok_def split: if_splits)

lemma ring_ok_step:
  assumes "ring_step s s'" and ok: "ring_ok n s"
  shows "ring_ok n s'"
  using assms(1)
proof cases
  case r_no_channel
  then show ?thesis using ok by (simp add: ring_ok_def)
next
  case r_begin
  then have "rg_pcs s = replicate n Ring_Receiving" "rg_log s = []" "0 < n"
    using ok by (auto simp: ring_ok_def at_ring_def)
  then have "token_at n s' 0 Ring_Counting" using r_begin(1) by (simp add: token_at_def)
  then show ?thesis using r_begin(1) ok by (auto simp: ring_ok_def)
next
  case (r_count i)
  have ns: "\<not> rg_starting s"
    using ok r_count(3) by (auto simp: ring_ok_def at_ring_def)
  then obtain j p where t: "token_at n s j p" using ok by (auto simp: ring_ok_def)
  from at_token [OF t r_count(3)] have "token_at n s i Ring_Counting" using t by simp
  then have i: "i < n" "i = length (rg_log s) mod n" "rg_pcs s = (replicate n Ring_Receiving)[i := Ring_Counting]"
    by (simp_all add: token_at_def)
  then have "token_at n s' i Ring_Sending" using r_count(1) by (simp add: token_at_def)
  then show ?thesis
    using r_count(1) ok ns i(2) round_robin_snoc [of n "rg_log s" i] by (auto simp: ring_ok_def)
next
  case (r_pass i k)
  have ns: "\<not> rg_starting s"
    using ok r_pass(3) by (auto simp: ring_ok_def at_ring_def)
  then obtain j p where t: "token_at n s j p" using ok by (auto simp: ring_ok_def)
  from at_token [OF t r_pass(3)] have "token_at n s i Ring_Sending" using t by simp
  then obtain l where i: "i < n" "length (rg_log s) = Suc l" "i = l mod n"
    and pcs: "rg_pcs s = (replicate n Ring_Receiving)[i := Ring_Sending]"
    by (auto simp: token_at_def)
  have k: "k = Suc l mod n" "k < n" using r_pass(4) i(1,3) pcs by (simp_all add: mod_Suc_eq)
  have "(replicate n Ring_Receiving)[i := Ring_Receiving] = replicate n Ring_Receiving"
    using i(1) by (metis list_update_id nth_replicate)
  then have "token_at n s' k Ring_Counting" using r_pass(1) k i(2) pcs by (simp add: token_at_def)
  then show ?thesis using r_pass(1) ok ns by (auto simp: ring_ok_def)
qed

text \<open>With two participants or more the token can always move; with one it is stuck after one count.\<close>

lemma ring_can_step:
  assumes ok: "ring_ok n s" and n: "2 \<le> n"
  shows "\<exists>s'. ring_step s s'"
proof -
  have np: "\<not> rg_panicked s" using ok n by (auto simp: ring_ok_def)
  show ?thesis
  proof (cases "rg_starting s")
    case True
    then have "at_ring s 0 Ring_Receiving" using ok n by (simp add: ring_ok_def at_ring_def)
    then show ?thesis using r_begin [OF np True] by blast
  next
    case False
    then obtain i p where t: "token_at n s i p" using ok by (auto simp: ring_ok_def)
    then have p: "p = Ring_Counting \<or> p = Ring_Sending" and at: "at_ring s i p"
      by (auto simp: token_at_def at_ring_def)
    let ?k = "(i + 1) mod length (rg_pcs s)"
    have "i < n" "length (rg_pcs s) = n" using t by (simp_all add: token_at_def)
    then have "?k \<noteq> i" "?k < n" using n by (auto simp: mod_Suc)
    then have "at_ring s ?k Ring_Receiving" using t by (simp add: token_at_def at_ring_def)
    with p at show ?thesis using r_count [OF np] r_pass [OF np _ refl] by metis
  qed
qed

definition one_ok :: "ring_state \<Rightarrow> bool" where
  "one_ok s \<longleftrightarrow>
     \<not> rg_panicked s \<and>
     (rg_starting s \<and> rg_pcs s = [Ring_Receiving] \<and> rg_log s = [] \<or>
      \<not> rg_starting s \<and> rg_pcs s = [Ring_Counting] \<and> rg_log s = [] \<or>
      \<not> rg_starting s \<and> rg_pcs s = [Ring_Sending] \<and> rg_log s = [0])"

lemma one_ok_step:
  assumes "ring_step s s'" and "one_ok s"
  shows "one_ok s'"
  using assms(1) by cases (use assms(2) in \<open>auto simp: one_ok_def at_ring_def\<close>)

lemma ring_of_one_stuck:
  assumes "one_ok s" and "rg_log s \<noteq> []"
  shows "\<not> ring_step s s'"
proof
  assume "ring_step s s'"
  then show False by cases (use assms in \<open>auto simp: one_ok_def at_ring_def\<close>)
qed

section \<open>The turn is handed on under the mutex\<close>

definition outside :: "turn_pc \<Rightarrow> bool" where
  "outside p \<longleftrightarrow> p \<in> {At_Lock, Cond_Waiting, Woken}"

text \<open>
  Only the holder is inside.  Nobody waits for a turn that is already his, unless the broadcast is
  about to come.
\<close>

definition ready :: "nat \<Rightarrow> turn_state \<Rightarrow> bool" where
  "ready n s \<longleftrightarrow> tn_turn s = length (tn_log s) mod n \<and> \<not> at_turn s (tn_turn s) Cond_Waiting"

definition only_inside :: "nat \<Rightarrow> turn_state \<Rightarrow> nat option \<Rightarrow> bool" where
  "only_inside n s h \<longleftrightarrow> (\<forall>j < n. Some j \<noteq> h \<longrightarrow> outside (tn_pcs s ! j))"

definition phase_ok :: "nat \<Rightarrow> turn_state \<Rightarrow> nat \<Rightarrow> bool" where
  "phase_ok n s i \<longleftrightarrow>
     at_turn s i Checking \<and> ready n s \<or>
     at_turn s i Counted \<and> tn_turn s = i \<and> (\<exists>l. length (tn_log s) = Suc l \<and> i = l mod n) \<or>
     at_turn s i Passed \<and> tn_turn s = length (tn_log s) mod n \<or>
     at_turn s i Unlocking \<and> ready n s"

definition turn_ok :: "nat \<Rightarrow> turn_state \<Rightarrow> bool" where
  "turn_ok n s \<longleftrightarrow>
     length (tn_pcs s) = n \<and> round_robin n (tn_log s) \<and> tn_counter s = of_nat (length (tn_log s)) \<and>
     only_inside n s (tn_mutex s) \<and>
     (case tn_mutex s of None \<Rightarrow> n \<noteq> 0 \<longrightarrow> ready n s | Some i \<Rightarrow> phase_ok n s i)"

lemma turn_ok_start: "turn_ok (nat m) (turn_start m)"
  by (auto simp: turn_ok_def turn_start_def outside_def at_turn_def only_inside_def ready_def)

lemma inside_holds:
  "turn_ok n s \<Longrightarrow> at_turn s i p \<Longrightarrow> \<not> outside p \<Longrightarrow> tn_mutex s = Some i \<and> phase_ok n s i"
proof -
  assume ok: "turn_ok n s" and at: "at_turn s i p" "\<not> outside p"
  have "only_inside n s (tn_mutex s)" "i < n" using ok at(1) by (simp_all add: turn_ok_def at_turn_def)
  then have "tn_mutex s = Some i" using at unfolding only_inside_def at_turn_def by metis
  then show ?thesis using ok by (simp add: turn_ok_def)
qed

lemma only_inside_set:
  assumes "only_inside n s h" and "length (tn_pcs s) = n" and "tn_pcs s' = (tn_pcs s)[i := p]"
    and "h = None \<or> h = Some i" and "h' = Some i \<or> h' = None \<and> outside p"
  shows "only_inside n s' h'"
  unfolding only_inside_def
proof (intro allI impI)
  fix j assume j: "j < n" "Some j \<noteq> h'"
  show "outside (tn_pcs s' ! j)"
  proof (cases "j = i")
    case True
    then show ?thesis using j assms(2,3,5) by auto
  next
    case False
    then have "Some j \<noteq> h" using assms(4) by auto
    then show ?thesis using False j(1) assms(1,3) by (simp add: only_inside_def)
  qed
qed

lemma ready_set:
  assumes "ready n s" and "tn_pcs s' = (tn_pcs s)[i := p]" and "p \<noteq> Cond_Waiting"
    and "tn_turn s' = tn_turn s" and "tn_log s' = tn_log s"
  shows "ready n s'"
proof -
  have "at_turn s' k Cond_Waiting \<Longrightarrow> at_turn s k Cond_Waiting" for k
    using assms(2,3) by (cases "k = i") (auto simp: at_turn_def)
  then show ?thesis using assms(1,4,5) unfolding ready_def by metis
qed

lemma turn_ok_step:
  assumes "turn_step s s'" and ok: "turn_ok n s"
  shows "turn_ok n s'"
proof -
  have len: "length (tn_pcs s) = n" and rr: "round_robin n (tn_log s)"
    and ctr: "tn_counter s = of_nat (length (tn_log s))" and ins: "only_inside n s (tn_mutex s)"
    using ok by (simp_all add: turn_ok_def)
  from assms(1) show ?thesis
  proof cases
    case (t_lock i)
    then have i: "i < n" and r: "ready n s" using ok len by (auto simp: turn_ok_def at_turn_def)
    have "only_inside n s' (Some i)"
      by (rule only_inside_set [OF ins len, of s' i Checking]) (use t_lock in simp_all)
    note inside = this
    have "ready n s'" by (rule ready_set [OF r, of s' i Checking]) (use t_lock(1) in simp_all)
    moreover have "at_turn s' i Checking" using t_lock(1) i len by (simp add: at_turn_def)
    ultimately have "phase_ok n s' i" by (simp add: phase_ok_def)
    with inside show ?thesis using t_lock(1) len rr ctr by (simp add: turn_ok_def)
  next
    case (t_wait i)
    then have h: "tn_mutex s = Some i" and "phase_ok n s i"
      using inside_holds [OF ok t_wait(2)] by (simp_all add: outside_def)
    then have r: "ready n s" using t_wait(2) by (auto simp: phase_ok_def at_turn_def)
    have "only_inside n s' None"
      by (rule only_inside_set [OF ins len, of s' i Cond_Waiting]) (use t_wait(1) h in \<open>simp_all add: outside_def\<close>)
    moreover have "ready n s'"
      using r t_wait(1,3) by (auto simp: ready_def at_turn_def)
    ultimately show ?thesis using t_wait(1) len rr ctr by (simp add: turn_ok_def)
  next
    case (t_count i)
    then have h: "tn_mutex s = Some i" and "phase_ok n s i"
      using inside_holds [OF ok t_count(2)] by (simp_all add: outside_def)
    then have r: "ready n s" using t_count(2) by (auto simp: phase_ok_def at_turn_def)
    then have i: "i = length (tn_log s) mod n" "i < n"
      using t_count(2,3) len by (simp_all add: ready_def at_turn_def)
    have "only_inside n s' (Some i)"
      by (rule only_inside_set [OF ins len, of s' i Counted]) (use t_count(1) h in simp_all)
    moreover have "phase_ok n s' i"
      using i len t_count(1,3) by (simp add: phase_ok_def at_turn_def)
    moreover have "round_robin n (tn_log s')" using round_robin_snoc [OF rr i(1)] t_count(1) by simp
    ultimately show ?thesis using t_count(1) len ctr h by (simp add: turn_ok_def)
  next
    case (t_pass i)
    then have h: "tn_mutex s = Some i" and "phase_ok n s i"
      using inside_holds [OF ok t_pass(2)] by (simp_all add: outside_def)
    then obtain l where l: "length (tn_log s) = Suc l" "tn_turn s = l mod n" and i: "i < n"
      using t_pass(2) len by (auto simp: phase_ok_def at_turn_def)
    have "only_inside n s' (Some i)"
      by (rule only_inside_set [OF ins len, of s' i Passed]) (use t_pass(1) h in simp_all)
    moreover have "phase_ok n s' i"
      using i l len t_pass(1) by (simp add: phase_ok_def at_turn_def mod_Suc_eq)
    ultimately show ?thesis using t_pass(1) len rr ctr h by (simp add: turn_ok_def)
  next
    case (t_broadcast i)
    then have h: "tn_mutex s = Some i" and "phase_ok n s i"
      using inside_holds [OF ok t_broadcast(2)] by (simp_all add: outside_def)
    then have t: "tn_turn s = length (tn_log s) mod n" and i: "i < n"
      using t_broadcast(2) len by (auto simp: phase_ok_def at_turn_def)
    have wake: "outside p \<Longrightarrow> outside (wake p)" "wake p \<noteq> Cond_Waiting" for p
      by (auto simp: outside_def wake_def)
    have "only_inside n s' (Some i)"
      using ins h len t_broadcast(1) by (auto simp: only_inside_def nth_list_update wake)
    moreover have "phase_ok n s' i"
      using i t len t_broadcast(1) wake(2) by (auto simp: phase_ok_def at_turn_def ready_def nth_list_update)
    ultimately show ?thesis using t_broadcast(1) len rr ctr h by (simp add: turn_ok_def)
  next
    case (t_unlock i)
    then have h: "tn_mutex s = Some i" and "phase_ok n s i"
      using inside_holds [OF ok t_unlock(2)] by (simp_all add: outside_def)
    then have r: "ready n s" using t_unlock(2) by (auto simp: phase_ok_def at_turn_def)
    have "only_inside n s' None"
      by (rule only_inside_set [OF ins len, of s' i At_Lock]) (use t_unlock(1) h in \<open>simp_all add: outside_def\<close>)
    moreover have "ready n s'" by (rule ready_set [OF r, of s' i At_Lock]) (use t_unlock(1) in simp_all)
    ultimately show ?thesis using t_unlock(1) len rr ctr by (simp add: turn_ok_def)
  qed
qed

lemma turn_can_step:
  assumes ok: "turn_ok n s" and n: "0 < n"
  shows "\<exists>s'. turn_step s s'"
proof (cases "tn_mutex s")
  case (Some i)
  then have "phase_ok n s i" using ok by (simp add: turn_ok_def)
  then consider "at_turn s i Checking" | "at_turn s i Counted" | "at_turn s i Passed" | "at_turn s i Unlocking"
    unfolding phase_ok_def by blast
  then show ?thesis
  proof cases
    case 1
    then show ?thesis using t_wait [of s i] t_count [of s i] by (cases "tn_turn s = i") blast+
  next
    case 2
    then show ?thesis using t_pass by blast
  next
    case 3
    then show ?thesis using t_broadcast by blast
  next
    case 4
    then show ?thesis using t_unlock by blast
  qed
next
  case None
  then have r: "ready n s" and out: "only_inside n s None" and len: "length (tn_pcs s) = n"
    using ok n by (simp_all add: turn_ok_def)
  then have t: "tn_turn s < n" using n by (simp add: ready_def)
  then have "at_turn s (tn_turn s) At_Lock \<or> at_turn s (tn_turn s) Woken"
    using out r len by (auto simp: only_inside_def ready_def at_turn_def outside_def)
  from t_lock [OF this None] show ?thesis by blast
qed

section \<open>Properties\<close>

lemma ring_reach_ok:
  "rtranclp ring_step s0 s \<Longrightarrow> ring_start m = Some s0 \<Longrightarrow> ring_ok (nat m) s"
  by (induction rule: rtranclp_induct) (auto intro: ring_ok_start ring_ok_step)

lemma turn_reach_ok: "rtranclp turn_step (turn_start m) s \<Longrightarrow> turn_ok (nat m) s"
  by (induction rule: rtranclp_induct) (auto intro: turn_ok_start turn_ok_step)

lemma one_ok_start: "ring_start 1 = Some s \<Longrightarrow> one_ok s"
  by (auto simp: ring_start_def one_ok_def)

lemma one_reach_ok: "rtranclp ring_step s0 s \<Longrightarrow> ring_start 1 = Some s0 \<Longrightarrow> one_ok s"
  by (induction rule: rtranclp_induct) (auto intro: one_ok_start one_ok_step)

text \<open>
  C34: Both programs hand the token round: in every interleaving the participants count in the order
  0, 1, ..., n - 1, 0, ..., and the counter is the number of hand-offs modulo 2^64.
\<close>

theorem token_goes_round:
  assumes "ring_start n = Some r0" and "rtranclp ring_step r0 r" and "rtranclp turn_step (turn_start n) t"
  shows "rg_log r = map (\<lambda>k. k mod nat n) [0..<length (rg_log r)] \<and>
    rg_counter r = of_nat (length (rg_log r)) \<and>
    tn_log t = map (\<lambda>k. k mod nat n) [0..<length (tn_log t)] \<and>
    tn_counter t = of_nat (length (tn_log t))"
  using ring_reach_ok [OF assms(2,1)] turn_reach_ok [OF assms(3)]
  unfolding ring_ok_def turn_ok_def round_robin_def by (elim conjE) (intro conjI; assumption)

lemma token_goes_round_witness:
  "\<exists>r0 r. ring_start 3 = Some r0 \<and> rtranclp ring_step r0 r \<and> rg_log r = [0, 1] \<and> rg_counter r = 2"
proof -
  define r0 where "r0 = \<lparr>rg_pcs = [Ring_Receiving, Ring_Receiving, Ring_Receiving], rg_starting = True, rg_counter = 0,
    rg_panicked = False, rg_log = []\<rparr>"
  define r1 where "r1 = r0\<lparr>rg_starting := False, rg_pcs := (rg_pcs r0)[0 := Ring_Counting]\<rparr>"
  define r2 where "r2 = r1\<lparr>rg_counter := rg_counter r1 + 1, rg_log := rg_log r1 @ [0],
    rg_pcs := (rg_pcs r1)[0 := Ring_Sending]\<rparr>"
  define r3 where "r3 = r2\<lparr>rg_pcs := (rg_pcs r2)[0 := Ring_Receiving, 1 := Ring_Counting]\<rparr>"
  define r4 where "r4 = r3\<lparr>rg_counter := rg_counter r3 + 1, rg_log := rg_log r3 @ [1],
    rg_pcs := (rg_pcs r3)[1 := Ring_Sending]\<rparr>"
  note defs = r0_def r1_def r2_def r3_def r4_def at_ring_def
  have st1: "ring_step r0 r1" unfolding r1_def by (rule r_begin) (simp_all add: defs)
  have st2: "ring_step r1 r2" unfolding r2_def by (rule r_count) (simp_all add: defs)
  have st3: "ring_step r2 r3" unfolding r3_def by (rule r_pass) (simp_all add: defs)
  have st4: "ring_step r3 r4" unfolding r4_def by (rule r_count) (simp_all add: defs)
  have start: "ring_start 3 = Some r0" by (simp add: ring_start_def r0_def numeral_3_eq_3)
  have reach: "rtranclp ring_step r0 r4" using st1 st2 st3 st4 by auto
  have log: "rg_log r4 = [0, 1]" by (simp add: defs)
  have "rg_counter r4 = 2"
    using token_goes_round [OF start reach rtranclp.rtrancl_refl] log by simp
  with start reach log show ?thesis by blast
qed




section \<open>The reporter\<close>

text \<open>
  The rest of \<open>main\<close>: once a second the reporter prints the hand-offs since its last tick, at any moment of either
  program; a panic ends the program.
\<close>

record ping_state =
  pg_program :: ring_program
  pg_last :: u64
  pg_reports :: "u64 list"

fun ping_counter :: "ring_program \<Rightarrow> u64" where
  "ping_counter (Channels None) = 0"
| "ping_counter (Channels (Some s)) = rg_counter s"
| "ping_counter (Turns s) = tn_counter s"

fun ping_log :: "ring_program \<Rightarrow> nat list" where
  "ping_log (Channels None) = []"
| "ping_log (Channels (Some s)) = rg_log s"
| "ping_log (Turns s) = tn_log s"

fun ping_panicked :: "ring_program \<Rightarrow> bool" where
  "ping_panicked (Channels None) \<longleftrightarrow> True"
| "ping_panicked (Channels (Some s)) \<longleftrightarrow> rg_panicked s"
| "ping_panicked (Turns s) \<longleftrightarrow> False"

definition ping_start :: "environment \<Rightarrow> ping_state" where
  "ping_start env = \<lparr>pg_program = pingpong_main env, pg_last = 0, pg_reports = []\<rparr>"

inductive ping_step :: "ping_state \<Rightarrow> ping_state \<Rightarrow> bool" where
  pg_ring: "pg_program s = Channels (Some r) \<Longrightarrow> ring_step r r' \<Longrightarrow> ping_step s (s\<lparr>pg_program := Channels (Some r')\<rparr>)"
| pg_turn: "pg_program s = Turns t \<Longrightarrow> turn_step t t' \<Longrightarrow> ping_step s (s\<lparr>pg_program := Turns t'\<rparr>)"
| pg_report: "\<not> ping_panicked (pg_program s) \<Longrightarrow>
    ping_step s (s\<lparr>pg_reports := pg_reports s @ [ping_counter (pg_program s) - pg_last s],
      pg_last := ping_counter (pg_program s)\<rparr>)"

definition ping_ok :: "environment \<Rightarrow> ping_state \<Rightarrow> bool" where
  "ping_ok env s \<longleftrightarrow> sum_list (pg_reports s) = pg_last s \<and>
     (case pg_program s of
        Channels None \<Rightarrow> True
      | Channels (Some r) \<Rightarrow> ring_ok (nat (envInt env ''PARTICIPANTS'' 4)) r
      | Turns t \<Rightarrow> turn_ok (nat (envInt env ''PARTICIPANTS'' 4)) t)"

lemma ping_start_ok: "ping_ok env (ping_start env)"
  using turn_reach_ok [OF rtranclp.rtrancl_refl, of "envInt env ''PARTICIPANTS'' 4"]
  by (auto simp: ping_ok_def ping_start_def pingpong_main_def Let_def ring_ok_start split: option.split)

lemma ping_step_ok: "ping_step s t \<Longrightarrow> ping_ok env s \<Longrightarrow> ping_ok env t"
  by (induction rule: ping_step.induct) (auto simp: ping_ok_def intro: ring_ok_step turn_ok_step)

text \<open>What is reported adds up to the hand-offs made by the last tick, which went round in order.\<close>

lemma reports_count_handoffs:
  assumes "rtranclp ping_step (ping_start env) s"
  shows "sum_list (pg_reports s) = pg_last s \<and> ping_counter (pg_program s) = of_nat (length (ping_log (pg_program s))) \<and>
    round_robin (nat (envInt env ''PARTICIPANTS'' 4)) (ping_log (pg_program s))"
proof -
  have "ping_ok env s" using assms by induction (auto intro: ping_start_ok ping_step_ok)
  then show ?thesis
    by (cases "pg_program s" rule: ping_counter.cases) (auto simp: ping_ok_def ring_ok_def turn_ok_def)
qed

end
