(* ===== verification/Lab_Client.thy ===== *)
theory Lab_Client
  imports Go_Env Go_Float
begin

text \<open>
  \<open>labs/0102-go-netpoller-epoll/client.go\<close>: the loop that dials in batches (the loop that starts the workers
  of \<open>labs/0103-go-blocking-syscalls-vs-network-io/worker.go\<close> has the same ranges), and the summary of a burst.
  Which dials succeed, the order in which the goroutines of a batch append, and the latencies are given.
  Latencies are nanoseconds; the percentiles' indices are computed in \<open>float64\<close>.
\<close>

section \<open>Batches\<close>

definition batchSize :: int where
  "batchSize = 200"

function batch_ranges :: "int \<Rightarrow> int \<Rightarrow> (int \<times> int) list" where
  "batch_ranges start n =
     (if start < n then
        (let end = start + batchSize; end = (if end > n then n else end)
         in (start, end) # batch_ranges (start + batchSize) n)
      else [])"
  by pat_completeness auto
termination
  by (relation "measure (\<lambda>(start, n). nat (n - start))") (auto simp: batchSize_def)

declare batch_ranges.simps [simp del]

text \<open>\<open>for i := start; i < end; i++\<close>\<close>

definition batch_members :: "int \<times> int \<Rightarrow> int list" where
  "batch_members r = [fst r..snd r - 1]"

lemma batch_members_pair [simp]: "batch_members (a, b) = [a..b - 1]"
  by (simp add: batch_members_def)

lemma batch_members_cover: "concat (map batch_members (batch_ranges start n)) = [start..n - 1]"
proof (induction start n rule: batch_ranges.induct)
  case (1 start n)
  show ?case
  proof (cases "start < n")
    case True
    have split: "[start..n - 1] = [start..start + batchSize - 1] @ [start + batchSize..n - 1]"
      if "start + batchSize \<le> n"
      using that upto_split1 [of start "start + batchSize - 1" "n - 1"] upto_rec1
      by (cases "start + batchSize - 1 = n - 1")
        (auto simp: batchSize_def intro: upto_split2 [of start "start + 199" "n - 1", simplified])
    have last: "batch_ranges (start + batchSize) n = []" if "n \<le> start + batchSize"
      using that by (subst batch_ranges.simps) simp
    show ?thesis
      using "1.IH" [OF True refl refl] True split last
      by (subst batch_ranges.simps) (auto simp: Let_def)
  qed (simp add: batch_ranges.simps)
qed

lemma batch_size_le: "(a, b) \<in> set (batch_ranges start n) \<Longrightarrow> a < b \<and> b - a \<le> batchSize \<and> b \<le> n"
  by (induction start n rule: batch_ranges.induct)
    (subst (asm) batch_ranges.simps, auto simp: Let_def batchSize_def split: if_splits)

text \<open>
  \<open>None\<close> is the panic of \<open>make\<close> for a negative capacity.  The goroutines of one batch append what they
  have dialled in any order, and the next batch starts after all of them.
\<close>

inductive dial_result :: "(int \<Rightarrow> 'c option) \<Rightarrow> int \<Rightarrow> 'c list option \<Rightarrow> bool" for dial n where
  dial_negative: "n < 0 \<Longrightarrow> dial_result dial n None"
| dial_batches: "0 \<le> n \<Longrightarrow>
    list_all2 (\<lambda>r conns. mset conns = mset (List.map_filter dial (batch_members r))) (batch_ranges 0 n) parts \<Longrightarrow>
    dial_result dial n (Some (concat parts))"

lemma mset_concat_all2:
  "list_all2 (\<lambda>r conns. mset conns = mset (f r)) rs parts \<Longrightarrow> mset (concat parts) = mset (concat (map f rs))"
  by (induction rule: list_all2_induct) simp_all

lemma map_filter_concat: "List.map_filter f (concat xss) = concat (map (List.map_filter f) xss)"
  by (induction xss) (simp_all add: List.map_filter_def)

lemma dial_all:
  assumes "dial_result dial n (Some conns)"
  shows "0 \<le> n \<and> mset conns = mset (List.map_filter dial [0..n - 1])"
  using assms
proof cases
  case (dial_batches parts)
  then have "mset conns = mset (concat (map (\<lambda>r. List.map_filter dial (batch_members r)) (batch_ranges 0 n)))"
    using mset_concat_all2 [of "\<lambda>r. List.map_filter dial (batch_members r)"] by simp
  also have "\<dots> = mset (List.map_filter dial (concat (map batch_members (batch_ranges 0 n))))"
    by (simp only: map_filter_concat map_map comp_def)
  finally show ?thesis using dial_batches by (simp only: batch_members_cover)
qed

section \<open>The summary of a burst\<close>

text \<open>\<open>int(f)\<close> for a finite float.\<close>

definition float_to_int :: "rat \<Rightarrow> int" where
  "float_to_int y = (if 0 \<le> y then \<lfloor>y\<rfloor> else \<lceil>y\<rceil>)"

definition index_at :: "int list \<Rightarrow> int \<Rightarrow> int option" where
  "index_at xs i = (if 0 \<le> i \<and> i < int (length xs) then Some (xs ! nat i) else None)"

definition pct :: "int list \<Rightarrow> rat \<Rightarrow> int option" where
  "pct latencies p =
     (if latencies = [] then Some 0
      else
        (case f_mul rnd64 (rnd64 (of_int (int (length latencies) - 1))) (rnd64 p) of
           Fin y \<Rightarrow> index_at latencies (float_to_int y)
         | _ \<Rightarrow> None))"

record burst_response =
  br_conns :: nat
  br_p50 :: int
  br_p99 :: int
  br_max :: int

text \<open>A slot of the latencies: it stays zero when the round trip fails.\<close>

definition latency_of :: "int option \<Rightarrow> int" where
  "latency_of r = (case r of Some d \<Rightarrow> d | None \<Rightarrow> 0)"

text \<open>
  The handler of \<open>/burst\<close> after the wait: a connection whose round trip failed has left its latency at
  zero.  \<open>None\<close> is the panic of an index out of range.
\<close>

definition burst :: "int option list \<Rightarrow> burst_response option" where
  "burst results =
     (let latencies = sort (map latency_of results) in
      case (pct latencies (1 / 2), pct latencies (99 / 100), index_at latencies (int (length latencies) - 1)) of
        (Some p50, Some p99, Some m) \<Rightarrow>
          Some \<lparr>br_conns = length results, br_p50 = p50, br_p99 = p99, br_max = m\<rparr>
      | _ \<Rightarrow> None)"

lemma rnd64_error:
  assumes "2 powi (- 100) \<le> \<bar>x\<bar>" and "\<bar>x\<bar> \<le> 2 ^ 100"
  shows "\<exists>y. rnd64 x = Fin y \<and> \<bar>y - x\<bar> \<le> \<bar>x\<bar> * 2 powi (- 53)"
proof -
  let ?y = "round_to 53 (- 1074) x"
  have "x \<noteq> 0"
  proof
    assume "x = 0"
    then have "(2 :: rat) powi (- 100) \<le> 0" using assms(1) by simp
    then show False using powi_two_pos [of "- 100"] by linarith
  qed
  moreover have "(2 :: rat) powi (- 1022) \<le> 2 powi (- 100)" unfolding powi_two_le by simp
  ultimately have e: "\<bar>?y - x\<bar> \<le> \<bar>x\<bar> * 2 powi (- 53)"
    using round_to_error [of x "- 1074" 53] assms(1) by simp
  have "\<bar>x\<bar> * 2 powi (- 53) \<le> \<bar>x\<bar> * 1" by (intro mult_left_mono) simp_all
  with e have "\<bar>?y\<bar> \<le> 2 * \<bar>x\<bar>" by linarith
  also have "\<dots> \<le> 2 powi 101" using assms(2) by simp
  also have "\<dots> < (2 :: rat) powi 1024" unfolding powi_two_less by simp
  finally have "\<not> 2 powi 1024 \<le> ?y" "\<not> ?y \<le> - (2 powi 1024)" by linarith+
  then have "rnd64 x = Fin ?y" unfolding rnd64_def rnd_def Let_def by (simp only: if_False)
  with e show ?thesis by blast
qed

lemma rnd64_half:
  assumes "\<bar>n\<bar> < 2 ^ 53"
  shows "rnd64 (of_int n / 2) = Fin (of_int n / 2)"
proof -
  have half: "(of_int n :: rat) * 2 powi (- 1) = of_int n / 2" by (simp add: power_int_minus)
  have r: "round_to 53 (- 1074) (of_int n / 2 :: rat) = of_int n / 2"
    using round_to_exact [of n 53 "- 1074" "- 1"] assms unfolding half by simp
  have "(of_int \<bar>n\<bar> :: rat) < of_int (2 ^ 53)" using assms by (simp only: of_int_less_iff)
  then have b: "\<bar>of_int n / 2 :: rat\<bar> < 2 powi 53" by simp
  have "(2 :: rat) powi 53 < 2 powi 1024" unfolding powi_two_less by simp
  with b have "\<not> (2 powi 1024 \<le> (of_int n / 2 :: rat))" "\<not> ((of_int n / 2 :: rat) \<le> - (2 powi 1024))" by linarith+
  then show ?thesis unfolding rnd64_def rnd_def Let_def r by (simp only: if_False)
qed

lemma half_index:
  assumes "0 \<le> k" and "k < 2 ^ 53"
  shows "f_mul rnd64 (rnd64 (of_int k)) (rnd64 (1 / 2)) = Fin (of_int k / 2)"
  using assms rnd64_int [of k] rnd64_half [of 1] rnd64_half [of k] by (simp add: f_mul_def)

lemma eps53: "(2 :: rat) powi (- 53) \<le> 1 / 1000"
  by (simp add: power_int_minus divide_simps)

lemma p99_constant: "\<exists>c. rnd64 (99 / 100) = Fin c \<and> 98 / 100 \<le> c \<and> c \<le> 992 / 1000"
proof -
  have "(2 :: rat) powi (- 100) \<le> 99 / 100" by (simp add: power_int_minus divide_simps)
  then obtain c where c: "rnd64 (99 / 100) = Fin c" "\<bar>c - 99 / 100\<bar> \<le> 99 / 100 * 2 powi (- 53)"
    using rnd64_error [of "99 / 100"] by auto
  have "(99 / 100 :: rat) * 2 powi (- 53) \<le> 99 / 100 * (1 / 1000)"
    using eps53 by (intro mult_left_mono) simp_all
  with c(2) have "98 / 100 \<le> c \<and> c \<le> 992 / 1000" by linarith
  with c(1) show ?thesis by blast
qed

lemma p99_index:
  assumes "0 \<le> k" and "k < 2 ^ 53"
  shows "\<exists>y. f_mul rnd64 (rnd64 (of_int k)) (rnd64 (99 / 100)) = Fin y \<and> of_int k / 2 \<le> y \<and> y \<le> of_int k"
proof -
  obtain c where c: "rnd64 (99 / 100) = Fin c" "98 / 100 \<le> c" "c \<le> 992 / 1000" using p99_constant by blast
  have m: "f_mul rnd64 (rnd64 (of_int k)) (rnd64 (99 / 100)) = rnd64 (of_int k * c)"
    using rnd64_int [of k] assms c(1) by (simp add: f_mul_def)
  show ?thesis
  proof (cases "k = 0")
    case True
    then show ?thesis unfolding m by (simp add: rnd64_def)
  next
    case False
    then have k: "(1 :: rat) \<le> of_int k" using assms(1) by simp
    let ?x = "of_int k * c :: rat"
    have lo: "of_int k * (98 / 100) \<le> ?x" and hi: "?x \<le> of_int k * (992 / 1000)"
      using k c by (intro mult_left_mono; simp)+
    have "(2 :: rat) powi (- 100) \<le> 98 / 100" by (simp add: power_int_minus divide_simps)
    then have small: "2 powi (- 100) \<le> \<bar>?x\<bar>" using lo k by linarith
    have "(of_int k :: rat) \<le> of_int (2 ^ 53)" using assms(2) using of_int_le_iff by fastforce
    then have "(of_int k :: rat) \<le> 2 ^ 100" by simp
    then have "\<bar>?x\<bar> \<le> 2 ^ 100" using lo hi k by linarith
    with small obtain y where y: "rnd64 ?x = Fin y" "\<bar>y - ?x\<bar> \<le> \<bar>?x\<bar> * 2 powi (- 53)"
      using rnd64_error by blast
    have "\<bar>?x\<bar> * 2 powi (- 53) \<le> \<bar>?x\<bar> * (1 / 1000)" using eps53 by (intro mult_left_mono) simp_all
    then have "\<bar>y - ?x\<bar> \<le> ?x / 1000" using y(2) lo k by linarith
    then have "of_int k / 2 \<le> y \<and> y \<le> of_int k" using lo hi k by linarith
    with y(1) show ?thesis unfolding m by blast
  qed
qed

lemma float_to_int_nonneg: "0 \<le> y \<Longrightarrow> float_to_int y = \<lfloor>y\<rfloor>"
  by (simp add: float_to_int_def)

lemma floor_half: "\<lfloor>of_int k / 2 :: rat\<rfloor> = k div 2"
  using floor_divide_of_int_eq [of k 2] by simp

lemma pct_half:
  assumes "xs \<noteq> []" and "length xs < 2 ^ 53"
  shows "pct xs (1 / 2) = Some (xs ! ((length xs - 1) div 2))"
proof -
  let ?k = "int (length xs) - 1"
  have k: "0 \<le> ?k" "?k < 2 ^ 53" using assms by (cases xs; simp)+
  have d: "?k div 2 = int ((length xs - 1) div 2)" using assms(1) by (cases xs) (simp_all add: zdiv_int)
  have l: "(length xs - 1) div 2 < length xs" using assms(1) by (cases xs) auto
  show ?thesis
    using assms(1) half_index [OF k] k(1) l
    by (simp add: pct_def float_to_int_nonneg floor_half d index_at_def del: of_int_diff)
qed

lemma pct_99:
  assumes "xs \<noteq> []" and "length xs < 2 ^ 53"
  shows "\<exists>i. (length xs - 1) div 2 \<le> i \<and> i < length xs \<and> pct xs (99 / 100) = Some (xs ! i)"
proof -
  let ?k = "int (length xs) - 1"
  have k: "0 \<le> ?k" "?k < 2 ^ 53" using assms by (cases xs; simp)+
  obtain y where y: "f_mul rnd64 (rnd64 (of_int ?k)) (rnd64 (99 / 100)) = Fin y"
    "of_int ?k / 2 \<le> y" "y \<le> of_int ?k"
    using p99_index [OF k] by blast
  have d: "?k div 2 = int ((length xs - 1) div 2)" using assms(1) by (cases xs) (simp_all add: zdiv_int)
  have "(0 :: rat) \<le> of_int ?k" using k(1) by (simp only: of_int_0_le_iff)
  then have "(0 :: rat) \<le> of_int ?k / 2" by (rule divide_nonneg_nonneg) simp
  then have nn: "0 \<le> y" using y(2) by (rule order_trans)
  have "?k div 2 \<le> \<lfloor>y\<rfloor>" unfolding floor_half [symmetric] using y(2) by (rule floor_mono)
  moreover have "\<lfloor>y\<rfloor> \<le> ?k" using y(3) by linarith
  ultimately have i: "int ((length xs - 1) div 2) \<le> \<lfloor>y\<rfloor>" "\<lfloor>y\<rfloor> < int (length xs)" "0 \<le> \<lfloor>y\<rfloor>"
    using d k(1) by linarith+
  have "pct xs (99 / 100) = Some (xs ! nat \<lfloor>y\<rfloor>)"
    using assms(1) y(1) nn i by (simp add: pct_def float_to_int_nonneg index_at_def del: of_int_diff)
  moreover have "(length xs - 1) div 2 \<le> nat \<lfloor>y\<rfloor>" "nat \<lfloor>y\<rfloor> < length xs" using i by linarith+
  ultimately show ?thesis by blast
qed

section \<open>Properties\<close>

text \<open>
  Dialling in batches tries every index below \<open>CONNS\<close> exactly once, in batches of at most 200, and
  holds exactly the connections whose dial succeeded, in whatever order the goroutines append; a negative
  number panics.
\<close>

theorem dial_covers:
  assumes "dial_result dial n res"
  shows "concat (map batch_members (batch_ranges 0 n)) = [0..n - 1] \<and>
    (\<forall>(a, b) \<in> set (batch_ranges 0 n). a < b \<and> b - a \<le> 200 \<and> b \<le> n) \<and>
    (case res of None \<Rightarrow> n < 0 | Some conns \<Rightarrow> 0 \<le> n \<and> mset conns = mset (List.map_filter dial [0..n - 1]))"
proof -
  have "\<forall>(a, b) \<in> set (batch_ranges 0 n). a < b \<and> b - a \<le> 200 \<and> b \<le> n"
    using batch_size_le [of _ _ 0 n] by (auto simp: batchSize_def)
  moreover have "case res of None \<Rightarrow> n < 0 | Some conns \<Rightarrow> 0 \<le> n \<and> mset conns = mset (List.map_filter dial [0..n - 1])"
    using assms dial_all [of dial n] by (cases res) (auto elim: dial_result.cases)
  ultimately show ?thesis by (simp only: batch_members_cover)
qed

definition demo_dial :: "int \<Rightarrow> int option" where
  "demo_dial i = (if i = 1 then None else Some (i * 10))"

lemma dial_covers_witness:
  "dial_result demo_dial 3 (Some [20, 0]) \<and> mset [20, 0] = mset (List.map_filter demo_dial [0..2])"
proof -
  have r: "batch_ranges 0 3 = [(0, 3)]" by (simp add: batch_ranges.simps batchSize_def)
  have "mset [20, 0] = mset (List.map_filter demo_dial [0..2])"
    by (simp add: demo_dial_def upto.simps List.map_filter_simps)
  then have "dial_result demo_dial 3 (Some (concat [[20, 0]]))"
    by (intro dial_batches) (simp_all add: r)
  then have d: "dial_result demo_dial 3 (Some [20, 0])" by simp
  show ?thesis using dial_covers [OF d] d by simp
qed

lemma burst_empty: "burst [] = None"
  by (simp add: burst_def pct_def index_at_def)

lemma sorted_zeros:
  assumes "sorted xs" and "\<forall>x \<in> set xs. (0 :: int) \<le> x" and "i < length (filter (\<lambda>x. x = 0) xs)"
  shows "xs ! i = 0"
  using assms
proof (induction xs arbitrary: i)
  case (Cons x xs)
  show ?case
  proof (cases "x = 0")
    case True
    then show ?thesis using Cons by (cases i) auto
  next
    case False
    then have "filter (\<lambda>x. x = 0) xs = []" using Cons.prems by (fastforce simp: filter_empty_conv)
    with Cons.prems(3) False show ?thesis by simp
  qed
qed simp

text \<open>
  The summary of a burst over at least one connection exists, and its median, its 99th percentile and its
  maximum are latencies of the burst in this order, none above the maximum; but round trips that failed count as
  latency zero, so that the median is zero as soon as more than half of them fail.  Over no connection the
  handler panics, although \<open>pct\<close> has a case for it.
\<close>

theorem burst_summary:
  assumes "length results < 2 ^ 53" and "\<forall>d. Some d \<in> set results \<longrightarrow> 0 \<le> d"
  shows "(results = [] \<longleftrightarrow> burst results = None) \<and>
    (\<forall>r. burst results = Some r \<longrightarrow>
       br_conns r = length results \<and> br_p50 r \<le> br_p99 r \<and> br_p99 r \<le> br_max r \<and>
       {br_p50 r, br_p99 r, br_max r} \<subseteq> latency_of ` set results \<and>
       (\<forall>d. Some d \<in> set results \<longrightarrow> d \<le> br_max r) \<and>
       (length results < 2 * length (filter (\<lambda>v. v = None) results) \<longrightarrow> br_p50 r = 0))"
proof (cases "results = []")
  case True
  then show ?thesis by (simp add: burst_empty)
next
  case ne: False
  define xs where "xs = sort (map latency_of results)"
  have xs2: "length xs = length results" "sorted xs" "set xs = latency_of ` set results"
    by (simp_all add: xs_def)
  then have "xs \<noteq> []" using ne by (metis length_0_conv)
  note xs = this xs2
  let ?n = "length xs - 1"
  have n: "?n < length xs" using xs(1) by (cases xs) auto
  have len: "length xs < 2 ^ 53" using assms(1) xs(2) by simp
  note p50 = pct_half [OF xs(1) len]
  obtain i where i: "?n div 2 \<le> i" "i < length xs" and p99: "pct xs (99 / 100) = Some (xs ! i)"
    using pct_99 [OF xs(1) len] by blast
  have "nat (int (length xs) - 1) = ?n" by simp
  then have m: "index_at xs (int (length xs) - 1) = Some (xs ! ?n)"
    using n xs(1) by (simp add: index_at_def)
  have b: "burst results = Some \<lparr>br_conns = length results, br_p50 = xs ! (?n div 2), br_p99 = xs ! i, br_max = xs ! ?n\<rparr>"
    unfolding burst_def Let_def xs_def [symmetric] p50 p99 m by simp
  have le: "xs ! (?n div 2) \<le> xs ! i" "xs ! i \<le> xs ! ?n"
    using xs(3) i n by (auto intro: sorted_nth_mono)
  have mem: "{xs ! (?n div 2), xs ! i, xs ! ?n} \<subseteq> latency_of ` set results"
    using nth_mem [of "?n div 2" xs] nth_mem [of i xs] nth_mem [of ?n xs] i n unfolding xs(4) by simp
  have top: "d \<le> xs ! ?n" if "Some d \<in> set results" for d
  proof -
    have "d \<in> set xs" using that xs(4) by (force simp: latency_of_def)
    then obtain j where "j < length xs" "xs ! j = d" by (auto simp: in_set_conv_nth)
    then show ?thesis using xs(3) n by (auto intro: sorted_nth_mono)
  qed
  have zero: "xs ! (?n div 2) = 0" if "length results < 2 * length (filter (\<lambda>v. v = None) results)"
  proof -
    have "length (filter (\<lambda>x. x = 0) xs) = length (filter (\<lambda>x. x = 0) (map latency_of results))"
      unfolding xs_def by (simp add: filter_sort)
    also have "length (filter (\<lambda>v. v = None) results) \<le> \<dots>"
      by (induction results) (auto simp: latency_of_def)
    finally have "length xs < 2 * length (filter (\<lambda>x. x = 0) xs)" using that xs(2) by linarith
    then have "?n div 2 < length (filter (\<lambda>x. x = 0) xs)" using xs(1) by linarith
    moreover have "\<forall>x \<in> set xs. 0 \<le> x" using assms(2) xs(4) by (auto simp: latency_of_def split: option.split)
    ultimately show ?thesis using sorted_zeros xs(3) by blast
  qed
  show ?thesis using b ne le mem top zero by simp
qed

lemma burst_summary_witness:
  "\<exists>r. burst [Some 5, None, Some 3, None, None] = Some r \<and> br_p50 r = 0 \<and> 5 \<le> br_max r"
proof -
  let ?rs = "[Some 5, None, Some 3, None, None]"
  have "\<forall>d. Some d \<in> set ?rs \<longrightarrow> (0 :: int) \<le> d" by auto
  from burst_summary [OF _ this] show ?thesis by (cases "burst ?rs") auto
qed

end
