(* ===== verification/Lab_Hash.thy ===== *)
theory Lab_Hash
  imports Lab_Counters Go_Sha256
begin

text \<open>
  \<open>labs/0101-go-gomaxprocs-cgroups/main.go\<close>: one worker per \<open>GOMAXPROCS\<close>, each hashing a buffer of its own into
  its first byte and counting the hash in a shared atomic counter, and the reporter of every second.  The
  worker's hash and its count are two steps.  \<open>hs_iters\<close> and \<open>hs_ops\<close> are histories: the hashes each worker has
  done, and all that have been counted.
\<close>

section \<open>The program\<close>

datatype hash_pc = Loop_Top | Hashed | Hash_Returned

record hash_state =
  hs_counter :: u64
  hs_stop :: bool
  hs_workers :: "hash_pc list"
  hs_data :: "bytes list"
  hs_iters :: "nat list"
  hs_ops :: nat
  hs_last :: u64
  hs_reports :: "u64 list"

text \<open>\<open>sum := sha256.Sum256(data); data[0] = sum[0]\<close>\<close>

definition hash_once :: "bytes \<Rightarrow> bytes" where
  "hash_once data = data[0 := hd (Sum256 data)]"

definition hash_start :: "nat \<Rightarrow> hash_state" where
  "hash_start numWorkers =
     \<lparr>hs_counter = 0, hs_stop = False, hs_workers = replicate numWorkers Loop_Top,
      hs_data = replicate numWorkers (replicate 64 0), hs_iters = replicate numWorkers 0, hs_ops = 0,
      hs_last = 0, hs_reports = []\<rparr>"

definition hash_at :: "hash_state \<Rightarrow> nat \<Rightarrow> hash_pc \<Rightarrow> bool" where
  "hash_at s i p \<longleftrightarrow> i < length (hs_workers s) \<and> hs_workers s ! i = p"

text \<open>The default case of the select is taken only while \<open>stop\<close> is open; nothing closes it.\<close>

inductive hash_step :: "hash_state \<Rightarrow> hash_state \<Rightarrow> bool" where
  h_return: "hash_at s i Loop_Top \<Longrightarrow> hs_stop s \<Longrightarrow>
    hash_step s (s\<lparr>hs_workers := (hs_workers s)[i := Hash_Returned]\<rparr>)"
| h_hash: "hash_at s i Loop_Top \<Longrightarrow> \<not> hs_stop s \<Longrightarrow>
    hash_step s (s\<lparr>hs_workers := (hs_workers s)[i := Hashed],
      hs_data := (hs_data s)[i := hash_once (hs_data s ! i)], hs_iters := (hs_iters s)[i := hs_iters s ! i + 1]\<rparr>)"
| h_add: "hash_at s i Hashed \<Longrightarrow>
    hash_step s (s\<lparr>hs_workers := (hs_workers s)[i := Loop_Top], hs_counter := hs_counter s + 1, hs_ops := hs_ops s + 1\<rparr>)"
| h_report: "hash_step s (s\<lparr>hs_reports := hs_reports s @ [hs_counter s - hs_last s], hs_last := hs_counter s\<rparr>)"

inductive hash_reach :: "nat \<Rightarrow> hash_state \<Rightarrow> bool" for n where
  hash_refl: "hash_reach n (hash_start n)"
| hash_more: "hash_reach n s \<Longrightarrow> hash_step s t \<Longrightarrow> hash_reach n t"

section \<open>The counter is that of the atomic mode of lab 0104\<close>

text \<open>The hashing forgotten, what remains is a worker that adds one atomically.\<close>

definition counter_view :: "hash_state \<Rightarrow> counter_state" where
  "counter_view s =
     \<lparr>cs_counter = hs_counter s, cs_mutex = None, cs_workers = replicate (length (hs_workers s)) Outside,
      cs_owner = Owner_Receiving, cs_requests = 0, cs_ops = hs_ops s, cs_last = hs_last s, cs_reports = hs_reports s\<rparr>"

lemma hash_simulates:
  "hash_step s t \<Longrightarrow> counter_view t = counter_view s \<or> contention_step ''atomic'' (counter_view s) (counter_view t)"
proof (induction rule: hash_step.induct)
  case (h_add s i)
  then have "at_worker (counter_view s) i Outside" by (simp add: hash_at_def at_worker_def counter_view_def)
  from ct_atomic [OF _ this, of "''atomic''"] show ?case by (simp add: counter_view_def)
next
  case (h_report s)
  show ?case using ct_report [of "''atomic''" "counter_view s"] by (simp add: counter_view_def report_def)
qed (simp_all add: counter_view_def)

lemma hash_counter_reach:
  "hash_reach n s \<Longrightarrow> counter_reach (contention_step ''atomic'') (counter_start (int n)) (counter_view s)"
proof (induction rule: hash_reach.induct)
  case hash_refl
  show ?case by (simp add: counter_view_def hash_start_def counter_start_def counter_refl)
next
  case (hash_more s t)
  then show ?case using hash_simulates [of s t] counter_more by fastforce
qed

section \<open>What the workers keep\<close>

text \<open>A worker that has hashed and not counted yet is one ahead of the counter.\<close>

definition ahead :: "hash_pc \<Rightarrow> nat" where
  "ahead p = (if p = Hashed then 1 else 0)"

definition hash_inv :: "nat \<Rightarrow> hash_state \<Rightarrow> bool" where
  "hash_inv n s \<longleftrightarrow>
     length (hs_workers s) = n \<and> length (hs_iters s) = n \<and> \<not> hs_stop s \<and> Hash_Returned \<notin> set (hs_workers s) \<and>
     hs_data s = map (\<lambda>k. (hash_once ^^ k) (replicate 64 0)) (hs_iters s) \<and>
     sum_list (hs_iters s) = hs_ops s + sum_list (map ahead (hs_workers s))"

lemma hash_inv_start: "hash_inv n (hash_start n)"
  by (simp add: hash_inv_def hash_start_def ahead_def sum_list_replicate map_replicate_const)

lemma hash_inv_step:
  assumes "hash_step s t" and inv: "hash_inv n s"
  shows "hash_inv n t"
  using assms(1)
proof cases
  case (h_return i)
  with inv show ?thesis by (simp add: hash_inv_def)
next
  case (h_hash i)
  then have i: "i < n" "hs_workers s ! i = Loop_Top" using inv by (simp_all add: hash_at_def hash_inv_def)
  have "sum_list (map ahead ((hs_workers s)[i := Hashed])) = sum_list (map ahead (hs_workers s)) + 1"
    using sum_list_update [of i "hs_workers s" ahead Hashed] i inv by (simp add: hash_inv_def ahead_def)
  moreover have "sum_list ((hs_iters s)[i := hs_iters s ! i + 1]) = sum_list (hs_iters s) + 1"
    using sum_list_update [of i "hs_iters s" "\<lambda>k. k" "hs_iters s ! i + 1"] i inv by (simp add: hash_inv_def)
  moreover have "Hash_Returned \<notin> set ((hs_workers s)[i := Hashed])"
    using inv set_update_subset_insert [of "hs_workers s" i Hashed] by (auto simp: hash_inv_def)
  ultimately show ?thesis
    using inv h_hash i by (simp add: hash_inv_def map_update)
next
  case (h_add i)
  then have i: "i < n" "hs_workers s ! i = Hashed" using inv by (simp_all add: hash_at_def hash_inv_def)
  have "sum_list (map ahead ((hs_workers s)[i := Loop_Top])) + 1 = sum_list (map ahead (hs_workers s))"
    using sum_list_update [of i "hs_workers s" ahead Loop_Top] i inv by (simp add: hash_inv_def ahead_def)
  moreover have "Hash_Returned \<notin> set ((hs_workers s)[i := Loop_Top])"
    using inv set_update_subset_insert [of "hs_workers s" i Loop_Top] by (auto simp: hash_inv_def)
  ultimately show ?thesis using inv h_add by (simp add: hash_inv_def)
qed (use inv in \<open>simp add: hash_inv_def\<close>)

lemma hash_reach_inv: "hash_reach n s \<Longrightarrow> hash_inv n s"
  by (induction rule: hash_reach.induct) (auto intro: hash_inv_start hash_inv_step)

lemma ahead_bound: "sum_list (map ahead ps) \<le> length ps"
  by (induction ps) (auto simp: ahead_def)

section \<open>Properties\<close>

text \<open>
  The throughput that is reported is that of the hashes.  In every interleaving the counter is the number of hashes
  counted, the reports add up to its last reading, and the hashes done are ahead of it by at most one per worker;
  each worker's buffer is its own, the repeated hash of 64 zero bytes; and no worker ever returns, since
  nothing closes \<open>stop\<close>.
\<close>

theorem hashing_workers:
  assumes "hash_reach n s"
  shows "hs_counter s = of_nat (hs_ops s) \<and> sum_list (hs_reports s) = hs_last s \<and>
    hs_ops s \<le> sum_list (hs_iters s) \<and> sum_list (hs_iters s) \<le> hs_ops s + n \<and>
    hs_data s = map (\<lambda>k. (hash_once ^^ k) (replicate 64 0)) (hs_iters s) \<and>
    Hash_Returned \<notin> set (hs_workers s)"
  using hash_reach_inv [OF assms] ahead_bound [of "hs_workers s"]
    contention.reach_counts [OF hash_counter_reach [OF assms]]
  by (simp add: hash_inv_def counter_view_def)

theorem hashing_workers_witness:
  "\<exists>s. hash_reach 2 s \<and> hs_iters s = [0, 1] \<and> hs_counter s = 1 \<and> hs_data s ! 1 = hash_once (replicate 64 0)"
proof -
  let ?a = "hash_start 2" and ?i = "Suc 0"
  let ?b = "?a\<lparr>hs_workers := (hs_workers ?a)[?i := Hashed],
      hs_data := (hs_data ?a)[?i := hash_once (hs_data ?a ! ?i)], hs_iters := (hs_iters ?a)[?i := hs_iters ?a ! ?i + 1]\<rparr>"
  let ?c = "?b\<lparr>hs_workers := (hs_workers ?b)[?i := Loop_Top], hs_counter := hs_counter ?b + 1, hs_ops := hs_ops ?b + 1\<rparr>"
  have "hash_step ?a ?b" by (rule h_hash) (simp_all add: hash_at_def hash_start_def)
  then have "hash_reach 2 ?b" by (rule hash_more [OF hash_refl])
  moreover have "hash_step ?b ?c" by (rule h_add) (simp add: hash_at_def hash_start_def)
  ultimately have r: "hash_reach 2 ?c" by (rule hash_more)
  have it: "hs_iters ?c = [0, 1]" by (simp add: hash_start_def numeral_2_eq_2)
  have "hs_data ?c = map (\<lambda>k. (hash_once ^^ k) (replicate 64 0)) (hs_iters ?c)" "hs_counter ?c = of_nat (hs_ops ?c)"
    using hashing_workers [OF r] by blast+
  moreover have "hs_ops ?c = 1" by (simp add: hash_start_def)
  ultimately have "hs_data ?c ! 1 = hash_once (replicate 64 0)" "hs_counter ?c = 1" unfolding it by simp_all
  with r it show ?thesis by blast
qed

end
