(* ===== verification/Lab_Server.thy ===== *)
theory Lab_Server
  imports Go_Sha256 Go_Net
begin

text \<open>
  A server goroutine that answers one byte at a time, and \<open>labs/0102-go-netpoller-epoll/server.go\<close>, which runs one for every
  connection and counts them.  A connection is the bytes on their way up and down and whether its client has hung up;
  after that a read or a write of the server may fail.  The loop of \<open>handleConn\<close>, and that of the delay server of lab
  0103, is \<open>serve_step\<close> with what they do to a byte.  \<open>dx_sent\<close> and \<open>dx_got\<close> are histories of what the client
  wrote and read.
\<close>

section \<open>Answering bytes\<close>

datatype serve_pc = Reading | Serving byte | Writing byte | Leaving | Gone

record duplex =
  dx_pc :: serve_pc
  dx_up :: bytes
  dx_down :: bytes
  dx_hangup :: bool
  dx_sent :: bytes
  dx_got :: bytes

definition new_duplex :: duplex where
  "new_duplex = \<lparr>dx_pc = Reading, dx_up = [], dx_down = [], dx_hangup = False, dx_sent = [], dx_got = []\<rparr>"

inductive serve_step :: "(byte \<Rightarrow> byte) \<Rightarrow> duplex \<Rightarrow> duplex \<Rightarrow> bool" for f where
  v_read: "dx_pc c = Reading \<Longrightarrow> dx_up c = b # bs \<Longrightarrow> serve_step f c (c\<lparr>dx_up := bs, dx_pc := Serving b\<rparr>)"
| v_read_err: "dx_pc c = Reading \<Longrightarrow> dx_hangup c \<Longrightarrow> serve_step f c (c\<lparr>dx_pc := Leaving\<rparr>)"
| v_serve: "dx_pc c = Serving b \<Longrightarrow> serve_step f c (c\<lparr>dx_pc := Writing (f b)\<rparr>)"
| v_write: "dx_pc c = Writing b \<Longrightarrow> serve_step f c (c\<lparr>dx_down := dx_down c @ [b], dx_pc := Reading\<rparr>)"
| v_write_err: "dx_pc c = Writing b \<Longrightarrow> dx_hangup c \<Longrightarrow> serve_step f c (c\<lparr>dx_pc := Leaving\<rparr>)"

text \<open>What a client can do.\<close>

inductive client_step :: "duplex \<Rightarrow> duplex \<Rightarrow> bool" where
  k_send: "\<not> dx_hangup c \<Longrightarrow> client_step c (c\<lparr>dx_up := dx_up c @ [b], dx_sent := dx_sent c @ [b]\<rparr>)"
| k_recv: "\<not> dx_hangup c \<Longrightarrow> dx_down c = b # bs \<Longrightarrow> client_step c (c\<lparr>dx_down := bs, dx_got := dx_got c @ [b]\<rparr>)"
| k_hangup: "client_step c (c\<lparr>dx_hangup := True\<rparr>)"

text \<open>The byte the server holds, and the answers it has still to give.\<close>

fun in_hand :: "(byte \<Rightarrow> byte) \<Rightarrow> serve_pc \<Rightarrow> bytes" where
  "in_hand f (Serving b) = [f b]"
| "in_hand f (Writing b) = [b]"
| "in_hand f _ = []"

text \<open>The answers are those of the bytes in their order; only a server that has given up may owe some.\<close>

definition duplex_ok :: "(byte \<Rightarrow> byte) \<Rightarrow> duplex \<Rightarrow> bool" where
  "duplex_ok f c \<longleftrightarrow>
     (if dx_pc c = Leaving \<or> dx_pc c = Gone
      then dx_hangup c \<and> (\<exists>owed. map f (dx_sent c) = dx_got c @ dx_down c @ owed)
      else map f (dx_sent c) = dx_got c @ dx_down c @ in_hand f (dx_pc c) @ map f (dx_up c))"

lemma new_duplex_ok: "duplex_ok f new_duplex"
  by (simp add: duplex_ok_def new_duplex_def)

lemma serve_step_ok:
  assumes "serve_step f c c'" and "duplex_ok f c"
  shows "duplex_ok f c'"
  using assms
proof cases
  case (v_write_err b)
  with assms(2) show ?thesis
    by (auto simp: duplex_ok_def intro: exI [of _ "b # map f (dx_up c)"])
next
  case v_read_err
  with assms(2) show ?thesis by (auto simp: duplex_ok_def)
qed (use assms(2) in \<open>auto simp: duplex_ok_def\<close>)

lemma client_step_ok: "client_step c c' \<Longrightarrow> duplex_ok f c \<Longrightarrow> duplex_ok f c'"
  by (induction rule: client_step.induct) (auto simp: duplex_ok_def split: if_splits)

fun serve_rank :: "serve_pc \<Rightarrow> nat" where
  "serve_rank Reading = 3"
| "serve_rank (Serving _) = 6"
| "serve_rank (Writing _) = 5"
| "serve_rank Leaving = 2"
| "serve_rank Gone = 0"

definition duplex_work :: "duplex \<Rightarrow> nat" where
  "duplex_work c = 4 * length (dx_up c) + serve_rank (dx_pc c)"

lemma serve_step_work: "serve_step f c c' \<Longrightarrow> duplex_work c' < duplex_work c"
  by (induction rule: serve_step.induct) (auto simp: duplex_work_def)

lemma serve_waits:
  assumes "\<nexists>c'. serve_step f c c'"
  shows "dx_pc c = Leaving \<or> dx_pc c = Gone \<or> dx_pc c = Reading \<and> dx_up c = [] \<and> \<not> dx_hangup c"
  using assms v_serve [of c _ f] v_write [of c _ f] v_read [of c _ _ f] v_read_err [of c f]
  by (cases "dx_pc c"; cases "dx_up c") auto

section \<open>The server of lab 0102\<close>

definition workIterations :: nat where
  "workIterations = 2000"

definition doWork :: byte where
  "doWork = hd (((\<lambda>data. data[0 := hd (Sum256 data)]) ^^ workIterations) (replicate 32 0))"

text \<open>
  A handler is entered when its goroutine has added itself to \<open>active\<close>; the deferred calls take it out again
  and then close the connection.
\<close>

record server =
  srv_active :: go_int
  srv_fresh :: "duplex list"
  srv_conns :: "duplex list"
  srv_reports :: "go_int list"

definition server_start :: server where
  "server_start = \<lparr>srv_active = 0, srv_fresh = [], srv_conns = [], srv_reports = []\<rparr>"

definition conn_at :: "server \<Rightarrow> nat \<Rightarrow> duplex \<Rightarrow> bool" where
  "conn_at s i c \<longleftrightarrow> i < length (srv_conns s) \<and> srv_conns s ! i = c"

text \<open>\<open>handleConn\<close>.\<close>

inductive handler_step :: "server \<Rightarrow> server \<Rightarrow> bool" where
  s_enter: "srv_fresh s = c # cs \<Longrightarrow>
    handler_step s (s\<lparr>srv_active := srv_active s + 1, srv_fresh := cs, srv_conns := srv_conns s @ [c]\<rparr>)"
| s_serve: "conn_at s i c \<Longrightarrow> serve_step (\<lambda>b. doWork) c c' \<Longrightarrow> handler_step s (s\<lparr>srv_conns := (srv_conns s)[i := c']\<rparr>)"
| s_leave: "conn_at s i c \<Longrightarrow> dx_pc c = Leaving \<Longrightarrow>
    handler_step s (s\<lparr>srv_active := srv_active s - 1, srv_conns := (srv_conns s)[i := c\<lparr>dx_pc := Gone\<rparr>]\<rparr>)"

text \<open>The accept loop and the reporter of \<open>main\<close>, and the clients.\<close>

inductive server_step :: "server \<Rightarrow> server \<Rightarrow> bool" where
  s_handler: "handler_step s t \<Longrightarrow> server_step s t"
| s_accept: "server_step s (s\<lparr>srv_fresh := srv_fresh s @ [new_duplex]\<rparr>)"
| s_accept_err: "server_step s s"
| s_report: "server_step s (s\<lparr>srv_reports := srv_reports s @ [srv_active s]\<rparr>)"
| s_client: "conn_at s i c \<Longrightarrow> client_step c c' \<Longrightarrow> server_step s (s\<lparr>srv_conns := (srv_conns s)[i := c']\<rparr>)"
| s_client_fresh: "srv_fresh s = cs @ c # ds \<Longrightarrow> client_step c c' \<Longrightarrow>
    server_step s (s\<lparr>srv_fresh := cs @ c' # ds\<rparr>)"

inductive server_reach :: "server \<Rightarrow> bool" where
  server_init: "server_reach server_start"
| server_more: "server_reach s \<Longrightarrow> server_step s t \<Longrightarrow> server_reach t"

text \<open>
  \<open>main\<close>: \<open>Inl\<close> is the exit status when \<open>net.Listen\<close> fails, \<open>Inr\<close> what the accept loop has logged and handed to handlers.
\<close>

definition server_main ::
  "environment \<Rightarrow> (string \<Rightarrow> string option) \<Rightarrow> (string + 'c) list \<Rightarrow> nat + string list \<times> 'c list" where
  "server_main env listen accepted =
     (case listen (env_or env ''LISTEN_ADDR'' '':9000'') of
        Some err \<Rightarrow> Inl 1
      | None \<Rightarrow> Inr (accept_loop ''accept error: '' accepted))"

section \<open>The invariant\<close>

definition counted_conn :: "duplex \<Rightarrow> nat" where
  "counted_conn c = (if dx_pc c = Gone then 0 else 1)"

definition server_inv :: "server \<Rightarrow> bool" where
  "server_inv s \<longleftrightarrow>
     srv_active s = of_nat (sum_list (map counted_conn (srv_conns s))) \<and>
     (\<forall>c \<in> set (srv_conns s). duplex_ok (\<lambda>b. doWork) c) \<and>
     (\<forall>c \<in> set (srv_fresh s). duplex_ok (\<lambda>b. doWork) c \<and> dx_pc c = Reading)"

lemma client_step_pc: "client_step c c' \<Longrightarrow> dx_pc c' = dx_pc c"
  by (induction rule: client_step.induct) simp_all

lemma serve_step_pc: "serve_step f c c' \<Longrightarrow> dx_pc c \<noteq> Gone \<and> dx_pc c' \<noteq> Gone"
  by (induction rule: serve_step.induct) simp_all

lemma conns_update:
  assumes "conn_at s i c"
  shows "sum_list (map counted_conn ((srv_conns s)[i := c'])) + counted_conn c =
      sum_list (map counted_conn (srv_conns s)) + counted_conn c'"
    and "x \<in> set ((srv_conns s)[i := c']) \<Longrightarrow> x = c' \<or> x \<in> set (srv_conns s)"
    and "c \<in> set (srv_conns s)"
  using sum_list_update [of i "srv_conns s" counted_conn c'] assms set_update_subset_insert [of "srv_conns s" i c']
  by (auto simp: conn_at_def)

lemma handler_step_inv:
  assumes "handler_step s t" and inv: "server_inv s"
  shows "server_inv t"
  using assms(1)
proof cases
  case (s_enter c cs)
  with inv show ?thesis by (auto simp: server_inv_def counted_conn_def)
next
  case (s_serve i c c')
  note u = conns_update(1,2) [where c' = c', OF s_serve(2)] conns_update(3) [OF s_serve(2)]
  have "duplex_ok (\<lambda>b. doWork) c'" using serve_step_ok [OF s_serve(3)] u(3) inv by (simp add: server_inv_def)
  moreover have "counted_conn c = counted_conn c'" using serve_step_pc [OF s_serve(3)] by (simp add: counted_conn_def)
  ultimately show ?thesis using inv u(1,2) unfolding s_serve(1) by (auto simp: server_inv_def)
next
  case (s_leave i c)
  note u = conns_update(1,2) [where c' = "c\<lparr>dx_pc := Gone\<rparr>", OF s_leave(2)] conns_update(3) [OF s_leave(2)]
  have "duplex_ok (\<lambda>b. doWork) (c\<lparr>dx_pc := Gone\<rparr>)"
    using u(3) inv s_leave(3) by (auto simp: server_inv_def duplex_ok_def dest!: bspec [of _ _ c])
  moreover have "sum_list (map counted_conn (srv_conns s)) =
      sum_list (map counted_conn ((srv_conns s)[i := c\<lparr>dx_pc := Gone\<rparr>])) + 1"
    using u(1) s_leave(3) by (simp add: counted_conn_def)
  ultimately show ?thesis using inv u(2) unfolding s_leave(1) by (auto simp: server_inv_def)
qed

lemma server_step_inv:
  assumes "server_step s t" and inv: "server_inv s"
  shows "server_inv t"
  using assms(1)
proof cases
  case s_handler
  then show ?thesis by (rule handler_step_inv [OF _ inv])
next
  case s_accept
  with inv show ?thesis using new_duplex_ok by (auto simp: server_inv_def new_duplex_def)
next
  case (s_client i c c')
  note u = conns_update(1,2) [where c' = c', OF s_client(2)] conns_update(3) [OF s_client(2)]
  have "duplex_ok (\<lambda>b. doWork) c'" using client_step_ok [OF s_client(3)] u(3) inv by (simp add: server_inv_def)
  moreover have "counted_conn c = counted_conn c'" using client_step_pc [OF s_client(3)] by (simp add: counted_conn_def)
  ultimately show ?thesis using inv u(1,2) unfolding s_client(1) by (auto simp: server_inv_def)
next
  case (s_client_fresh cs c ds c')
  then show ?thesis
    using inv client_step_ok [OF s_client_fresh(3)] client_step_pc [OF s_client_fresh(3)]
    by (auto simp: server_inv_def)
qed (use inv in \<open>simp_all add: server_inv_def\<close>)

lemma server_reach_inv: "server_reach s \<Longrightarrow> server_inv s"
proof (induction rule: server_reach.induct)
  case server_init
  show ?case by (simp add: server_inv_def server_start_def)
qed (rule server_step_inv)

section \<open>Progress\<close>

definition server_work :: "server \<Rightarrow> nat" where
  "server_work s = sum_list (map duplex_work (srv_conns s)) + sum_list (map (\<lambda>c. duplex_work c + 1) (srv_fresh s))"

lemma handler_step_work: "handler_step s t \<Longrightarrow> server_work t < server_work s"
proof (induction rule: handler_step.induct)
  case (s_serve s i c c')
  then show ?case
    using sum_list_update [of i "srv_conns s" duplex_work c'] serve_step_work [OF s_serve(2)]
    by (auto simp: server_work_def conn_at_def)
next
  case (s_leave s i c)
  have "duplex_work (c\<lparr>dx_pc := Gone\<rparr>) < duplex_work c" using s_leave(2) by (simp add: duplex_work_def)
  with s_leave(1) show ?case
    using sum_list_update [of i "srv_conns s" duplex_work "c\<lparr>dx_pc := Gone\<rparr>"]
    by (auto simp: server_work_def conn_at_def)
qed (simp add: server_work_def)

interpretation handlers: measured handler_step server_work
  by unfold_locales (rule handler_step_work)

lemma handlers_wait:
  assumes "\<nexists>t. handler_step s t"
  shows "srv_fresh s = []"
    and "c \<in> set (srv_conns s) \<Longrightarrow> dx_pc c = Gone \<or> dx_pc c = Reading \<and> dx_up c = [] \<and> \<not> dx_hangup c"
proof -
  show "srv_fresh s = []" using assms s_enter [of s] by (cases "srv_fresh s") auto
  assume "c \<in> set (srv_conns s)"
  then obtain i where i: "conn_at s i c" by (auto simp: conn_at_def in_set_conv_nth)
  have "\<nexists>c'. serve_step (\<lambda>b. doWork) c c'" using assms s_serve [OF i] by blast
  from serve_waits [OF this] show "dx_pc c = Gone \<or> dx_pc c = Reading \<and> dx_up c = [] \<and> \<not> dx_hangup c"
    using assms s_leave [OF i] by blast
qed

section \<open>Properties\<close>

text \<open>
  The server of lab 0102 answers every byte of a connection with one byte, in order, all of them the result of
  \<open>doWork\<close>, under every interleaving of its handlers and any number of clients; and \<open>active\<close> is the number of handlers that have
  been entered and have not left.
\<close>

theorem server_answers:
  assumes "server_reach s" and "c \<in> set (srv_conns s)"
  shows "(\<exists>owed. map (\<lambda>b. doWork) (dx_sent c) = dx_got c @ dx_down c @ owed) \<and>
    (\<forall>b \<in> set (dx_got c). b = doWork) \<and> length (dx_got c) \<le> length (dx_sent c) \<and>
    srv_active s = of_nat (length (filter (\<lambda>c. dx_pc c \<noteq> Gone) (srv_conns s)))"
proof -
  have inv: "server_inv s" by (rule server_reach_inv [OF assms(1)])
  then have "duplex_ok (\<lambda>b. doWork) c" using assms(2) by (simp add: server_inv_def)
  then obtain owed where o: "map (\<lambda>b. doWork) (dx_sent c) = dx_got c @ dx_down c @ owed"
    by (auto simp: duplex_ok_def split: if_splits)
  have "set (dx_got c) \<subseteq> {doWork}" using arg_cong [OF o, of set] by auto
  moreover have "length (dx_got c) \<le> length (dx_sent c)" using arg_cong [OF o, of length] by simp
  moreover have "sum_list (map counted_conn cs) = length (filter (\<lambda>c. dx_pc c \<noteq> Gone) cs)" for cs
    by (induction cs) (simp_all add: counted_conn_def)
  ultimately show ?thesis using o inv by (auto simp: server_inv_def)
qed

text \<open>
  The handlers make finitely many steps between two events, and when none can move, every byte sent on a
  connection whose client has not hung up has been answered, every connection whose client has is closed, and \<open>active\<close> counts
  exactly the others: a burst over all connections is answered completely, and no handler is left behind.
\<close>

theorem server_drains:
  assumes "server_reach s"
  shows "(\<forall>t. handler_step s t \<longrightarrow> server_work t < server_work s) \<and>
    (\<exists>t. rtranclp handler_step s t \<and> (\<nexists>u. handler_step t u)) \<and>
    ((\<nexists>t. handler_step s t) \<longrightarrow>
      (\<forall>c \<in> set (srv_conns s). if dx_hangup c then dx_pc c = Gone
         else dx_pc c = Reading \<and> map (\<lambda>b. doWork) (dx_sent c) = dx_got c @ dx_down c) \<and>
      srv_active s = of_nat (length (filter (\<lambda>c. \<not> dx_hangup c) (srv_conns s))))"
proof -
  have inv: "server_inv s" by (rule server_reach_inv [OF assms])
  have "(\<forall>c \<in> set (srv_conns s). if dx_hangup c then dx_pc c = Gone
         else dx_pc c = Reading \<and> map (\<lambda>b. doWork) (dx_sent c) = dx_got c @ dx_down c) \<and>
      srv_active s = of_nat (length (filter (\<lambda>c. \<not> dx_hangup c) (srv_conns s)))"
    if stuck: "\<nexists>t. handler_step s t"
  proof -
    have c: "if dx_hangup c then dx_pc c = Gone
        else dx_pc c = Reading \<and> map (\<lambda>b. doWork) (dx_sent c) = dx_got c @ dx_down c"
      if "c \<in> set (srv_conns s)" for c
      using handlers_wait(2) [OF stuck that] inv that by (auto simp: server_inv_def duplex_ok_def)
    have "sum_list (map counted_conn cs) = length (filter (\<lambda>c. \<not> dx_hangup c) cs)" if "set cs \<subseteq> set (srv_conns s)" for cs
      using that c by (induction cs) (auto simp: counted_conn_def split: if_splits)
    then show ?thesis using c inv by (simp add: server_inv_def)
  qed
  then show ?thesis using handler_step_work handlers.comes_to_rest [of s] by blast
qed

section \<open>A run\<close>

definition one_conn :: "duplex \<Rightarrow> server" where
  "one_conn c = \<lparr>srv_active = 1, srv_fresh = [], srv_conns = [c], srv_reports = []\<rparr>"

lemma one_conn_serve: "server_reach (one_conn c) \<Longrightarrow> serve_step (\<lambda>b. doWork) c c' \<Longrightarrow> server_reach (one_conn c')"
  using server_more [OF _ s_handler [OF s_serve [of "one_conn c" 0 c c']]] by (simp add: one_conn_def conn_at_def)

lemma one_conn_client: "server_reach (one_conn c) \<Longrightarrow> client_step c c' \<Longrightarrow> server_reach (one_conn c')"
  using server_more [OF _ s_client [of "one_conn c" 0 c c']] by (simp add: one_conn_def conn_at_def)

abbreviation demo_duplex :: "serve_pc \<Rightarrow> bytes \<Rightarrow> bytes \<Rightarrow> bytes \<Rightarrow> bytes \<Rightarrow> duplex" where
  "demo_duplex pc up down sent got \<equiv>
     \<lparr>dx_pc = pc, dx_up = up, dx_down = down, dx_hangup = False, dx_sent = sent, dx_got = got\<rparr>"

lemma demo_conn: "server_reach (one_conn (demo_duplex Reading [] [] [7] [doWork]))"
proof -
  have "server_reach (server_start\<lparr>srv_fresh := [new_duplex]\<rparr>)"
    using server_more [OF server_init s_accept] by (simp add: server_start_def)
  moreover have "handler_step (server_start\<lparr>srv_fresh := [new_duplex]\<rparr>) (one_conn new_duplex)"
    using s_enter [of "server_start\<lparr>srv_fresh := [new_duplex]\<rparr>"] by (simp add: server_start_def one_conn_def)
  ultimately have "server_reach (one_conn (demo_duplex Reading [] [] [] []))"
    using server_more s_handler unfolding new_duplex_def by blast
  then have "server_reach (one_conn (demo_duplex Reading [7] [] [7] []))"
    by (rule one_conn_client) (use k_send [of "demo_duplex Reading [] [] [] []" 7] in simp)
  then have "server_reach (one_conn (demo_duplex (Serving 7) [] [] [7] []))"
    by (rule one_conn_serve) (use v_read [of "demo_duplex Reading [7] [] [7] []"] in simp)
  then have "server_reach (one_conn (demo_duplex (Writing doWork) [] [] [7] []))"
    by (rule one_conn_serve) (use v_serve [of "demo_duplex (Serving 7) [] [] [7] []" 7 "\<lambda>b. doWork"] in simp)
  then have "server_reach (one_conn (demo_duplex Reading [] [doWork] [7] []))"
    by (rule one_conn_serve) (use v_write [of "demo_duplex (Writing doWork) [] [] [7] []" doWork] in simp)
  then show ?thesis
    by (rule one_conn_client) (use k_recv [of "demo_duplex Reading [] [doWork] [7] []" doWork "[]"] in simp)
qed

theorem server_answers_witness:
  "\<exists>s c. server_reach s \<and> c \<in> set (srv_conns s) \<and> dx_sent c = [7] \<and> dx_got c = [doWork] \<and> srv_active s = 1"
  using server_answers [OF demo_conn, of "demo_duplex Reading [] [] [7] [doWork]"] demo_conn
  by (intro exI [of _ "one_conn (demo_duplex Reading [] [] [7] [doWork])"]
      exI [of _ "demo_duplex Reading [] [] [7] [doWork]"]) (simp add: one_conn_def)

theorem server_drains_witness:
  "\<exists>s. server_reach s \<and> (\<nexists>t. handler_step s t) \<and> map (map (\<lambda>b. doWork) \<circ> dx_sent) (srv_conns s) = [[doWork]] \<and>
     srv_active s = 1"
proof -
  let ?c = "demo_duplex Reading [] [] [7] [doWork]"
  have "\<nexists>t. handler_step (one_conn ?c) t"
    by (auto simp: one_conn_def conn_at_def elim!: handler_step.cases serve_step.cases)
  with server_drains [OF demo_conn] demo_conn show ?thesis
    by (intro exI [of _ "one_conn ?c"]) (simp add: one_conn_def)
qed


end
