(* ===== verification/Lab_Burst.thy ===== *)
theory Lab_Burst
  imports Lab_Server Lab_Client
begin

text \<open>
  The client of lab 0102 (\<open>labs/0102-go-netpoller-epoll/client.go\<close>) against its server: its configuration, the \<open>/status\<close> handler,
  and the goroutines of one \<open>/burst\<close> with the handlers of the server behind their connections.  A slot is a held connection with
  the goroutine that uses it; connections may break at any time, the clock (in nanoseconds) never goes back, and goroutines and
  handlers move in any order.  One burst runs at a time.
\<close>

section \<open>The program\<close>

definition client_config :: "environment \<Rightarrow> string \<times> int" where
  "client_config env = (env_or env ''SERVER_ADDR'' ''server:9000'', envInt env ''CONNS'' 2000)"

definition status_response :: "'c list \<Rightarrow> string" where
  "status_response conns = show_int (int (length conns)) @ [CHR 0x0A]"

text \<open>
  The lines of the reporter, and the end of the process: \<open>http.ListenAndServe\<close> returns only with an error.
\<close>

definition held_report :: "'c list \<Rightarrow> string" where
  "held_report conns = ''held_conns='' @ show_int (int (length conns)) @ [CHR 0x0A]"

definition client_end :: "string \<Rightarrow> string \<times> nat" where
  "client_end err = (''http server error: '' @ err @ [CHR 0x0A], 1)"

datatype burst_pc = Bu_Fresh | Bu_Write int | Bu_Read int | Bu_Done "int option"

record slot =
  sl_pc :: burst_pc
  sl_conn :: duplex

text \<open>The goroutine of one connection, and the server's handler at its other end.\<close>

inductive slot_step :: "int \<Rightarrow> slot \<Rightarrow> slot \<Rightarrow> bool" for now where
  b_begin: "sl_pc s = Bu_Fresh \<Longrightarrow> slot_step now s (s\<lparr>sl_pc := Bu_Write now\<rparr>)"
| b_write: "sl_pc s = Bu_Write t0 \<Longrightarrow> \<not> dx_hangup (sl_conn s) \<Longrightarrow>
    slot_step now s (s\<lparr>sl_pc := Bu_Read t0,
      sl_conn := (sl_conn s)\<lparr>dx_up := dx_up (sl_conn s) @ [1], dx_sent := dx_sent (sl_conn s) @ [1]\<rparr>\<rparr>)"
| b_write_err: "sl_pc s = Bu_Write t0 \<Longrightarrow> dx_hangup (sl_conn s) \<Longrightarrow> slot_step now s (s\<lparr>sl_pc := Bu_Done None\<rparr>)"
| b_read: "sl_pc s = Bu_Read t0 \<Longrightarrow> \<not> dx_hangup (sl_conn s) \<Longrightarrow> dx_down (sl_conn s) = b # bs \<Longrightarrow>
    slot_step now s (s\<lparr>sl_pc := Bu_Done (Some (now - t0)),
      sl_conn := (sl_conn s)\<lparr>dx_down := bs, dx_got := dx_got (sl_conn s) @ [b]\<rparr>\<rparr>)"
| b_read_err: "sl_pc s = Bu_Read t0 \<Longrightarrow> dx_hangup (sl_conn s) \<Longrightarrow> slot_step now s (s\<lparr>sl_pc := Bu_Done None\<rparr>)"
| b_serve: "serve_step (\<lambda>b. doWork) (sl_conn s) c \<Longrightarrow> slot_step now s (s\<lparr>sl_conn := c\<rparr>)"
| b_leave: "dx_pc (sl_conn s) = Leaving \<Longrightarrow> slot_step now s (s\<lparr>sl_conn := (sl_conn s)\<lparr>dx_pc := Gone\<rparr>\<rparr>)"

record burst_state =
  bu_slots :: "slot list"
  bu_start :: int
  bu_now :: int

definition burst_start :: "duplex list \<Rightarrow> int \<Rightarrow> burst_state" where
  "burst_start conns now = \<lparr>bu_slots = map (\<lambda>c. \<lparr>sl_pc = Bu_Fresh, sl_conn = c\<rparr>) conns, bu_start = now, bu_now = now\<rparr>"

inductive burst_step :: "burst_state \<Rightarrow> burst_state \<Rightarrow> bool" where
  bt_slot: "i < length (bu_slots s) \<Longrightarrow> slot_step (bu_now s) (bu_slots s ! i) x \<Longrightarrow>
    burst_step s (s\<lparr>bu_slots := (bu_slots s)[i := x]\<rparr>)"

text \<open>The held connections are idle when the burst begins.\<close>

definition idle_conn :: "duplex \<Rightarrow> bool" where
  "idle_conn c \<longleftrightarrow> dx_pc c = Reading \<and> dx_up c = [] \<and> dx_down c = [] \<and> \<not> dx_hangup c \<and> dx_got c = map (\<lambda>b. doWork) (dx_sent c)"

definition break_slot :: "slot \<Rightarrow> slot" where
  "break_slot x = x\<lparr>sl_conn := (sl_conn x)\<lparr>dx_hangup := True\<rparr>\<rparr>"

inductive burst_reach :: "duplex list \<Rightarrow> burst_state \<Rightarrow> bool" for conns where
  bu_init: "\<forall>c \<in> set conns. idle_conn c \<Longrightarrow> burst_reach conns (burst_start conns now)"
| bu_next: "burst_reach conns s \<Longrightarrow> burst_step s t \<Longrightarrow> burst_reach conns t"
| bu_clock: "burst_reach conns s \<Longrightarrow> 0 \<le> d \<Longrightarrow> burst_reach conns (s\<lparr>bu_now := bu_now s + d\<rparr>)"
| bu_break: "burst_reach conns s \<Longrightarrow> i < length (bu_slots s) \<Longrightarrow>
    burst_reach conns (s\<lparr>bu_slots := (bu_slots s)[i := break_slot (bu_slots s ! i)]\<rparr>)"

text \<open>The latencies after \<open>wg.Wait()\<close>; \<open>None\<close> while a goroutine is still running.\<close>

fun outcome :: "burst_pc \<Rightarrow> int option option" where
  "outcome (Bu_Done r) = Some r"
| "outcome _ = None"

definition burst_results :: "burst_state \<Rightarrow> int option list option" where
  "burst_results s = those (map (\<lambda>x. outcome (sl_pc x)) (bu_slots s))"

section \<open>The slots\<close>

definition slot_ok :: "int \<Rightarrow> int \<Rightarrow> slot \<Rightarrow> bool" where
  "slot_ok start now x \<longleftrightarrow>
     duplex_ok (\<lambda>b. doWork) (sl_conn x) \<and>
     (case sl_pc x of
        Bu_Fresh \<Rightarrow> length (dx_sent (sl_conn x)) = length (dx_got (sl_conn x))
      | Bu_Write t0 \<Rightarrow> length (dx_sent (sl_conn x)) = length (dx_got (sl_conn x)) \<and> start \<le> t0 \<and> t0 \<le> now
      | Bu_Read t0 \<Rightarrow> length (dx_sent (sl_conn x)) = length (dx_got (sl_conn x)) + 1 \<and> start \<le> t0 \<and> t0 \<le> now
      | Bu_Done (Some d) \<Rightarrow> length (dx_sent (sl_conn x)) = length (dx_got (sl_conn x)) \<and> 0 \<le> d \<and> d \<le> now - start
      | Bu_Done None \<Rightarrow> dx_hangup (sl_conn x))"

lemma idle_slot_ok: "idle_conn c \<Longrightarrow> slot_ok now now \<lparr>sl_pc = Bu_Fresh, sl_conn = c\<rparr>"
  by (simp add: slot_ok_def idle_conn_def duplex_ok_def)

lemma serve_step_frame:
  "serve_step f c c' \<Longrightarrow> dx_sent c' = dx_sent c \<and> dx_got c' = dx_got c \<and> dx_hangup c' = dx_hangup c"
  by (induction rule: serve_step.induct) simp_all

lemma slot_step_ok:
  assumes "slot_step now x y" and ok: "slot_ok start now x" and "start \<le> now"
  shows "slot_ok start now y"
  using assms(1)
proof cases
  case b_begin
  with ok assms(3) show ?thesis by (simp add: slot_ok_def)
next
  case (b_write t0)
  have "client_step (sl_conn x) ((sl_conn x)\<lparr>dx_up := dx_up (sl_conn x) @ [1], dx_sent := dx_sent (sl_conn x) @ [1]\<rparr>)"
    by (rule k_send) (use b_write(3) in simp)
  from client_step_ok [OF this] ok b_write show ?thesis by (simp add: slot_ok_def)
next
  case (b_write_err t0)
  with ok show ?thesis by (simp add: slot_ok_def)
next
  case (b_read t0 b bs)
  have "client_step (sl_conn x) ((sl_conn x)\<lparr>dx_down := bs, dx_got := dx_got (sl_conn x) @ [b]\<rparr>)"
    by (rule k_recv) (use b_read(3,4) in simp_all)
  from client_step_ok [OF this] ok b_read show ?thesis by (simp add: slot_ok_def)
next
  case (b_read_err t0)
  with ok show ?thesis by (simp add: slot_ok_def)
next
  case (b_serve c)
  have "duplex_ok (\<lambda>b. doWork) c" using serve_step_ok [OF b_serve(2)] ok by (simp add: slot_ok_def)
  with b_serve(1) serve_step_frame [OF b_serve(2)] ok show ?thesis
    by (auto simp: slot_ok_def split: burst_pc.splits option.splits)
next
  case b_leave
  with ok show ?thesis by (auto simp: slot_ok_def duplex_ok_def split: burst_pc.splits option.splits)
qed

lemma slot_later:
  assumes "slot_ok start now x" and "0 \<le> d"
  shows "slot_ok start (now + d) x"
  using assms by (auto simp: slot_ok_def split: burst_pc.splits option.splits)

lemma slot_break: "slot_ok start now x \<Longrightarrow> slot_ok start now (break_slot x)"
  by (auto simp: slot_ok_def break_slot_def duplex_ok_def split: burst_pc.splits option.splits)

definition burst_inv :: "nat \<Rightarrow> burst_state \<Rightarrow> bool" where
  "burst_inv n s \<longleftrightarrow> length (bu_slots s) = n \<and> bu_start s \<le> bu_now s \<and>
     (\<forall>i < n. slot_ok (bu_start s) (bu_now s) (bu_slots s ! i))"

lemma burst_reach_inv: "burst_reach conns s \<Longrightarrow> burst_inv (length conns) s"
proof (induction rule: burst_reach.induct)
  case (bu_init now)
  then show ?case by (simp add: burst_inv_def burst_start_def idle_slot_ok)
next
  case (bu_next s t)
  from bu_next(2) show ?case
  proof cases
    case (bt_slot i x)
    with bu_next.IH slot_step_ok [OF bt_slot(3)] show ?thesis by (auto simp: burst_inv_def nth_list_update)
  qed
next
  case (bu_clock s d)
  then show ?case by (simp add: burst_inv_def slot_later)
next
  case (bu_break s i)
  then show ?case by (auto simp: burst_inv_def nth_list_update slot_break)
qed

section \<open>The burst comes to an end\<close>

fun burst_rank :: "burst_pc \<Rightarrow> nat" where
  "burst_rank Bu_Fresh = 8"
| "burst_rank (Bu_Write _) = 7"
| "burst_rank (Bu_Read _) = 1"
| "burst_rank (Bu_Done _) = 0"

definition slot_work :: "slot \<Rightarrow> nat" where
  "slot_work x = burst_rank (sl_pc x) + duplex_work (sl_conn x)"

definition burst_work :: "burst_state \<Rightarrow> nat" where
  "burst_work s = sum_list (map slot_work (bu_slots s))"

lemma slot_step_work: "slot_step now x y \<Longrightarrow> slot_work y < slot_work x"
  by (induction rule: slot_step.induct) (auto simp: slot_work_def duplex_work_def dest!: serve_step_work [unfolded duplex_work_def])

lemma burst_step_work: "burst_step s t \<Longrightarrow> burst_work t < burst_work s"
proof (induction rule: burst_step.induct)
  case (bt_slot i s x)
  then show ?case
    using sum_list_update [of i "bu_slots s" slot_work x] slot_step_work [OF bt_slot(2)] member_le_sum_list [of "slot_work (bu_slots s ! i)"]
    by (auto simp: burst_work_def)
qed

interpretation burst: measured burst_step burst_work
  by unfold_locales (rule burst_step_work)

lemma burst_reach_steps: "rtranclp burst_step s t \<Longrightarrow> burst_reach conns s \<Longrightarrow> burst_reach conns t"
  by (induction rule: rtranclp_induct) (auto intro: bu_next)

lemma slot_waits:
  assumes "\<nexists>y. slot_step now x y" and ok: "slot_ok start now x"
  shows "\<exists>r. sl_pc x = Bu_Done r \<and> (\<not> dx_hangup (sl_conn x) \<longrightarrow> r \<noteq> None \<and> idle_conn (sl_conn x))"
proof -
  let ?c = "sl_conn x"
  have s: "dx_pc ?c = Gone \<or> dx_pc ?c = Reading \<and> dx_up ?c = [] \<and> \<not> dx_hangup ?c"
  proof -
    have "\<nexists>c. serve_step (\<lambda>b. doWork) ?c c" using assms(1) b_serve [of x _ now] by blast
    from serve_waits [OF this] show ?thesis using assms(1) b_leave [of x now] by blast
  qed
  have d: "duplex_ok (\<lambda>b. doWork) ?c" using ok by (simp add: slot_ok_def)
  have up: "dx_pc ?c = Reading" "dx_up ?c = []" "map (\<lambda>b. doWork) (dx_sent ?c) = dx_got ?c @ dx_down ?c" if "\<not> dx_hangup ?c"
    using s d that by (auto simp: duplex_ok_def split: if_splits)
  show ?thesis
  proof (cases "sl_pc x")
    case Bu_Fresh
    with assms(1) b_begin [of x now] show ?thesis by blast
  next
    case (Bu_Write t0)
    with assms(1) b_write [of x t0 now] b_write_err [of x t0 now] show ?thesis by blast
  next
    case (Bu_Read t0)
    with assms(1) b_read_err [of x t0 now] have n: "\<not> dx_hangup ?c" by blast
    with assms(1) Bu_Read b_read [of x t0 _ _ now] have "dx_down ?c = []" by (cases "dx_down ?c") blast+
    with arg_cong [OF up(3) [OF n], of length] ok Bu_Read show ?thesis by (simp add: slot_ok_def)
  next
    case (Bu_Done r)
    have "r \<noteq> None \<and> idle_conn ?c" if n: "\<not> dx_hangup ?c"
    proof -
      obtain t where "r = Some t" using ok Bu_Done n by (cases r) (simp_all add: slot_ok_def)
      then have "length (dx_sent ?c) = length (dx_got ?c)" using ok Bu_Done by (simp add: slot_ok_def)
      with arg_cong [OF up(3) [OF n], of length] have "dx_down ?c = []" by simp
      with up [OF n] n \<open>r = Some t\<close> show ?thesis by (simp add: idle_conn_def)
    qed
    with Bu_Done show ?thesis by blast
  qed
qed

section \<open>Properties\<close>

lemma burst_waits:
  assumes "\<nexists>t. burst_step s t" and "burst_inv n s" and "x \<in> set (bu_slots s)"
  shows "\<exists>r. sl_pc x = Bu_Done r \<and> (\<not> dx_hangup (sl_conn x) \<longrightarrow> r \<noteq> None \<and> idle_conn (sl_conn x))"
proof -
  obtain i where i: "i < length (bu_slots s)" "bu_slots s ! i = x" using assms(3) by (auto simp: in_set_conv_nth)
  then have "slot_ok (bu_start s) (bu_now s) x" using assms(2) by (auto simp: burst_inv_def)
  moreover have "\<nexists>y. slot_step (bu_now s) x y" using assms(1) bt_slot [OF i(1)] i(2) by blast
  ultimately show ?thesis by (rule slot_waits [rotated])
qed

lemma results_of_done:
  assumes "\<forall>x \<in> set xs. \<exists>r. sl_pc x = Bu_Done r"
  shows "\<exists>rs. those (map (\<lambda>x. outcome (sl_pc x)) xs) = Some rs \<and> list_all2 (\<lambda>x r. sl_pc x = Bu_Done r) xs rs"
  using assms
proof (induction xs)
  case (Cons x xs)
  then obtain rs where "those (map (\<lambda>x. outcome (sl_pc x)) xs) = Some rs" "list_all2 (\<lambda>x r. sl_pc x = Bu_Done r) xs rs" by auto
  moreover obtain r where "sl_pc x = Bu_Done r" using Cons.prems by auto
  ultimately show ?case by auto
qed simp

lemma results_done:
  "those (map (\<lambda>x. outcome (sl_pc x)) xs) = Some rs \<Longrightarrow> list_all2 (\<lambda>x r. sl_pc x = Bu_Done r) xs rs"
proof (induction xs arbitrary: rs)
  case (Cons x xs)
  then show ?case by (cases "sl_pc x") (auto split: option.splits)
qed simp

lemma results_bounds:
  assumes "burst_inv n s" and "burst_results s = Some rs"
  shows "length rs = n" and "Some d \<in> set rs \<Longrightarrow> 0 \<le> d \<and> d \<le> bu_now s - bu_start s"
proof -
  have l: "list_all2 (\<lambda>x r. sl_pc x = Bu_Done r) (bu_slots s) rs"
    using assms(2) by (simp add: burst_results_def results_done)
  then show "length rs = n" using assms(1) by (simp add: burst_inv_def list_all2_lengthD)
  assume "Some d \<in> set rs"
  then obtain i where i: "i < length rs" "rs ! i = Some d" by (auto simp: in_set_conv_nth)
  then have "sl_pc (bu_slots s ! i) = Bu_Done (Some d)" "i < n"
    using l assms(1) by (auto simp: list_all2_conv_all_nth burst_inv_def)
  with assms(1) show "0 \<le> d \<and> d \<le> bu_now s - bu_start s" by (auto simp: burst_inv_def slot_ok_def)
qed

lemma summary_bounds:
  assumes inv: "burst_inv n s" and rs: "burst_results s = Some rs" and "n < 2 ^ 53"
  shows "burst rs = None \<longleftrightarrow> n = 0"
    and "burst rs = Some r \<Longrightarrow> br_conns r = n \<and> 0 \<le> br_p50 r \<and> br_p50 r \<le> br_p99 r \<and>
         br_p99 r \<le> br_max r \<and> br_max r \<le> bu_now s - bu_start s"
proof -
  note b = results_bounds [OF inv rs]
  have "\<forall>d. Some d \<in> set rs \<longrightarrow> 0 \<le> d" and "length rs < 2 ^ 53" using b assms(3) by (blast, simp)
  note sm = burst_summary [OF this(2,1)]
  have range: "0 \<le> v \<and> v \<le> bu_now s - bu_start s" if "v \<in> latency_of ` set rs" for v
    using that b(2) inv by (auto simp: latency_of_def burst_inv_def split: option.splits)
  show "burst rs = None \<longleftrightarrow> n = 0" using sm b(1) by (metis length_0_conv)
  assume "burst rs = Some r"
  then have "br_p50 r \<in> latency_of ` set rs" "br_max r \<in> latency_of ` set rs"
    "br_conns r = length rs" "br_p50 r \<le> br_p99 r" "br_p99 r \<le> br_max r"
    using sm by blast+
  with range b(1) show "br_conns r = n \<and> 0 \<le> br_p50 r \<and> br_p50 r \<le> br_p99 r \<and>
      br_p99 r \<le> br_max r \<and> br_max r \<le> bu_now s - bu_start s" by simp
qed

text \<open>
  C36: One burst over the connections held to the server of lab 0102.  Goroutines and handlers together make finitely many steps; when none
  can move, every goroutine has finished, those whose connection has not broken with a latency, and their connections are idle
  again, so that the next burst starts where this one did.  The summary then exists exactly if a connection is held, and
  its latencies are ordered and lie between zero and the time the burst took.
\<close>

theorem burst_completes:
  assumes "burst_reach conns s" and "length conns < 2 ^ 53"
  shows "(\<exists>t. rtranclp burst_step s t \<and> (\<nexists>u. burst_step t u)) \<and>
    (\<forall>run. run 0 = s \<longrightarrow> \<not> (\<forall>i. burst_step (run i) (run (Suc i)))) \<and>
    ((\<nexists>t. burst_step s t) \<longrightarrow> (\<exists>rs. burst_results s = Some rs) \<and>
       (\<forall>x \<in> set (bu_slots s). \<not> dx_hangup (sl_conn x) \<longrightarrow>
          (\<exists>d. sl_pc x = Bu_Done (Some d)) \<and> idle_conn (sl_conn x))) \<and>
    (\<forall>rs. burst_results s = Some rs \<longrightarrow>
       (burst rs = None \<longleftrightarrow> conns = []) \<and>
       (\<forall>r. burst rs = Some r \<longrightarrow> br_conns r = length conns \<and> 0 \<le> br_p50 r \<and> br_p50 r \<le> br_p99 r \<and>
          br_p99 r \<le> br_max r \<and> br_max r \<le> bu_now s - bu_start s))"
proof -
  have inv: "burst_inv (length conns) s" by (rule burst_reach_inv [OF assms(1)])
  have rest: "(\<exists>rs. burst_results s = Some rs) \<and> (\<forall>x \<in> set (bu_slots s). \<not> dx_hangup (sl_conn x) \<longrightarrow>
      (\<exists>d. sl_pc x = Bu_Done (Some d)) \<and> idle_conn (sl_conn x))" if stuck: "\<nexists>t. burst_step s t"
    using burst_waits [OF stuck inv] results_of_done [of "bu_slots s"] unfolding burst_results_def by blast
  have ends: "\<exists>t. rtranclp burst_step s t \<and> (\<nexists>u. burst_step t u)" by (rule burst.comes_to_rest)
  show ?thesis
    using burst.no_infinite_run rest summary_bounds [OF inv _ assms(2)] by (intro conjI ends) (auto simp del: not_None_eq)
qed

theorem burst_completes_witness:
  "\<exists>s rs r. burst_reach [new_duplex, new_duplex] s \<and> burst_results s = Some rs \<and> burst rs = Some r \<and> br_conns r = 2"
proof -
  have "\<forall>c \<in> set [new_duplex, new_duplex]. idle_conn c" by (simp add: idle_conn_def new_duplex_def)
  then obtain s where s: "burst_reach [new_duplex, new_duplex] s" "\<nexists>t. burst_step s t"
    using burst.comes_to_rest [of "burst_start [new_duplex, new_duplex] 0"] burst_reach_steps [OF _ bu_init] by blast
  have n: "length [new_duplex, new_duplex] < 2 ^ 53" by simp
  obtain rs where rs: "burst_results s = Some rs" using burst_completes [OF s(1) n] s(2) by blast
  then obtain r where r: "burst rs = Some r" using burst_completes [OF s(1) n] by (cases "burst rs") auto
  with burst_completes [OF s(1) n] rs have "br_conns r = length [new_duplex, new_duplex]" by blast
  with s rs r show ?thesis by auto
qed

end
