(* ===== verification/Lab_Blocking.thy ===== *)
theory Lab_Blocking
  imports Lab_Server Lab_Client "HOL-Library.Signed_Division"
begin

text \<open>
  \<open>labs/0103-go-blocking-syscalls-vs-network-io\<close>: workers that block for \<open>WORK_MS\<close> in each iteration, by a timer, by a
  system call, or by a round trip to the delay server (\<open>worker.go\<close>), and that server (\<open>delay-server.go\<close>).  Durations are
  nanoseconds in 64 bits with their wrap-around.  A worker in \<open>netpoll\<close> mode and the goroutine that serves it are a step
  relation over their connection; \<open>rd_rounds\<close> and \<open>rd_sleeps\<close> are histories of its round trips and the server's sleeps.
\<close>

section \<open>Durations\<close>

text \<open>\<open>time.Duration(ms) * time.Millisecond\<close>, and the time for which \<open>time.Sleep\<close> blocks.\<close>

definition milliseconds :: "int \<Rightarrow> int" where
  "milliseconds ms = wrap64 (ms * 1000000)"

definition sleep_time :: "int \<Rightarrow> int" where
  "sleep_time d = (if d \<le> 0 then 0 else d)"

record timespec =
  ts_sec :: int
  ts_nsec :: int

definition NsecToTimespec :: "int \<Rightarrow> timespec" where
  "NsecToTimespec nsec =
     (let sec = nsec sdiv 1000000000;
          ns = nsec smod 1000000000
      in if ns < 0 then \<lparr>ts_sec = sec - 1, ts_nsec = ns + 1000000000\<rparr> else \<lparr>ts_sec = sec, ts_nsec = ns\<rparr>)"

text \<open>\<open>nanosleep\<close> refuses a negative time at once; otherwise, uninterrupted, it blocks for the time given.\<close>

definition nanosleep_time :: "timespec \<Rightarrow> int" where
  "nanosleep_time ts =
     (if ts_sec ts < 0 \<or> ts_nsec ts < 0 \<or> ts_nsec ts \<ge> 1000000000 then 0
      else ts_sec ts * 1000000000 + ts_nsec ts)"

text \<open>One iteration of each loop.\<close>

definition timerWorker :: "int \<Rightarrow> int" where
  "timerWorker workMS = sleep_time (milliseconds workMS)"

definition syscallWorker :: "int \<Rightarrow> int" where
  "syscallWorker workMS = nanosleep_time (NsecToTimespec (milliseconds workMS))"

section \<open>The commands\<close>

datatype worker_kind = Timer_Worker int | Syscall_Worker int | Netpoll_Worker string

record worker_run =
  wr_kind :: worker_kind
  wr_batches :: "(int \<times> int) list"

definition worker_kind_of :: "string \<Rightarrow> int \<Rightarrow> string \<Rightarrow> worker_kind" where
  "worker_kind_of mode workMS addr =
     (if mode = ''syscall'' then Syscall_Worker workMS
      else if mode = ''netpoll'' then Netpoll_Worker addr
      else Timer_Worker workMS)"

text \<open>The batches of goroutines, each followed by a pause of 50 ms.\<close>

definition worker_main :: "environment \<Rightarrow> worker_run" where
  "worker_main env =
     (let mode = env_or env ''MODE'' ''timer'';
          workers = envInt env ''WORKERS'' 2000;
          workMS = envInt env ''WORK_MS'' 200;
          addr = env_or env ''DELAY_SERVER_ADDR'' ''delay-server:9100''
      in \<lparr>wr_kind = worker_kind_of mode workMS addr, wr_batches = batch_ranges 0 workers\<rparr>)"

text \<open>The address and the delay of the delay server.\<close>

definition delay_main :: "environment \<Rightarrow> string \<times> int" where
  "delay_main env = (env_or env ''LISTEN_ADDR'' '':9100'', milliseconds (envInt env ''DELAY_MS'' 200))"

text \<open>
  The delay server itself: \<open>Inl\<close> is the exit status when \<open>net.Listen\<close> fails, \<open>Inr\<close> what the accept loop has logged and
  handed to goroutines.
\<close>

definition delay_server ::
  "environment \<Rightarrow> (string \<Rightarrow> string option) \<Rightarrow> (string + 'c) list \<Rightarrow> nat + string list \<times> 'c list" where
  "delay_server env listen accepted =
     (case listen (fst (delay_main env)) of
        Some err \<Rightarrow> Inl 1
      | None \<Rightarrow> Inr (accept_loop ''accept error: '' accepted))"

section \<open>A worker and the delay server\<close>

datatype netpoll_pc = NP_Write | NP_Read | NP_Returned

record round_state =
  rd_worker :: netpoll_pc
  rd_buf :: byte
  rd_conn :: duplex
  rd_rounds :: nat
  rd_sleeps :: nat

definition round_start :: round_state where
  "round_start = \<lparr>rd_worker = NP_Write, rd_buf = 0, rd_conn = new_duplex, rd_rounds = 0, rd_sleeps = 0\<rparr>"

text \<open>\<open>netpollWorker\<close> dials first: on an error it prints a line and returns (\<open>Inl\<close>).\<close>

definition netpoll_dial :: "string \<Rightarrow> (string \<Rightarrow> string option) \<Rightarrow> string + round_state" where
  "netpoll_dial addr dial =
     (case dial addr of Some err \<Rightarrow> Inl (''dial error: '' @ err @ [CHR 0x0A]) | None \<Rightarrow> Inr round_start)"

text \<open>\<open>netpollWorker\<close> after its dial; when it returns it closes the connection.\<close>

inductive netpoll_step :: "round_state \<Rightarrow> round_state \<Rightarrow> bool" where
  n_write: "rd_worker s = NP_Write \<Longrightarrow> \<not> dx_hangup (rd_conn s) \<Longrightarrow>
    netpoll_step s (s\<lparr>rd_worker := NP_Read, rd_conn := (rd_conn s)\<lparr>dx_up := dx_up (rd_conn s) @ [rd_buf s],
      dx_sent := dx_sent (rd_conn s) @ [rd_buf s]\<rparr>\<rparr>)"
| n_read: "rd_worker s = NP_Read \<Longrightarrow> \<not> dx_hangup (rd_conn s) \<Longrightarrow> dx_down (rd_conn s) = b # bs \<Longrightarrow>
    netpoll_step s (s\<lparr>rd_worker := NP_Write, rd_buf := b, rd_rounds := rd_rounds s + 1,
      rd_conn := (rd_conn s)\<lparr>dx_down := bs, dx_got := dx_got (rd_conn s) @ [b]\<rparr>\<rparr>)"
| n_err: "rd_worker s \<noteq> NP_Returned \<Longrightarrow> dx_hangup (rd_conn s) \<Longrightarrow> netpoll_step s (s\<lparr>rd_worker := NP_Returned\<rparr>)"

text \<open>The goroutine of the delay server: between its read and its write it sleeps once.\<close>

inductive delay_step :: "round_state \<Rightarrow> round_state \<Rightarrow> bool" where
  d_serve: "serve_step (\<lambda>b. b) (rd_conn s) c \<Longrightarrow>
    delay_step s (s\<lparr>rd_conn := c, rd_sleeps := rd_sleeps s + (case dx_pc (rd_conn s) of Serving b \<Rightarrow> 1 | _ \<Rightarrow> 0)\<rparr>)"
| d_close: "dx_pc (rd_conn s) = Leaving \<Longrightarrow> delay_step s (s\<lparr>rd_conn := (rd_conn s)\<lparr>dx_pc := Gone\<rparr>\<rparr>)"

inductive round_reach :: "round_state \<Rightarrow> bool" where
  round_init: "round_reach round_start"
| round_worker: "round_reach s \<Longrightarrow> netpoll_step s t \<Longrightarrow> round_reach t"
| round_server: "round_reach s \<Longrightarrow> delay_step s t \<Longrightarrow> round_reach t"
| round_broken: "round_reach s \<Longrightarrow> round_reach (s\<lparr>rd_conn := (rd_conn s)\<lparr>dx_hangup := True\<rparr>\<rparr>)"

section \<open>The times\<close>

lemma timespec_value:
  "ts_sec (NsecToTimespec n) * 1000000000 + ts_nsec (NsecToTimespec n) = n \<and>
   0 \<le> ts_nsec (NsecToTimespec n) \<and> ts_nsec (NsecToTimespec n) < 1000000000"
proof -
  have d: "n sdiv 1000000000 * 1000000000 + n smod 1000000000 = n" by (rule sdiv_mult_smod_eq)
  have "n smod 1000000000 = n - n sdiv 1000000000 * 1000000000" using d by linarith
  have r: "- 1000000000 < n smod 1000000000" "n smod 1000000000 < 1000000000"
    by (auto simp: signed_modulo_int_def sgn_if abs_if)
  show ?thesis using d r by (auto simp: NsecToTimespec_def Let_def algebra_simps)
qed

lemma nanosleep_value: "nanosleep_time (NsecToTimespec n) = sleep_time n"
  using timespec_value [of n] by (auto simp: nanosleep_time_def sleep_time_def)

lemma milliseconds_exact: "0 \<le> n \<Longrightarrow> n \<le> 9223372036854 \<Longrightarrow> milliseconds n = n * 1000000"
  by (simp add: milliseconds_def int64_range_def)

section \<open>The round trips\<close>

definition asleep :: "duplex \<Rightarrow> nat" where
  "asleep c = length (dx_down c) + (case dx_pc c of Writing b \<Rightarrow> 1 | _ \<Rightarrow> 0)"

definition outstanding :: "duplex \<Rightarrow> nat" where
  "outstanding c = length (dx_up c) + length (in_hand (\<lambda>b. b) (dx_pc c)) + length (dx_down c)"

definition round_inv :: "round_state \<Rightarrow> bool" where
  "round_inv s \<longleftrightarrow>
     duplex_ok (\<lambda>b. b) (rd_conn s) \<and> rd_buf s = 0 \<and> set (dx_sent (rd_conn s)) \<subseteq> {0} \<and>
     rd_rounds s = length (dx_got (rd_conn s)) \<and>
     outstanding (rd_conn s) \<le> 1 \<and> (rd_worker s = NP_Write \<longrightarrow> outstanding (rd_conn s) = 0) \<and>
     rd_rounds s + asleep (rd_conn s) \<le> rd_sleeps s \<and> rd_sleeps s \<le> rd_rounds s + 1 \<and>
     (rd_sleeps s = rd_rounds s + 1 \<longrightarrow> dx_up (rd_conn s) = [] \<and> (\<forall>b. dx_pc (rd_conn s) \<noteq> Serving b)) \<and>
     (rd_worker s = NP_Write \<longrightarrow> rd_sleeps s = rd_rounds s)"

lemma round_inv_start: "round_inv round_start"
  by (simp add: round_inv_def round_start_def outstanding_def asleep_def new_duplex_def duplex_ok_def)

lemma duplex_down_sent: "duplex_ok (\<lambda>b. b) c \<Longrightarrow> set (dx_down c) \<subseteq> set (dx_sent c)"
proof -
  assume "duplex_ok (\<lambda>b. b) c"
  then obtain owed where "dx_sent c = dx_got c @ dx_down c @ owed"
    by (auto simp: duplex_ok_def split: if_splits)
  then show ?thesis by auto
qed

lemma round_inv_worker:
  assumes "netpoll_step s t" and inv: "round_inv s"
  shows "round_inv t"
  using assms(1)
proof cases
  case n_write
  have "duplex_ok (\<lambda>b. b) ((rd_conn s)\<lparr>dx_up := dx_up (rd_conn s) @ [rd_buf s], dx_sent := dx_sent (rd_conn s) @ [rd_buf s]\<rparr>)"
    using client_step_ok [OF k_send [OF n_write(3)]] inv by (simp add: round_inv_def)
  then show ?thesis
    using inv n_write unfolding n_write(1) by (auto simp: round_inv_def outstanding_def asleep_def)
next
  case (n_read b bs)
  have "duplex_ok (\<lambda>b. b) ((rd_conn s)\<lparr>dx_down := bs, dx_got := dx_got (rd_conn s) @ [b]\<rparr>)"
    using client_step_ok [OF k_recv [OF n_read(3,4)]] inv by (simp add: round_inv_def)
  moreover have "b = 0" using duplex_down_sent [of "rd_conn s"] inv n_read(4) by (auto simp: round_inv_def)
  ultimately show ?thesis
    using inv n_read unfolding n_read(1) by (auto simp: round_inv_def outstanding_def asleep_def)
next
  case n_err
  then show ?thesis using inv by (auto simp: round_inv_def)
qed

lemma round_inv_server:
  assumes "delay_step s t" and inv: "round_inv s"
  shows "round_inv t"
  using assms(1)
proof cases
  case (d_serve c)
  have ok: "duplex_ok (\<lambda>b. b) c" by (rule serve_step_ok [OF d_serve(2)]) (use inv in \<open>simp add: round_inv_def\<close>)
  from d_serve(2) show ?thesis
  proof cases
    case (v_read b bs)
    then show ?thesis
      using inv ok unfolding d_serve(1) by (auto simp: round_inv_def outstanding_def asleep_def)
  next
    case v_read_err
    then show ?thesis
      using inv ok unfolding d_serve(1) by (auto simp: round_inv_def outstanding_def asleep_def)
  next
    case (v_serve b)
    then show ?thesis
      using inv ok unfolding d_serve(1) by (auto simp: round_inv_def outstanding_def asleep_def)
  next
    case (v_write b)
    then show ?thesis
      using inv ok unfolding d_serve(1) by (auto simp: round_inv_def outstanding_def asleep_def)
  next
    case (v_write_err b)
    then show ?thesis
      using inv ok unfolding d_serve(1) by (auto simp: round_inv_def outstanding_def asleep_def)
  qed
next
  case d_close
  then show ?thesis
    using inv by (auto simp: round_inv_def outstanding_def asleep_def duplex_ok_def)
qed

lemma round_reach_inv: "round_reach s \<Longrightarrow> round_inv s"
proof (induction rule: round_reach.induct)
  case (round_broken s)
  then have "duplex_ok (\<lambda>b. b) ((rd_conn s)\<lparr>dx_hangup := True\<rparr>)"
    using client_step_ok [OF k_hangup] by (simp add: round_inv_def)
  with round_broken show ?case by (simp add: round_inv_def outstanding_def asleep_def)
qed (auto intro: round_inv_start round_inv_worker round_inv_server)

section \<open>Properties\<close>

text \<open>
  The timer and the system call block for the same time in every iteration, whatever \<open>WORK_MS\<close> is, negative and
  overflowing values included; up to 9223372036854 it is that many milliseconds.  By default the two, and the delay server, block
  for 200 ms.
\<close>

theorem worker_block_times:
  "timerWorker workMS = syscallWorker workMS \<and>
   (0 \<le> workMS \<and> workMS \<le> 9223372036854 \<longrightarrow> syscallWorker workMS = workMS * 1000000) \<and>
   (env ''DELAY_MS'' = None \<longrightarrow> sleep_time (snd (delay_main env)) = 200000000) \<and>
   (env ''WORK_MS'' = None \<longrightarrow> timerWorker (envInt env ''WORK_MS'' 200) = 200000000)"
proof -
  have "sleep_time (milliseconds 200) = 200000000" by (simp add: milliseconds_exact sleep_time_def)
  then show ?thesis
    by (simp add: timerWorker_def syscallWorker_def nanosleep_value milliseconds_exact sleep_time_def
        delay_main_def envInt_unset del: milliseconds_exact [of 200, simplified])
qed

text \<open>
  A worker in \<open>netpoll\<close> mode and the delay server keep strictly in step: at most one byte is on its way, each round trip that
  the worker completes has waited for one sleep of the server and no sleep is more than one ahead; every byte is the
  zero it started with.  The time it blocks is therefore that of the server's delay, not of its own \<open>WORK_MS\<close>.
\<close>

theorem netpoll_rounds:
  assumes "round_reach s"
  shows "outstanding (rd_conn s) \<le> 1 \<and> rd_rounds s = length (dx_got (rd_conn s)) \<and>
    rd_rounds s \<le> rd_sleeps s \<and> rd_sleeps s \<le> rd_rounds s + 1 \<and>
    (\<forall>b \<in> set (dx_sent (rd_conn s) @ dx_got (rd_conn s)). b = 0) \<and>
    (rd_worker s = NP_Write \<longrightarrow> rd_sleeps s = rd_rounds s)"
proof -
  have inv: "round_inv s" by (rule round_reach_inv [OF assms])
  then obtain owed where "dx_sent (rd_conn s) = dx_got (rd_conn s) @ dx_down (rd_conn s) @ owed"
    by (auto simp: round_inv_def duplex_ok_def split: if_splits)
  then have "set (dx_got (rd_conn s)) \<subseteq> set (dx_sent (rd_conn s))" by simp
  then show ?thesis using inv by (auto simp: round_inv_def)
qed

text \<open>
  The worker program starts exactly the goroutines 0 to \<open>WORKERS - 1\<close>, each once and in order, none when the
  number is not positive, in batches of at most 200; an unknown or empty mode is the timer.
\<close>

theorem workers_started:
  "concat (map batch_members (wr_batches (worker_main env))) = [0..envInt env ''WORKERS'' 2000 - 1] \<and>
   list_all (\<lambda>r. length (batch_members r) \<le> 200) (wr_batches (worker_main env)) \<and>
   (wr_kind (worker_main env) = (case Getenv env ''MODE'' of
      m \<Rightarrow> if m = ''syscall'' then Syscall_Worker (envInt env ''WORK_MS'' 200)
        else if m = ''netpoll'' then Netpoll_Worker (env_or env ''DELAY_SERVER_ADDR'' ''delay-server:9100'')
        else Timer_Worker (envInt env ''WORK_MS'' 200)))"
proof -
  have "length (batch_members r) \<le> 200" if "r \<in> set (batch_ranges 0 n)" for r n
    using batch_size_le [of "fst r" "snd r" 0 n] that by (auto simp: batchSize_def batch_members_def nat_le_iff)
  then show ?thesis
    by (simp add: worker_main_def Let_def batch_members_cover list_all_iff worker_kind_of_def env_or_def)
qed


section \<open>A run\<close>

theorem worker_block_times_witness:
  "syscallWorker 200 = 200 * 1000000 \<and> timerWorker (- 5) = syscallWorker (- 5) \<and>
   sleep_time (snd (delay_main (\<lambda>k. None))) = 200000000"
proof -
  have "(0 :: int) \<le> 200 \<and> (200 :: int) \<le> 9223372036854" by simp
  then have "syscallWorker 200 = 200 * 1000000" "sleep_time (snd (delay_main (\<lambda>k. None))) = 200000000"
    using worker_block_times [of 200 "\<lambda>k. None"] by blast+
  with worker_block_times [of "- 5" "\<lambda>k. None"] show ?thesis by blast
qed

abbreviation demo_round :: "netpoll_pc \<Rightarrow> serve_pc \<Rightarrow> bytes \<Rightarrow> bytes \<Rightarrow> bytes \<Rightarrow> bytes \<Rightarrow> nat \<Rightarrow> nat \<Rightarrow> round_state" where
  "demo_round w pc up down sent got r sl \<equiv>
     \<lparr>rd_worker = w, rd_buf = 0, rd_conn = demo_duplex pc up down sent got, rd_rounds = r, rd_sleeps = sl\<rparr>"

lemma demo_rounds: "round_reach (demo_round NP_Write Reading [] [] [0] [0] 1 1)"
proof -
  have "round_reach (demo_round NP_Write Reading [] [] [] [] 0 0)"
    using round_init by (simp add: round_start_def new_duplex_def)
  then have "round_reach (demo_round NP_Read Reading [0] [] [0] [] 0 0)"
    by (rule round_worker) (use n_write [of "demo_round NP_Write Reading [] [] [] [] 0 0"] in simp)
  then have "round_reach (demo_round NP_Read (Serving 0) [] [] [0] [] 0 0)"
    by (rule round_server)
      (use d_serve [of "demo_round NP_Read Reading [0] [] [0] [] 0 0", simplified, OF v_read] in simp)
  then have "round_reach (demo_round NP_Read (Writing 0) [] [] [0] [] 0 1)"
    by (rule round_server)
      (use d_serve [of "demo_round NP_Read (Serving 0) [] [] [0] [] 0 0", simplified, OF v_serve] in simp)
  then have "round_reach (demo_round NP_Read Reading [] [0] [0] [] 0 1)"
    by (rule round_server)
      (use d_serve [of "demo_round NP_Read (Writing 0) [] [] [0] [] 0 1", simplified, OF v_write] in simp)
  then show ?thesis
    by (rule round_worker) (use n_read [of "demo_round NP_Read Reading [] [0] [0] [] 0 1" 0 "[]"] in simp)
qed

theorem netpoll_rounds_witness:
  "\<exists>s. round_reach s \<and> rd_worker s = NP_Write \<and> rd_rounds s = 1 \<and> rd_sleeps s = rd_rounds s \<and>
     rd_rounds s = length (dx_got (rd_conn s))"
  using netpoll_rounds [OF demo_rounds] demo_rounds
  by (intro exI [of _ "demo_round NP_Write Reading [] [] [0] [0] 1 1"]) simp


end
