(* ===== verification/App_Signals.thy ===== *)
theory App_Signals
  imports Go_Chan
begin

text \<open>
  \<open>sig-counter\<close>: a ticker goroutine that adds one to an atomic counter every second (\<open>ticker.go\<close>) and a
  main loop that shows it, resets it or shuts down on a signal (\<open>main.go\<close>).  Two program counters over the
  counter, the channel of signals, the channel of the timer and the context; the clock and whoever sends
  the signals are the environment.  \<open>signal.Notify\<close> never blocks: a signal that finds the channel
  full is dropped, and so is a tick of \<open>time.NewTicker\<close> (whose channel holds one).
\<close>

section \<open>The program\<close>

datatype os_signal = SIGUSR1 | SIGUSR2 | SIGTERM | SIGINT

text \<open>\<open>Ticker\<close> with its atomic operations.\<close>

record ticker =
  tk_value :: u64

definition NewTicker :: ticker where
  "NewTicker = \<lparr>tk_value = 0\<rparr>"

definition ticker_tick :: "ticker \<Rightarrow> ticker" where
  "ticker_tick t = t\<lparr>tk_value := tk_value t + 1\<rparr>"

definition ticker_Value :: "ticker \<Rightarrow> u64" where
  "ticker_Value t = tk_value t"

definition ticker_Reset :: "ticker \<Rightarrow> ticker" where
  "ticker_Reset t = t\<lparr>tk_value := 0\<rparr>"

datatype run_pc = Run_Select | Run_Ticked | Run_Returned | Run_Ended

datatype main_pc = Main_Select | Main_Got os_signal | Main_Cancel | Main_Wait | Main_Returned

text \<open>What happens to the counter, and what main prints; a history that the code does not have.\<close>

datatype count_event = Ticked | Shown u64 | Zeroed

record sig_state =
  sc_ticker :: ticker
  sc_clock :: "unit chan"
  sc_sigs :: "os_signal chan"
  sc_cancelled :: bool
  sc_stop :: bool
  sc_run :: run_pc
  sc_main :: main_pc
  sc_accepted :: "os_signal list"
  sc_handled :: "os_signal list"
  sc_history :: "count_event list"

definition sig_start :: sig_state where
  "sig_start = \<lparr>sc_ticker = NewTicker, sc_clock = make_chan 1, sc_sigs = make_chan 4, sc_cancelled = False,
     sc_stop = False, sc_run = Run_Select, sc_main = Main_Select, sc_accepted = [], sc_handled = [], sc_history = []\<rparr>"

text \<open>The goroutine: \<open>Run\<close> and then \<open>close(stop)\<close>.\<close>

inductive run_step :: "sig_state \<Rightarrow> sig_state \<Rightarrow> bool" where
  r_tick: "sc_run s = Run_Select \<Longrightarrow> chan_recv (sc_clock s) = Received u c \<Longrightarrow>
    run_step s (s\<lparr>sc_clock := c, sc_run := Run_Ticked\<rparr>)"
| r_add: "sc_run s = Run_Ticked \<Longrightarrow>
    run_step s (s\<lparr>sc_ticker := ticker_tick (sc_ticker s), sc_run := Run_Select, sc_history := sc_history s @ [Ticked]\<rparr>)"
| r_done: "sc_run s = Run_Select \<Longrightarrow> sc_cancelled s \<Longrightarrow> run_step s (s\<lparr>sc_run := Run_Returned\<rparr>)"
| r_close: "sc_run s = Run_Returned \<Longrightarrow> run_step s (s\<lparr>sc_run := Run_Ended, sc_stop := True\<rparr>)"

inductive main_step :: "sig_state \<Rightarrow> sig_state \<Rightarrow> bool" where
  m_signal: "sc_main s = Main_Select \<Longrightarrow> chan_recv (sc_sigs s) = Received g c \<Longrightarrow>
    main_step s (s\<lparr>sc_sigs := c, sc_main := Main_Got g, sc_handled := sc_handled s @ [g]\<rparr>)"
| m_show: "sc_main s = Main_Got SIGUSR1 \<Longrightarrow>
    main_step s (s\<lparr>sc_main := Main_Select, sc_history := sc_history s @ [Shown (ticker_Value (sc_ticker s))]\<rparr>)"
| m_reset: "sc_main s = Main_Got SIGUSR2 \<Longrightarrow>
    main_step s (s\<lparr>sc_ticker := ticker_Reset (sc_ticker s), sc_main := Main_Select,
      sc_history := sc_history s @ [Zeroed]\<rparr>)"
| m_shutdown: "sc_main s = Main_Got SIGTERM \<or> sc_main s = Main_Got SIGINT \<Longrightarrow>
    main_step s (s\<lparr>sc_main := Main_Cancel\<rparr>)"
| m_cancel: "sc_main s = Main_Cancel \<Longrightarrow> main_step s (s\<lparr>sc_cancelled := True, sc_main := Main_Wait\<rparr>)"
| m_done: "sc_main s = Main_Select \<Longrightarrow> sc_cancelled s \<Longrightarrow> main_step s (s\<lparr>sc_main := Main_Wait\<rparr>)"
| m_return: "sc_main s = Main_Wait \<Longrightarrow> sc_stop s \<Longrightarrow> main_step s (s\<lparr>sc_main := Main_Returned, sc_cancelled := True\<rparr>)"

text \<open>The environment: a signal is accepted or dropped, the clock fires or its tick is dropped.\<close>

inductive sig_env :: "sig_state \<Rightarrow> sig_state \<Rightarrow> bool" where
  x_signal: "chan_send g (sc_sigs s) = Sent c \<Longrightarrow>
    sig_env s (s\<lparr>sc_sigs := c, sc_accepted := sc_accepted s @ [g]\<rparr>)"
| x_drop: "chan_send g (sc_sigs s) = Send_Blocks \<Longrightarrow> sig_env s s"
| x_clock: "chan_send () (sc_clock s) = Sent c \<Longrightarrow> sig_env s (s\<lparr>sc_clock := c\<rparr>)"

definition prog_step :: "sig_state \<Rightarrow> sig_state \<Rightarrow> bool" where
  "prog_step s t \<longleftrightarrow> sc_main s \<noteq> Main_Returned \<and> (run_step s t \<or> main_step s t)"

inductive sig_reach :: "sig_state \<Rightarrow> bool" where
  sig_init: "sig_reach sig_start"
| sig_prog: "sig_reach s \<Longrightarrow> prog_step s t \<Longrightarrow> sig_reach t"
| sig_env: "sig_reach s \<Longrightarrow> sig_env s t \<Longrightarrow> sig_reach t"

inductive_cases run_stepE: "run_step s t"
inductive_cases main_stepE: "main_step s t"
inductive_cases sig_envE: "sig_env s t"

section \<open>The invariant\<close>

text \<open>The ticks counted since the last reset.\<close>

fun ticks_since :: "nat \<Rightarrow> count_event list \<Rightarrow> nat" where
  "ticks_since n [] = n"
| "ticks_since n (Ticked # es) = ticks_since (n + 1) es"
| "ticks_since n (Zeroed # es) = ticks_since 0 es"
| "ticks_since n (Shown _ # es) = ticks_since n es"

lemma ticks_since_snoc [simp]:
  "ticks_since n (es @ [Ticked]) = ticks_since n es + 1" "ticks_since n (es @ [Zeroed]) = 0"
  "ticks_since n (es @ [Shown v]) = ticks_since n es"
  by (induction n es rule: ticks_since.induct) simp_all

text \<open>Every value shown is the number of ticks since the last reset before it.\<close>

definition shown_right :: "count_event list \<Rightarrow> bool" where
  "shown_right es \<longleftrightarrow>
     (\<forall>i < length es. \<forall>v. es ! i = Shown v \<longrightarrow> v = of_nat (ticks_since 0 (take i es)))"

lemma shown_right_snoc:
  "shown_right (es @ [e]) \<longleftrightarrow> shown_right es \<and> (\<forall>v. e = Shown v \<longrightarrow> v = of_nat (ticks_since 0 es))"
  by (auto simp: shown_right_def nth_append less_Suc_eq)

definition shutdown :: "os_signal \<Rightarrow> bool" where
  "shutdown g \<longleftrightarrow> g = SIGTERM \<or> g = SIGINT"

definition quiet_signals :: "os_signal list \<Rightarrow> bool" where
  "quiet_signals gs \<longleftrightarrow> (\<forall>g \<in> set gs. \<not> shutdown g)"

definition sig_inv :: "sig_state \<Rightarrow> bool" where
  "sig_inv s \<longleftrightarrow>
     tk_value (sc_ticker s) = of_nat (ticks_since 0 (sc_history s)) \<and> shown_right (sc_history s) \<and>
     sc_accepted s = sc_handled s @ ch_buf (sc_sigs s) \<and>
     chan_ok (sc_sigs s) \<and> ch_cap (sc_sigs s) = 4 \<and> \<not> ch_closed (sc_sigs s) \<and>
     chan_ok (sc_clock s) \<and> ch_cap (sc_clock s) = 1 \<and> \<not> ch_closed (sc_clock s) \<and>
     (sc_stop s \<longleftrightarrow> sc_run s = Run_Ended) \<and>
     (sc_run s = Run_Returned \<or> sc_run s = Run_Ended \<longrightarrow> sc_cancelled s) \<and>
     (sc_cancelled s \<longleftrightarrow> sc_main s = Main_Wait \<or> sc_main s = Main_Returned) \<and>
     (sc_main s = Main_Returned \<longrightarrow> sc_stop s) \<and>
     (case sc_main s of
        Main_Select \<Rightarrow> quiet_signals (sc_handled s)
      | Main_Got g \<Rightarrow> (\<exists>gs. sc_handled s = gs @ [g] \<and> quiet_signals gs)
      | _ \<Rightarrow> (\<exists>gs g. sc_handled s = gs @ [g] \<and> quiet_signals gs \<and> shutdown g))"

lemmas ticker_defs = NewTicker_def ticker_tick_def ticker_Value_def ticker_Reset_def

lemma quiet_signals_simps [simp]:
  "quiet_signals []" "quiet_signals (gs @ [g]) \<longleftrightarrow> quiet_signals gs \<and> \<not> shutdown g"
  by (auto simp: quiet_signals_def)

lemma shutdown_simps [simp]: "\<not> shutdown SIGUSR1" "\<not> shutdown SIGUSR2" "shutdown SIGTERM" "shutdown SIGINT"
  by (simp_all add: shutdown_def)

lemma sig_inv_start: "sig_inv sig_start"
  by (simp add: sig_inv_def sig_start_def ticker_defs shown_right_def make_chan_def chan_ok_def)

lemma sig_inv_run: "run_step s t \<Longrightarrow> sig_inv s \<Longrightarrow> sig_inv t"
  by (induction rule: run_step.induct)
    (auto simp: sig_inv_def ticker_defs shown_right_snoc chan_iffs chan_ok_def split: main_pc.splits)

lemma sig_inv_main: "main_step s t \<Longrightarrow> sig_inv s \<Longrightarrow> sig_inv t"
  by (induction rule: main_step.induct)
    (auto simp: sig_inv_def ticker_defs shown_right_snoc chan_iffs chan_ok_def)

lemma sig_inv_env: "sig_env s t \<Longrightarrow> sig_inv s \<Longrightarrow> sig_inv t"
  by (induction rule: sig_env.induct)
    (auto simp: sig_inv_def chan_iffs chan_ok_def split: main_pc.splits)

lemma sig_reach_inv: "sig_reach s \<Longrightarrow> sig_inv s"
  by (induction rule: sig_reach.induct)
    (auto simp: prog_step_def intro: sig_inv_start sig_inv_run sig_inv_main sig_inv_env)

section \<open>Progress\<close>

fun run_rank :: "run_pc \<Rightarrow> nat" where
  "run_rank Run_Select = 2"
| "run_rank Run_Ticked = 3"
| "run_rank Run_Returned = 1"
| "run_rank Run_Ended = 0"

fun main_rank :: "main_pc \<Rightarrow> nat" where
  "main_rank Main_Select = 4"
| "main_rank (Main_Got _) = 5"
| "main_rank Main_Cancel = 3"
| "main_rank Main_Wait = 2"
| "main_rank Main_Returned = 0"

definition sig_work :: "sig_state \<Rightarrow> nat" where
  "sig_work s = 2 * length (ch_buf (sc_clock s)) + 2 * length (ch_buf (sc_sigs s)) +
     run_rank (sc_run s) + main_rank (sc_main s)"

lemma prog_step_work: "prog_step s t \<Longrightarrow> sig_work t < sig_work s"
  unfolding prog_step_def
proof (elim conjE disjE)
  show "run_step s t \<Longrightarrow> sig_work t < sig_work s"
    by (induction rule: run_step.induct) (auto simp: sig_work_def chan_iffs)
  show "main_step s t \<Longrightarrow> sig_work t < sig_work s"
    by (induction rule: main_step.induct) (auto simp: sig_work_def chan_iffs)
qed

interpretation program: measured prog_step sig_work
  by unfold_locales (rule prog_step_work)

text \<open>The program can move unless it has returned or waits for a signal and a tick.\<close>

lemma run_waits:
  assumes "\<nexists>t. run_step s t"
  shows "sc_run s = Run_Ended \<or> sc_run s = Run_Select \<and> \<not> sc_cancelled s \<and> chan_recv (sc_clock s) \<noteq> Received () c"
  using assms r_tick [of s "()"] r_add [of s] r_done [of s] r_close [of s] by (cases "sc_run s") auto

lemma main_waits:
  assumes "\<nexists>t. main_step s t"
  shows "sc_main s = Main_Returned \<or> sc_main s = Main_Wait \<and> \<not> sc_stop s \<or>
    sc_main s = Main_Select \<and> chan_recv (sc_sigs s) \<noteq> Received g c"
proof (cases "sc_main s")
  case (Main_Got h)
  then show ?thesis using assms m_show [of s] m_reset [of s] m_shutdown [of s] by (cases h) auto
qed (use assms m_signal [of s g c] m_cancel [of s] m_return [of s] in auto)

lemma sig_stuck:
  assumes reach: "sig_reach s" and stuck: "\<nexists>t. prog_step s t" and "sc_main s \<noteq> Main_Returned"
  shows "sc_main s = Main_Select \<and> sc_run s = Run_Select \<and> ch_buf (sc_sigs s) = [] \<and> ch_buf (sc_clock s) = []"
proof -
  have inv: "sig_inv s" by (rule sig_reach_inv [OF reach])
  have r: "\<nexists>t. run_step s t" and m: "\<nexists>t. main_step s t" using stuck assms(3) by (auto simp: prog_step_def)
  have nr: "chan_recv (sc_sigs s) \<noteq> Received g c \<Longrightarrow> g = hd (ch_buf (sc_sigs s)) \<Longrightarrow>
      c = (sc_sigs s)\<lparr>ch_buf := tl (ch_buf (sc_sigs s))\<rparr> \<Longrightarrow> ch_buf (sc_sigs s) = []" for g c
    by (cases "ch_buf (sc_sigs s)") (auto simp: chan_recv_def)
  have nc: "chan_recv (sc_clock s) \<noteq> Received () c \<Longrightarrow>
      c = (sc_clock s)\<lparr>ch_buf := tl (ch_buf (sc_clock s))\<rparr> \<Longrightarrow> ch_buf (sc_clock s) = []" for c
    by (cases "ch_buf (sc_clock s)") (auto simp: chan_recv_def)
  have "sc_main s \<noteq> Main_Wait"
    using inv run_waits [OF r] main_waits [OF m] by (auto simp: sig_inv_def)
  then have a: "sc_main s = Main_Select" "ch_buf (sc_sigs s) = []"
    using main_waits [OF m, of "hd (ch_buf (sc_sigs s))" "(sc_sigs s)\<lparr>ch_buf := tl (ch_buf (sc_sigs s))\<rparr>"] nr assms(3)
    by blast+
  then have "\<not> sc_cancelled s" using inv by (simp add: sig_inv_def)
  then have "sc_run s \<noteq> Run_Ended" using inv by (auto simp: sig_inv_def)
  then show ?thesis
    using a run_waits [OF r, of "(sc_clock s)\<lparr>ch_buf := tl (ch_buf (sc_clock s))\<rparr>"] nc by blast
qed

section \<open>Properties\<close>

text \<open>
  C37: what the signal counter shows and when it stops, in every interleaving of the two goroutines, the
  clock and the signals.  Every value printed is the number of ticks counted since the last reset (in 64
  bits); at most four signals wait, and those accepted are handled in order; main cancels the context
  only after a \<open>SIGTERM\<close> or \<open>SIGINT\<close>, which is the last signal it handles, so that its
  own \<open>ctx.Done()\<close> case is never taken; and it returns only after the ticker goroutine has ended.
\<close>

theorem sig_counter_safe:
  assumes "sig_reach s"
  shows "(\<forall>i < length (sc_history s). \<forall>v. sc_history s ! i = Shown v \<longrightarrow>
      v = of_nat (ticks_since 0 (take i (sc_history s)))) \<and>
    ticker_Value (sc_ticker s) = of_nat (ticks_since 0 (sc_history s)) \<and>
    sc_accepted s = sc_handled s @ ch_buf (sc_sigs s) \<and> length (ch_buf (sc_sigs s)) \<le> 4 \<and>
    (sc_cancelled s \<longrightarrow> (\<exists>gs g. sc_handled s = gs @ [g] \<and> quiet_signals gs \<and> shutdown g)) \<and>
    \<not> (sc_main s = Main_Select \<and> sc_cancelled s) \<and>
    (sc_main s = Main_Returned \<longrightarrow> sc_run s = Run_Ended \<and> sc_stop s)"
  using sig_reach_inv [OF assms]
  by (auto simp: sig_inv_def shown_right_def ticker_Value_def chan_ok_def)

text \<open>
  C38: the program reacts and stops.  Left alone it makes finitely many steps, and when it can make none it has
  returned or waits in both selects with both channels empty; so once a \<open>SIGTERM\<close> or
  \<open>SIGINT\<close> has been accepted, it stops only by returning.
\<close>

theorem sig_counter_stops:
  assumes "sig_reach s"
  shows "(\<forall>t. prog_step s t \<longrightarrow> sig_work t < sig_work s) \<and>
    (\<exists>t. rtranclp prog_step s t \<and> (\<nexists>u. prog_step t u)) \<and>
    ((\<nexists>t. prog_step s t) \<longrightarrow> sc_main s = Main_Returned \<or>
       sc_main s = Main_Select \<and> sc_run s = Run_Select \<and> ch_buf (sc_sigs s) = [] \<and> ch_buf (sc_clock s) = []) \<and>
    ((\<nexists>t. prog_step s t) \<and> (\<exists>g \<in> set (sc_accepted s). shutdown g) \<longrightarrow> sc_main s = Main_Returned)"
proof -
  have "sc_main s = Main_Returned" if "\<nexists>t. prog_step s t" "g \<in> set (sc_accepted s)" "shutdown g" for g
  proof (rule ccontr)
    assume "sc_main s \<noteq> Main_Returned"
    from sig_stuck [OF assms that(1) this] sig_reach_inv [OF assms] that(2,3)
    show False by (auto simp: sig_inv_def quiet_signals_def)
  qed
  then show ?thesis using prog_step_work program.comes_to_rest [of s] sig_stuck [OF assms] by blast
qed

section \<open>A run\<close>

definition sig_demo :: "unit list \<Rightarrow> os_signal list \<Rightarrow> u64 \<Rightarrow> run_pc \<Rightarrow> main_pc \<Rightarrow> os_signal list \<Rightarrow> os_signal list \<Rightarrow>
    count_event list \<Rightarrow> bool \<Rightarrow> bool \<Rightarrow> sig_state" where
  "sig_demo clock sigs v r m acc handled es c st =
     \<lparr>sc_ticker = \<lparr>tk_value = v\<rparr>, sc_clock = \<lparr>ch_cap = 1, ch_buf = clock, ch_closed = False\<rparr>,
      sc_sigs = \<lparr>ch_cap = 4, ch_buf = sigs, ch_closed = False\<rparr>, sc_cancelled = c, sc_stop = st,
      sc_run = r, sc_main = m, sc_accepted = acc, sc_handled = handled, sc_history = es\<rparr>"

lemma sig_demo_shown:
  "sig_reach (sig_demo [] [] 1 Run_Select Main_Select [SIGUSR1] [SIGUSR1] [Ticked, Shown 1] False False)"
proof -
  note d = sig_demo_def chan_iffs prog_step_def ticker_defs
  have "sig_start = sig_demo [] [] 0 Run_Select Main_Select [] [] [] False False"
    by (simp add: d sig_start_def make_chan_def)
  then have r: "sig_reach (sig_demo [] [] 0 Run_Select Main_Select [] [] [] False False)" using sig_init by simp
  have "sig_env (sig_demo [] [] 0 Run_Select Main_Select [] [] [] False False) (sig_demo [()] [] 0 Run_Select Main_Select [] [] [] False False)"
    using x_clock [of "sig_demo [] [] 0 Run_Select Main_Select [] [] [] False False"] by (simp add: d)
  note r = sig_reach.sig_env [OF r this]
  have "prog_step (sig_demo [()] [] 0 Run_Select Main_Select [] [] [] False False) (sig_demo [] [] 0 Run_Ticked Main_Select [] [] [] False False)"
    using r_tick [of "sig_demo [()] [] 0 Run_Select Main_Select [] [] [] False False"] by (simp add: d)
  note r = sig_prog [OF r this]
  have "prog_step (sig_demo [] [] 0 Run_Ticked Main_Select [] [] [] False False) (sig_demo [] [] 1 Run_Select Main_Select [] [] [Ticked] False False)"
    using r_add [of "sig_demo [] [] 0 Run_Ticked Main_Select [] [] [] False False"] by (simp add: d)
  note r = sig_prog [OF r this]
  have "sig_env (sig_demo [] [] 1 Run_Select Main_Select [] [] [Ticked] False False)
      (sig_demo [] [SIGUSR1] 1 Run_Select Main_Select [SIGUSR1] [] [Ticked] False False)"
    using x_signal [of SIGUSR1 "sig_demo [] [] 1 Run_Select Main_Select [] [] [Ticked] False False"] by (simp add: d)
  note r = sig_reach.sig_env [OF r this]
  have "prog_step (sig_demo [] [SIGUSR1] 1 Run_Select Main_Select [SIGUSR1] [] [Ticked] False False)
      (sig_demo [] [] 1 Run_Select (Main_Got SIGUSR1) [SIGUSR1] [SIGUSR1] [Ticked] False False)"
    using m_signal [of "sig_demo [] [SIGUSR1] 1 Run_Select Main_Select [SIGUSR1] [] [Ticked] False False"] by (simp add: d)
  note r = sig_prog [OF r this]
  have "prog_step (sig_demo [] [] 1 Run_Select (Main_Got SIGUSR1) [SIGUSR1] [SIGUSR1] [Ticked] False False)
      (sig_demo [] [] 1 Run_Select Main_Select [SIGUSR1] [SIGUSR1] [Ticked, Shown 1] False False)"
    using m_show [of "sig_demo [] [] 1 Run_Select (Main_Got SIGUSR1) [SIGUSR1] [SIGUSR1] [Ticked] False False"] by (simp add: d)
  from sig_prog [OF r this] show ?thesis .
qed

theorem sig_counter_safe_witness:
  "\<exists>s. sig_reach s \<and> sc_history s = [Ticked, Shown 1] \<and> sc_accepted s = sc_handled s @ ch_buf (sc_sigs s) \<and>
     ticker_Value (sc_ticker s) = of_nat (ticks_since 0 (sc_history s))"
  using sig_counter_safe [OF sig_demo_shown] sig_demo_shown
  by (intro exI [of _ "sig_demo [] [] 1 Run_Select Main_Select [SIGUSR1] [SIGUSR1] [Ticked, Shown 1] False False"])
    (simp add: sig_demo_def)

theorem sig_counter_stops_witness:
  "\<exists>s. sig_reach s \<and> (\<forall>t. prog_step s t \<longrightarrow> sig_work t < sig_work s) \<and> sig_work s = 6"
  using sig_counter_stops [OF sig_demo_shown] sig_demo_shown
  by (intro exI [of _ "sig_demo [] [] 1 Run_Select Main_Select [SIGUSR1] [SIGUSR1] [Ticked, Shown 1] False False"])
    (simp add: sig_demo_def sig_work_def)


end
