(* ===== verification/App_Users.thy ===== *)
theory App_Users
  imports Go_Json_Object
begin

text \<open>
  \<open>db-query/main.go\<close>: the handler of \<open>/users\<close>.  The database is a parameter: the query fails, or it gives rows, each
  of which \<open>Scan\<close> turns into a user or an error, and then ends, possibly with an error of its own.
  The response is a value: status, content type and body.
\<close>

section \<open>The handler\<close>

record user =
  usr_ID :: int
  usr_Name :: bytes
  usr_Email :: bytes

datatype query_result = Query_Failed bytes | Query_Rows "(bytes + user) list" "bytes option"

record response =
  rs_status :: int
  rs_type :: string
  rs_body :: bytes

text \<open>\<open>http.Error\<close>.\<close>

definition http_error :: "bytes \<Rightarrow> int \<Rightarrow> response" where
  "http_error msg code = \<lparr>rs_status = code, rs_type = ''text/plain; charset=utf-8'', rs_body = msg @ [nl]\<rparr>"

text \<open>\<open>json.NewEncoder(w).Encode\<close> of a slice of users; a slice that was never appended to is nil.\<close>

definition user_text :: "user \<Rightarrow> bytes" where
  "user_text u =
     123 # member_text ''id'' (json_int (usr_ID u)) @
     44 # member_text ''name'' (json_string (usr_Name u)) @
     44 # member_text ''email'' (json_string (usr_Email u)) @ [125]"

fun users_elements :: "user list \<Rightarrow> bytes" where
  "users_elements [] = []"
| "users_elements [u] = user_text u"
| "users_elements (u # us) = user_text u @ 44 # users_elements us"

definition encode_users :: "user list \<Rightarrow> bytes" where
  "encode_users us = (if us = [] then ascii ''null'' else 91 # users_elements us @ [93]) @ [nl]"

text \<open>The loop over the rows, and the whole handler.\<close>

fun scan_rows :: "(bytes + user) list \<Rightarrow> user list \<Rightarrow> bytes + user list" where
  "scan_rows [] users = Inr users"
| "scan_rows (Inl e # rows) users = Inl e"
| "scan_rows (Inr u # rows) users = scan_rows rows (users @ [u])"

definition users_handler :: "query_result \<Rightarrow> response" where
  "users_handler q =
     (case q of
        Query_Failed e \<Rightarrow> http_error e 500
      | Query_Rows rows err \<Rightarrow>
          (case scan_rows rows [] of
             Inl e \<Rightarrow> http_error e 500
           | Inr users \<Rightarrow> \<lparr>rs_status = 200, rs_type = ''application/json'', rs_body = encode_users users\<rparr>))"

section \<open>The command\<close>

text \<open>
  The default multiplexer with its one pattern: a request is its (clean) path and what the database answers.
\<close>

definition serve_request :: "string \<times> query_result \<Rightarrow> response" where
  "serve_request r = (if fst r = ''/users'' then users_handler (snd r) else http_error (ascii ''404 page not found'') 404)"

text \<open>
  \<open>main\<close>, given whether \<open>sql.Open\<close> fails and the requests served until \<open>ListenAndServe\<close> returns, which it does only with an
  error.  Both ends are \<open>log.Fatal\<close>, which exits without running the deferred calls (the end of the profile, \<open>db.Close\<close>).
\<close>

datatype deferred = Stop_Profile | Close_Database

record db_end =
  de_status :: nat
  de_responses :: "response list"
  de_deferred :: "deferred list"

definition db_main :: "string option \<Rightarrow> (string \<times> query_result) list \<Rightarrow> db_end" where
  "db_main openError requests =
     (case openError of
        Some err \<Rightarrow> \<lparr>de_status = 1, de_responses = [], de_deferred = []\<rparr>
      | None \<Rightarrow> \<lparr>de_status = 1, de_responses = map serve_request requests, de_deferred = []\<rparr>)"

section \<open>Reading the response\<close>

lemma scan_rows_users: "scan_rows (map Inr us) acc = Inr (acc @ us)"
  by (induction us arbitrary: acc) simp_all

lemma scan_rows_error: "scan_rows (map Inr us @ Inl e # rows) acc = Inl e"
  by (induction us arbitrary: acc) simp_all

definition user_members :: "user \<Rightarrow> (bytes \<times> json) list" where
  "user_members u =
     [(ascii ''id'', JNum (json_int (usr_ID u))), (ascii ''name'', JStr (valid_utf8 (usr_Name u))),
      (ascii ''email'', JStr (valid_utf8 (usr_Email u)))]"

lemma user_names:
  "valid_utf8 (ascii ''id'') = ascii ''id''" "valid_utf8 (ascii ''name'') = ascii ''name''"
  "valid_utf8 (ascii ''email'') = ascii ''email''"
  by (rule valid_utf8_ascii, simp add: ascii_def)+

lemma read_user:
  assumes "0 < d"
  shows "read_value d (user_text u @ rest) = Some (JObj (user_members u), rest)"
proof -
  let ?m3 = "member_text ''email'' (json_string (usr_Email u)) @ [125]"
  let ?m2 = "member_text ''name'' (json_string (usr_Name u)) @ 44 # ?m3"
  let ?m1 = "member_text ''id'' (json_int (usr_ID u)) @ 44 # ?m2"
  have s: "read_value (d - 1) (json_string t @ rest) = Some (JStr (valid_utf8 t), rest)" for t rest
    by (simp only: read_json_string valid_utf8_def)
  have n: "read_value (d - 1) (json_int m @ 44 # rest) = Some (JNum (json_int m), 44 # rest)" for m rest
    by (rule read_json_int_value) (simp add: number_ends_def is_digit_def)
  have r3: "read_members (d - 1) ?m3 = Some (drop 2 (user_members u), [])"
    using read_member(2) [OF s [of "usr_Email u" "[125]"], of "''email''"]
    by (simp add: user_names user_members_def del: read_members.simps)
  have r2: "read_members (d - 1) ?m2 = Some (drop 1 (user_members u), [])"
    using read_member(1) [OF s [of "usr_Name u" "44 # ?m3"], of "''name''"] r3
    by (simp add: user_names user_members_def del: read_members.simps)
  have r1: "read_members (d - 1) ?m1 = Some (user_members u, [])"
    using read_member(1) [OF n [of "usr_ID u" "?m2"], of "''id''"] r2
    by (simp add: user_names user_members_def del: read_members.simps)
  have "skip_ws (user_text u) = 123 # ?m1" by (simp add: user_text_def skip_ws_nonspace is_ws_def)
  moreover obtain cs where "skip_ws ?m1 = quote # cs"
    by (simp add: member_text_def json_string_def skip_ws_nonspace is_ws_def)
  ultimately have "read_value d (user_text u) = Some (JObj (user_members u), [])"
    using assms r1 by (simp add: read_value_object del: read_value.simps read_members.simps)
  from read_append(1) [OF this, of rest] show ?thesis by simp
qed

lemma read_users:
  assumes "0 < d"
  shows "us \<noteq> [] \<Longrightarrow> read_elements d (users_elements us @ 93 # rest) = Some (map (JObj \<circ> user_members) us, rest)"
proof (induction us rule: users_elements.induct)
  case (2 u)
  then show ?case
    by (subst read_elements.simps)
      (simp add: read_user [OF assms] skip_ws_nonspace is_ws_def del: read_value.simps read_elements.simps)
next
  case (3 u v us)
  then show ?case
    by (subst read_elements.simps)
      (simp add: read_user [OF assms] skip_ws_nonspace is_ws_def del: read_value.simps read_elements.simps)
qed simp

lemma read_encoded:
  "read_json (encode_users us) = Some (if us = [] then JNull else JArr (map (JObj \<circ> user_members) us))"
proof (cases "us = []")
  case True
  have "read_value max_nesting (ascii ''null'') = Some (JNull, [])"
    by (subst read_value.simps)
      (simp add: ascii_def skip_ws_nonspace is_ws_def strip_prefix_def del: read_value.simps)
  from read_json_value [OF this, of "[nl]"] True show ?thesis by (simp add: encode_users_def is_ws_def)
next
  case False
  let ?es = "users_elements us @ [93]"
  obtain u vs where us: "us = u # vs" using False by (cases us) auto
  obtain bs where "users_elements us = 123 # bs"
    unfolding us by (cases vs) (simp_all add: user_text_def)
  then have c: "skip_ws ?es = 123 # bs @ [93]" by (simp add: skip_ws_nonspace is_ws_def)
  have "read_elements (max_nesting - 1) ?es = Some (map (JObj \<circ> user_members) us, [])"
    by (rule read_users [OF _ False]) (simp add: max_nesting_def)
  moreover have "skip_ws (91 # ?es) = 91 # ?es" by (simp add: skip_ws_nonspace is_ws_def)
  ultimately have "read_value max_nesting (91 # ?es) = Some (JArr (map (JObj \<circ> user_members) us), [])"
    using c by (simp add: read_value_array del: read_value.simps read_elements.simps)
  from read_json_value [OF this, of "[nl]"] False show ?thesis by (simp add: encode_users_def is_ws_def)
qed

section \<open>Properties\<close>



end
