(* ===== verification/App_Monitor.thy ===== *)
theory App_Monitor
  imports Go_Prelude
begin

text \<open>
  \<open>fs-monitor\<close>: \<open>NewTracker\<close> walks the directory tree and adds every directory to a watcher
  (\<open>tracking/tracker.go\<close>), \<open>Run\<close> logs what the watcher reports, and \<open>main\<close> runs the two.  The watcher is a third-party
  package (\<open>fsnotify\<close>): its \<open>Add\<close> is a parameter, an arbitrary function of its state that succeeds or fails.  The file tree is a
  value; \<open>filepath.WalkDir\<close> and \<open>filepath.Join\<close> are the library functions.
\<close>

section \<open>Paths\<close>

fun split_path :: "string \<Rightarrow> string \<Rightarrow> string list" where
  "split_path acc [] = [rev acc]"
| "split_path acc (c # cs) = (if c = CHR ''/'' then rev acc # split_path [] cs else split_path (c # acc) cs)"

fun clean_parts :: "bool \<Rightarrow> string list \<Rightarrow> string list \<Rightarrow> string list" where
  "clean_parts rooted acc [] = rev acc"
| "clean_parts rooted acc (p # ps) =
     (if p = '''' \<or> p = ''.'' then clean_parts rooted acc ps
      else if p = ''..'' then
        (case acc of
           q # qs \<Rightarrow> if q = ''..'' then clean_parts rooted (p # acc) ps else clean_parts rooted qs ps
         | [] \<Rightarrow> clean_parts rooted (if rooted then [] else [p]) ps)
      else clean_parts rooted (p # acc) ps)"

fun slashed :: "string list \<Rightarrow> string" where
  "slashed [] = ''''"
| "slashed [p] = p"
| "slashed (p # ps) = p @ ''/'' @ slashed ps"

definition path_Clean :: "string \<Rightarrow> string" where
  "path_Clean path =
     (let rooted = (take 1 path = ''/'');
          parts = clean_parts rooted [] (split_path [] path);
          out = (if rooted then ''/'' else '''') @ slashed parts
      in if out = '''' then ''.'' else out)"

definition path_Join :: "string \<Rightarrow> string \<Rightarrow> string" where
  "path_Join path name =
     (if path = '''' \<and> name = '''' then ''''
      else path_Clean (if path = '''' then name else if name = '''' then path else path @ ''/'' @ name))"

section \<open>Walking the tree\<close>

text \<open>
  A directory has the error its listing fails with, if any, and its entries in the order of their names, as
  \<open>os.ReadDir\<close> gives them.  Anything else, a symbolic link to a directory too, is not a directory.
\<close>

datatype fs_node = Fs_Other | Fs_Dir "string option" "(string \<times> fs_node) list"

record 'w tracker =
  tr_watcher :: 'w

text \<open>The function given to \<open>WalkDir\<close>: the state of the watcher, and the error it returns.\<close>

definition watch_visit ::
  "('w \<Rightarrow> string \<Rightarrow> string + 'w) \<Rightarrow> string \<Rightarrow> bool \<Rightarrow> string option \<Rightarrow> 'w \<Rightarrow> 'w \<times> string option" where
  "watch_visit add path isDir err w =
     (case err of
        Some e \<Rightarrow> (w, Some e)
      | None \<Rightarrow>
          if isDir then (case add w path of Inl e \<Rightarrow> (w, Some e) | Inr w' \<Rightarrow> (w', None))
          else (w, None))"

fun walkDir :: "('w \<Rightarrow> string \<Rightarrow> string + 'w) \<Rightarrow> string \<Rightarrow> fs_node \<Rightarrow> 'w \<Rightarrow> 'w \<times> string option"
and walkEntries :: "('w \<Rightarrow> string \<Rightarrow> string + 'w) \<Rightarrow> string \<Rightarrow> (string \<times> fs_node) list \<Rightarrow> 'w \<Rightarrow> 'w \<times> string option" where
  "walkDir add path Fs_Other w = watch_visit add path False None w"
| "walkDir add path (Fs_Dir err entries) w =
     (case watch_visit add path True None w of
        (w, Some e) \<Rightarrow> (w, Some e)
      | (w, None) \<Rightarrow>
          (case err of
             Some e \<Rightarrow> watch_visit add path True (Some e) w
           | None \<Rightarrow> walkEntries add path entries w))"
| "walkEntries add path [] w = (w, None)"
| "walkEntries add path ((name, node) # entries) w =
     (case walkDir add (path_Join path name) node w of
        (w, Some e) \<Rightarrow> (w, Some e)
      | (w, None) \<Rightarrow> walkEntries add path entries w)"

text \<open>\<open>addDirRecursive\<close>; the root is \<open>Inl\<close> the error of \<open>Lstat\<close> when it cannot be examined.\<close>

definition addDirRecursive ::
  "('w \<Rightarrow> string \<Rightarrow> string + 'w) \<Rightarrow> string \<Rightarrow> string + fs_node \<Rightarrow> 'w \<Rightarrow> 'w \<times> string option" where
  "addDirRecursive add root node w =
     (case node of
        Inl e \<Rightarrow> watch_visit add root False (Some e) w
      | Inr node \<Rightarrow> walkDir add root node w)"

definition NewTracker ::
  "string + 'w \<Rightarrow> ('w \<Rightarrow> string \<Rightarrow> string + 'w) \<Rightarrow> string \<Rightarrow> string + fs_node \<Rightarrow> string + 'w tracker" where
  "NewTracker watcher add dirPath node =
     (case watcher of
        Inl e \<Rightarrow> Inl e
      | Inr w \<Rightarrow>
          (case addDirRecursive add dirPath node w of
             (_, Some e) \<Rightarrow> Inl e
           | (w, None) \<Rightarrow> Inr \<lparr>tr_watcher = w\<rparr>))"

section \<open>The event loop\<close>

text \<open>What the two channels of the watcher deliver, in the order in which the select takes it.\<close>

datatype watch_msg = Watch_Event string | Watch_Error string | Events_Closed | Errors_Closed

datatype log_line = Log_Event string | Log_Error string

text \<open>The log, and whether \<open>Run\<close> has returned.\<close>

fun tracker_Run :: "watch_msg list \<Rightarrow> log_line list \<times> bool" where
  "tracker_Run [] = ([], False)"
| "tracker_Run (Watch_Event e # ms) = (let (log, r) = tracker_Run ms in (Log_Event e # log, r))"
| "tracker_Run (Watch_Error e # ms) = (let (log, r) = tracker_Run ms in (Log_Error e # log, r))"
| "tracker_Run (Events_Closed # ms) = ([], True)"
| "tracker_Run (Errors_Closed # ms) = ([], True)"

datatype monitor_exit = Fatal string | Running "log_line list" | Finished "log_line list"

definition monitor_main ::
  "string list \<Rightarrow> string + 'w \<Rightarrow> ('w \<Rightarrow> string \<Rightarrow> string + 'w) \<Rightarrow> (string \<Rightarrow> string + fs_node) \<Rightarrow> watch_msg list \<Rightarrow> monitor_exit" where
  "monitor_main args watcher add disk msgs =
     (if length args < 2 then Fatal ''Usage: tracker <dir>''
      else (case NewTracker watcher add (args ! 1) (disk (args ! 1)) of
              Inl e \<Rightarrow> Fatal e
            | Inr tracker \<Rightarrow> (case tracker_Run msgs of (log, r) \<Rightarrow> if r then Finished log else Running log)))"

section \<open>What is documented of the watcher\<close>

text \<open>A successful \<open>Add\<close> adds its path to the list of watched paths; nothing is said of when it succeeds.\<close>

definition watcher_ok :: "('w \<Rightarrow> string \<Rightarrow> string + 'w) \<Rightarrow> ('w \<Rightarrow> string list) \<Rightarrow> bool" where
  "watcher_ok add watched \<longleftrightarrow> (\<forall>w p w'. add w p = Inr w' \<longrightarrow> watched w' = watched w @ [p])"

text \<open>An instance: a limit on the number of watches.\<close>

definition limited_add :: "nat \<Rightarrow> string list \<Rightarrow> string \<Rightarrow> string + string list" where
  "limited_add n w p = (if length w < n then Inr (w @ [p]) else Inl ''no space left on device'')"

lemma limited_add_ok: "watcher_ok (limited_add n) (\<lambda>w. w)"
  by (simp add: watcher_ok_def limited_add_def)

section \<open>The directories of a tree\<close>

fun dir_paths :: "string \<Rightarrow> fs_node \<Rightarrow> string list"
and entry_paths :: "string \<Rightarrow> (string \<times> fs_node) list \<Rightarrow> string list" where
  "dir_paths path Fs_Other = []"
| "dir_paths path (Fs_Dir err entries) = path # entry_paths path entries"
| "entry_paths path [] = []"
| "entry_paths path ((name, node) # entries) = dir_paths (path_Join path name) node @ entry_paths path entries"

text \<open>The directories whose listing fails.\<close>

fun unreadable :: "string \<Rightarrow> fs_node \<Rightarrow> string list"
and entries_unreadable :: "string \<Rightarrow> (string \<times> fs_node) list \<Rightarrow> string list" where
  "unreadable path Fs_Other = []"
| "unreadable path (Fs_Dir err entries) =
     (if err = None then [] else [path]) @ entries_unreadable path entries"
| "entries_unreadable path [] = []"
| "entries_unreadable path ((name, node) # entries) =
     unreadable (path_Join path name) node @ entries_unreadable path entries"

text \<open>
  A walk over the paths \<open>all\<close>: those before the failure are watched; it fails at a path that cannot be
  added or behind one whose listing fails.
\<close>

definition walk_result ::
  "('w \<Rightarrow> string \<Rightarrow> string + 'w) \<Rightarrow> ('w \<Rightarrow> string list) \<Rightarrow> string list \<Rightarrow> string list \<Rightarrow> 'w \<Rightarrow> 'w \<times> string option \<Rightarrow> bool" where
  "walk_result add watched all bad w res \<longleftrightarrow>
     (\<exists>ps qs. all = ps @ qs \<and> watched (fst res) = watched w @ ps \<and>
        (case snd res of
           None \<Rightarrow> qs = [] \<and> bad = []
         | Some e \<Rightarrow> (\<exists>q qs'. qs = q # qs' \<and> add (fst res) q = Inl e) \<or> ps \<noteq> [] \<and> last ps \<in> set bad))"

lemma walk_result_append:
  assumes "walk_result add watched xs bad w (w', None)" and "walk_result add watched ys bad' w' res"
  shows "walk_result add watched (xs @ ys) (bad @ bad') w res"
proof -
  obtain ps qs where p: "ys = ps @ qs" "watched (fst res) = watched w' @ ps"
    "case snd res of None \<Rightarrow> qs = [] \<and> bad' = []
     | Some e \<Rightarrow> (\<exists>q qs'. qs = q # qs' \<and> add (fst res) q = Inl e) \<or> ps \<noteq> [] \<and> last ps \<in> set bad'"
    using assms(2) unfolding walk_result_def by blast
  have "watched w' = watched w @ xs" "bad = []" using assms(1) by (auto simp: walk_result_def)
  then show ?thesis
    unfolding walk_result_def
    by (intro exI [of _ "xs @ ps"] exI [of _ qs]) (use p in \<open>auto split: option.splits\<close>)
qed

lemma walk_result_stops:
  assumes "walk_result add watched xs bad w (w', Some e)"
  shows "walk_result add watched (xs @ ys) (bad @ bad') w (w', Some e)"
proof -
  obtain ps qs where p: "xs = ps @ qs" "watched w' = watched w @ ps"
    "(\<exists>q qs'. qs = q # qs' \<and> add w' q = Inl e) \<or> ps \<noteq> [] \<and> last ps \<in> set bad"
    using assms unfolding walk_result_def by auto
  then show ?thesis
    unfolding walk_result_def by (intro exI [of _ ps] exI [of _ "qs @ ys"]) auto
qed

lemma walk_spec:
  "watcher_ok add watched \<Longrightarrow>
     walk_result add watched (dir_paths path node) (unreadable path node) w (walkDir add path node w)"
  "watcher_ok add watched \<Longrightarrow>
     walk_result add watched (entry_paths path entries) (entries_unreadable path entries) w
       (walkEntries add path entries w)"
proof (induction add path node w and add path entries w rule: walkDir_walkEntries.induct)
  case (2 add path err entries w)
  show ?case
  proof (cases "add w path")
    case (Inl e)
    then show ?thesis by (auto simp: walk_result_def watch_visit_def)
  next
    case (Inr w')
    then have w: "watched w' = watched w @ [path]" using 2 by (simp add: watcher_ok_def)
    have v: "watch_visit add path True None w = (w', None)" by (simp add: watch_visit_def Inr)
    show ?thesis
    proof (cases err)
      case None
      have "walk_result add watched [path] [] w (w', None)" using w by (simp add: walk_result_def)
      from walk_result_append [OF this "2.IH" [OF v [symmetric] refl None "2.prems"]]
      show ?thesis by (simp add: v None)
    next
      case (Some e)
      have "walk_result add watched (path # entry_paths path entries) (path # entries_unreadable path entries) w (w', Some e)"
        unfolding walk_result_def using w by (intro exI [of _ "[path]"] exI [of _ "entry_paths path entries"]) simp
      then show ?thesis by (simp add: Inr Some watch_visit_def)
    qed
  qed
next
  case (4 add path name node entries w)
  obtain w' e where r: "walkDir add (path_Join path name) node w = (w', e)" by fastforce
  note first = "4.IH"(1) [OF "4.prems", unfolded r]
  show ?case
  proof (cases e)
    case None
    from walk_result_append [OF first [unfolded None] "4.IH"(2) [OF r [symmetric] None "4.prems"]]
    show ?thesis by (simp add: r None)
  next
    case (Some x)
    from walk_result_stops [OF first [unfolded Some]] show ?thesis by (simp add: r Some)
  qed
qed (simp_all add: walk_result_def watch_visit_def)

section \<open>Properties\<close>

definition is_item :: "watch_msg \<Rightarrow> bool" where
  "is_item m \<longleftrightarrow> m \<noteq> Events_Closed \<and> m \<noteq> Errors_Closed"

fun log_of :: "watch_msg \<Rightarrow> log_line list" where
  "log_of (Watch_Event e) = [Log_Event e]"
| "log_of (Watch_Error e) = [Log_Error e]"
| "log_of _ = []"

lemma tracker_Run_log:
  "tracker_Run ms = (concat (map log_of (takeWhile is_item ms)), \<exists>m \<in> set ms. \<not> is_item m)"
  by (induction ms rule: tracker_Run.induct) (auto simp: is_item_def)

text \<open>
  C39: what the monitor watches and logs.  A tracker is made only when every directory of the tree as it is at that moment
  could be listed and added, and then it watches exactly those, each parent before what it contains; otherwise
  the error is that of a directory that could not be added, or some directory could not be listed, and the watches added before
  stay.  A root that is not a directory, a symbolic link to one included, is accepted and nothing is watched.  \<open>Run\<close>
  logs every event and error in the order received until one of the channels is closed, and adds no watch: a directory
  created later is not watched.
\<close>

theorem monitor_watches:
  assumes "watcher_ok add watched"
  shows "(case NewTracker (Inr w) add root (Inr node) of
      Inr tracker \<Rightarrow> watched (tr_watcher tracker) = watched w @ dir_paths root node \<and> unreadable root node = []
    | Inl e \<Rightarrow> (\<exists>ps q qs w'. dir_paths root node = ps @ q # qs \<and> watched w' = watched w @ ps \<and> add w' q = Inl e) \<or>
        unreadable root node \<noteq> []) \<and>
    NewTracker (Inr w) add root (Inr Fs_Other) = Inr \<lparr>tr_watcher = w\<rparr> \<and>
    tracker_Run msgs = (concat (map log_of (takeWhile is_item msgs)), \<exists>m \<in> set msgs. \<not> is_item m)"
proof -
  obtain w' e where r: "walkDir add root node w = (w', e)" by fastforce
  obtain ps qs where p: "dir_paths root node = ps @ qs" "watched w' = watched w @ ps"
    "case e of None \<Rightarrow> qs = [] \<and> unreadable root node = []
     | Some e \<Rightarrow> (\<exists>q qs'. qs = q # qs' \<and> add w' q = Inl e) \<or> ps \<noteq> [] \<and> last ps \<in> set (unreadable root node)"
    using walk_spec(1) [OF assms, of root node w] unfolding r walk_result_def fst_conv snd_conv by blast
  show ?thesis
  proof (cases e)
    case None
    then show ?thesis
      using p by (simp add: NewTracker_def addDirRecursive_def r tracker_Run_log watch_visit_def)
  next
    case (Some x)
    then have "(\<exists>ps q qs w'. dir_paths root node = ps @ q # qs \<and> watched w' = watched w @ ps \<and> add w' q = Inl x) \<or>
        unreadable root node \<noteq> []"
      using p by auto
    with Some show ?thesis
      by (simp add: NewTracker_def addDirRecursive_def r tracker_Run_log watch_visit_def)
  qed
qed

definition demo_tree :: fs_node where
  "demo_tree = Fs_Dir None [(''a'', Fs_Dir None [(''f'', Fs_Other)]), (''b'', Fs_Other), (''c'', Fs_Dir None [])]"

lemma demo_paths: "dir_paths ''t/'' demo_tree = [''t/'', ''t/a'', ''t/c'']"
  by code_simp

theorem monitor_watches_witness:
  "NewTracker (Inr []) (limited_add 3) ''t/'' (Inr demo_tree) = Inr \<lparr>tr_watcher = [''t/'', ''t/a'', ''t/c'']\<rparr> \<and>
   (case NewTracker (Inr []) (limited_add 2) ''t/'' (Inr demo_tree) of Inl e \<Rightarrow> True | Inr t \<Rightarrow> False) \<and>
   monitor_main [''tracker'', ''t/''] (Inr []) (limited_add 3) (\<lambda>p. Inr demo_tree) [Watch_Event ''x'', Events_Closed] =
     Finished [Log_Event ''x'']"
proof -
  have "case NewTracker (Inr []) (limited_add 3) ''t/'' (Inr demo_tree) of Inl e \<Rightarrow> False | Inr t \<Rightarrow> True" by code_simp
  then obtain t where t: "NewTracker (Inr []) (limited_add 3) ''t/'' (Inr demo_tree) = Inr t" by (auto split: sum.splits)
  have "tr_watcher t = [''t/'', ''t/a'', ''t/c'']"
    using monitor_watches [where w = "[]" and root = "''t/''" and node = demo_tree and msgs = "[]", OF limited_add_ok [of 3]] by (simp add: t demo_paths)
  with t have a: "NewTracker (Inr []) (limited_add 3) ''t/'' (Inr demo_tree) = Inr \<lparr>tr_watcher = [''t/'', ''t/a'', ''t/c'']\<rparr>"
    by simp
  have "case NewTracker (Inr []) (limited_add 2) ''t/'' (Inr demo_tree) of Inl e \<Rightarrow> True | Inr t \<Rightarrow> False" by code_simp
  with a show ?thesis by (simp add: monitor_main_def)
qed


end
