(* ===== verification/Spec2Isabelle.thy ===== *)
theory Spec2Isabelle
  imports Wc_Command Doc_Index Doc_Stage Doc_Pipeline Doc_Telemetry Doc_Typing Doc_Main Proxy_Engine Proxy_System Log_System
    Lab_Counters Lab_Ring Lab_Client Lab_Hash Lab_Server Lab_Burst Lab_Blocking App_Signals App_Users App_Monitor
begin

text \<open>
  A verification development for the Go programs of this repository: seven applications under
  \<open>src/applications\<close> and five labs under \<open>src/labs\<close>.  Each program is a process of its own; the parts of one
  program call each other or share channels, counters and connections, and the theories follow that.

  \<^bold>\<open>Basis.\<close>  \<open>Go_Prelude\<close> has the machine types, decimal printing and the locale \<open>measured\<close> of programs that come to rest, \<open>Go_Utf8\<close> runes and their decoding,
  \<open>Go_Scan\<close> the line scanner with its limit of 64 KiB and the buffered writer of 4096 bytes, \<open>Go_Chan\<close> buffered
  channels and the locale \<open>fifo_queue\<close> of what their users rely on, \<open>Go_Float\<close> single and double precision with
  exact rounding, \<open>Go_Json\<close> and \<open>Go_Json_Object\<close> the JSON writer and reader (nesting up to 10000, as in the library),
  \<open>Go_Env\<close> environment variables and \<open>Atoi\<close>, \<open>Go_Net\<close> the accept loop that all servers write, \<open>Go_Sha256\<close> the hash that two labs compute.  They model the standard library as far as the programs use it.

  \<^bold>\<open>wc-go.\<close>  \<open>Wc_Lines\<close> has the three line processors (\<open>processing/line_processors.go\<close>; interface: the locale
  \<open>line_processor\<close>), \<open>Wc_Input\<close> the five strategies, their dispatch and the command (\<open>processing/input_processors.go\<close>,
  \<open>cmd/cli.go\<close>).  \<open>Wc_Counts\<close> relates the loops to the list of lines of the input, \<open>Wc_Spec\<close> has the promises: what is
  counted, that the strategies agree, and the two inputs on which they do not.  \<open>Wc_Command\<close> is the process: the cobra command, its exit status and output.

  \<^bold>\<open>doc-pipeline.\<close>  \<open>Doc_Load\<close> has the request generator and the loading of a slice, \<open>Doc_Tokenize\<close> the tokenizer,
  \<open>Doc_Embed\<close> the hashing embedding, \<open>Doc_Index\<close> the deduplicating index, sequentially and under concurrent calls, \<open>Doc_Stage\<close>
  the worker pool of a stage under all interleavings (conservation, completeness, order of a single worker, progress), and
  \<open>Doc_Pipeline\<close> the program of \<open>main.go\<close>: generator, four stages and printing loop over shared channels.  Its
  theorems compose those of the parts: nothing is lost or printed twice, at most 507 documents are in
  flight, what is printed is a greedy deduplication, and all that was requested gets printed.  The contract it
  needs of a stage function is the locale \<open>keyed_stage\<close>, interpreted on all four.  \<open>Doc_Typing\<close> has what the parts may assume of
  the items they get (locales \<open>typed_stage\<close> and \<open>typed_world\<close>), and \<open>Doc_Telemetry\<close> the metrics client (\<open>internal/telemetry\<close>): what the
  exported counters say of the pipeline, for any provider that adds up.  \<open>Doc_Main\<close> is the process around it, with its two servers and the ways it ends.

  \<^bold>\<open>reverse-proxy.\<close>  \<open>Proxy_Pool\<close> has the connection pool and both connectors (contract: the locale
  \<open>backend_connector\<close>), \<open>Proxy_Engine\<close> the goroutine engine as interleaved sessions, the epoll engine over a model of the
  kernel's descriptors with edge-triggered events, and the selection made by the command.  \<open>Proxy_Chain\<close> puts the commands together: the client, one session of
  the goroutine engine and the echo server, from the first request to the point where nothing can move.  \<open>Proxy_System\<close> is the whole: the accept loop, any number of clients,
  either connector, and the connections in a store that sessions share; its theorems say which clients are served.

  \<^bold>\<open>log-aggregator.\<close>  \<open>Log_Model\<close> has the entry and its JSON text, \<open>Log_Publisher\<close> the five publishers (locale
  \<open>connection\<close>, for streams and for datagrams) and the producer, alone and under its two timers, \<open>Log_Receiver\<close> the five receivers and what arrives of what was published,
  \<open>Log_Aggregator\<close> the file output and the aggregator with its goroutines, \<open>Log_Ipc\<close> the table of transports and both commands.
  \<open>Log_System\<close> composes them: what a producer has published over a stream is in the file that the aggregator leaves, and
  which part of it over datagrams.

  \<^bold>\<open>Small applications.\<close>  \<open>App_Signals\<close> is \<open>sig-counter\<close> (two goroutines, signals and clock), \<open>App_Monitor\<close> is
  \<open>fs-monitor\<close> (the walk over the tree and the event loop), \<open>App_Users\<close> is \<open>db-query\<close>.

  \<^bold>\<open>Labs.\<close>  \<open>Lab_Counters\<close> has the counters of labs 0104 and 0105 (contract: the locale \<open>counting\<close>), \<open>Lab_Ring\<close> the
  token ring of lab 0105 with channels and with a condition variable, \<open>Lab_Client\<close> the client of lab 0102 with the
  summary of its bursts, \<open>Lab_Server\<close> the server, \<open>Lab_Burst\<close> a burst between the two, \<open>Lab_Hash\<close> the hashing workers of lab 0101 (their
  counter simulates that of \<open>Lab_Counters\<close>), and \<open>Lab_Blocking\<close> the workers of lab 0103 and the delay server.

  \<^bold>\<open>Conventions.\<close>  A function that can fail returns a sum (\<open>Inl\<close> the error); one that can panic returns an option
  (\<open>None\<close>).  Goroutines are program counters in a state record, and the program is a step relation in which one step is
  one channel operation, atomic access, critical section or library call; theorems about programs hold in every
  reachable state.  Fields that the code does not have are histories, and the theory says which they are.  Loops are
  recursive functions with termination proofs; no fuel is used.  A program whose own steps are finitely many between two events
  interprets \<open>measured\<close> with a count of the work left.  Integers that may leave 64 bits are written with
  their wrap-around.  Where a theorem excludes it (a counter of requests below \<open>2 ^ 63\<close>) the hypothesis says so.

  \<^bold>\<open>Parameters.\<close>  Code outside the repository and its standard library is an argument with its documented
  behaviour as a named hypothesis and an instance that satisfies it: the graph index (\<open>hnsw_ok\<close>, \<open>scan_hnsw\<close>), the file watcher
  (\<open>watcher_ok\<close>, \<open>limited_add\<close>), the meter of the telemetry (\<open>meter_ok\<close>, \<open>log_meter\<close>), the parser of the command line (\<open>cobra_ok\<close>, \<open>simple_cobra\<close>), the database rows, the Unicode tables beyond Latin-1 (\<open>unicode_ok\<close>, \<open>latin1_only\<close>).
  The network, the disk and the scheduler are arbitrary within what their operations promise.

  \<^bold>\<open>Not modelled.\<close>  The HTTP protocol around the handlers (\<open>/users\<close>, \<open>/status\<close>, \<open>/burst\<close>), what the metrics and profiling handlers
  answer, the database driver and the profiler: library calls without logic of the repository.  The lines that report the
  number of goroutines or threads, which is the runtime's.  The gauge and the histograms of the telemetry are calls without a
  value of their own.  In \<open>Proxy_Chain\<close> and \<open>Proxy_System\<close> established connections do not fail, only dials; in \<open>Lab_Burst\<close> one burst runs at a time.
\<close>

section \<open>The servers\<close>

text \<open>The three servers of the repository that have no state of their own start and accept in the same way.\<close>

lemma servers_accept:
  "accepts (listen '':9000'') accepted (echo_main listen accepted) \<and>
   accepts (listen (env_or env ''LISTEN_ADDR'' '':9000'')) accepted (server_main env listen accepted) \<and>
   accepts (listen (env_or env ''LISTEN_ADDR'' '':9100'')) accepted (delay_server env listen accepted)"
  by (simp only: echo_main_def server_main_def delay_server_def delay_main_def fst_conv accept_loop_accepts simp_thms)


end
